(* ===== verification/Prelude.thy ===== *)
theory Prelude
  imports Main "HOL-Library.Finite_Map" "HOL-Library.Word" "HOL-Library.Sublist"
begin

section \<open>Prelude: collections, bytes, finite maps, runs\<close>

text \<open>
  What every component theory shares: the fact collections of the development, names for
  the control bytes of the wire protocol, a few facts on finite maps and lists, and the two
  generic interfaces (a text codec, a state machine driven by operations) whose lemmas the
  components obtain by interpretation.
\<close>

subsection \<open>Fact collections\<close>

text \<open>
  \<open>adms_defs\<close>: the definitions of the operations, unfolded together in proofs by cases.
  \<open>frame\<close>: which fields an operation leaves alone.  \<open>inv_intros\<close>: preservation of
  the invariants, one fact per operation.
\<close>

named_theorems adms_defs
named_theorems frame
named_theorems inv_intros

subsection \<open>Bytes\<close>

text \<open>A Go string is a sequence of bytes; so is a HOL \<^typ>\<open>string\<close> (a list of 8-bit
  \<^typ>\<open>char\<close>).  Numbers that index or measure strings therefore agree.\<close>

abbreviation NL :: char where "NL \<equiv> CHR 0x0A"
abbreviation CR :: char where "CR \<equiv> CHR 0x0D"
abbreviation TAB :: char where "TAB \<equiv> CHR 0x09"

text \<open>The printable ASCII bytes other than the blank.\<close>

definition graphic :: "char \<Rightarrow> bool" where
  "graphic c \<longleftrightarrow> 33 \<le> (of_char c :: nat) \<and> (of_char c :: nat) \<le> 126"

subsection \<open>Finite maps\<close>

type_synonym info = "(string, string) fmap"

text \<open>How many keys a map has: \<open>len(m)\<close>.\<close>

definition fmsize :: "('k, 'v) fmap \<Rightarrow> nat" where
  "fmsize m = fcard (fmdom m)"

lemma fmsize_empty [simp]: "fmsize fmempty = 0"
  by (simp add: fmsize_def)

lemma fmsize_upd_new: "fmlookup m k = None \<Longrightarrow> fmsize (fmupd k v m) = Suc (fmsize m)"
  by (simp add: fmsize_def fmdom_notI fcard_finsert_disjoint)

lemma fmsize_upd_old: "fmlookup m k = Some w \<Longrightarrow> fmsize (fmupd k v m) = fmsize m"
  by (simp add: fmsize_def fmdomI finsert_absorb)

lemma fmsize_filter_le: "fmsize (fmfilter P m) \<le> fmsize m"
  by (auto simp: fmsize_def intro!: fcard_mono)

lemma fmsize_drop_le: "fmsize (fmdrop k m) \<le> fmsize m"
  by (auto simp: fmsize_def intro!: fcard_mono)

text \<open>How many entries satisfy a test: a Go loop that counts over \<open>range m\<close>.\<close>

definition fmcount :: "('v \<Rightarrow> bool) \<Rightarrow> ('k, 'v) fmap \<Rightarrow> nat" where
  "fmcount P m = fcard (ffilter (\<lambda>k. case fmlookup m k of Some v \<Rightarrow> P v | None \<Rightarrow> False) (fmdom m))"

lemma fmcount_card: "fmcount P m = card {k. \<exists>v. fmlookup m k = Some v \<and> P v}"
proof -
  have "fset (ffilter (\<lambda>k. case fmlookup m k of Some v \<Rightarrow> P v | None \<Rightarrow> False) (fmdom m))
      = {k. \<exists>v. fmlookup m k = Some v \<and> P v}"
    by (auto split: option.splits dest: fmdomI)
  then show ?thesis by (simp add: fmcount_def fcard.rep_eq)
qed

lemma finite_fmlookup: "finite {k. \<exists>v. fmlookup m k = Some v \<and> P v}"
  by (rule finite_subset [of _ "fset (fmdom m)"]) (auto dest: fmdomI)

lemma fmcount_empty [simp]: "fmcount P fmempty = 0"
  by (simp add: fmcount_card)

lemma fmcount_upd_new:
  assumes "fmlookup m k = None"
  shows "fmcount P (fmupd k v m) = fmcount P m + (if P v then 1 else 0)"
proof (cases "P v")
  case True
  have "{i. \<exists>u. fmlookup (fmupd k v m) i = Some u \<and> P u}
      = insert k {i. \<exists>u. fmlookup m i = Some u \<and> P u}"
    using True by (auto split: if_splits)
  with True assms show ?thesis
    by (simp add: fmcount_card finite_fmlookup)
next
  case False
  have "{i. \<exists>u. fmlookup (fmupd k v m) i = Some u \<and> P u} = {i. \<exists>u. fmlookup m i = Some u \<and> P u}"
    using False assms by (auto split: if_splits)
  with False show ?thesis by (simp add: fmcount_card)
qed

lemma fmcount_mono:
  assumes "\<And>k v. fmlookup m k = Some v \<Longrightarrow> fmlookup n k = Some v"
  shows "fmcount P m \<le> fmcount P n"
  unfolding fmcount_card by (rule card_mono) (auto simp: finite_fmlookup dest: assms)

lemma fmcount_cong:
  assumes "\<And>k v. P v \<Longrightarrow> fmlookup m k = Some v \<longleftrightarrow> fmlookup n k = Some v"
  shows "fmcount P m = fmcount P n"
  unfolding fmcount_card by (rule arg_cong [where f = card]) (auto dest: assms)

subsection \<open>Lists\<close>

lemma dropWhile_id: "(xs = [] \<or> \<not> P (hd xs)) \<Longrightarrow> dropWhile P xs = xs"
  by (cases xs) auto

lemma fold_invariant_list:
  "P a \<Longrightarrow> (\<And>x a. x \<in> set xs \<Longrightarrow> P a \<Longrightarrow> P (f x a)) \<Longrightarrow> P (fold f xs a)"
  by (induction xs arbitrary: a) auto

lemma list_all_set: "list_all P xs \<longleftrightarrow> (\<forall>x \<in> set xs. P x)"
  by (simp add: list_all_iff)

subsection \<open>Interfaces: text codecs and operation-driven machines\<close>

text \<open>
  A \<^emph>\<open>codec\<close> is a printer and a parser that recovers every admissible value from its
  printed form.  The numbers, timestamps and lines of the protocol are instances.
\<close>

locale codec =
  fixes enc :: "'a \<Rightarrow> string"
    and dec :: "string \<Rightarrow> 'a option"
    and ok :: "'a \<Rightarrow> bool"
  assumes dec_enc: "ok x \<Longrightarrow> dec (enc x) = Some x"
begin

lemma enc_inj: "ok x \<Longrightarrow> ok y \<Longrightarrow> enc x = enc y \<Longrightarrow> x = y"
  by (metis dec_enc option.inject)

lemma dec_enc_all: "\<forall>x \<in> set xs. ok x \<Longrightarrow> map dec (map enc xs) = map Some xs"
  by (induction xs) (auto simp: dec_enc)

end

text \<open>
  An \<^emph>\<open>operation machine\<close> is a state with operations that each keep an invariant; the
  invariant then holds after any sequence of operations.
\<close>

locale op_machine =
  fixes step :: "'op \<Rightarrow> 's \<Rightarrow> 's"
    and inv :: "'s \<Rightarrow> bool"
  assumes step_inv: "inv s \<Longrightarrow> inv (step x s)"
begin

lemma run_inv: "inv s \<Longrightarrow> inv (fold step xs s)"
  by (induction xs arbitrary: s) (auto intro: step_inv)

end

text \<open>Lists of goroutines: one moves, and what holds of each.\<close>

lemma list_all_update: "list_all P xs \<Longrightarrow> P x \<Longrightarrow> list_all P (xs[i := x])"
  by (auto simp: list_all_iff dest: set_update_subset_insert [THEN subsetD])

lemma list_all_nthD: "list_all P xs \<Longrightarrow> i < length xs \<Longrightarrow> P (xs ! i)"
  by (simp add: list_all_length)

text \<open>States reachable from the initial ones under a step relation.\<close>

inductive reach :: "('s \<Rightarrow> bool) \<Rightarrow> ('s \<Rightarrow> 's \<Rightarrow> bool) \<Rightarrow> 's \<Rightarrow> bool" for I R where
  reach_init: "I s \<Longrightarrow> reach I R s"
| reach_step: "reach I R s \<Longrightarrow> R s t \<Longrightarrow> reach I R t"

locale rel_machine =
  fixes init :: "'s \<Rightarrow> bool"
    and step :: "'s \<Rightarrow> 's \<Rightarrow> bool"
    and inv :: "'s \<Rightarrow> bool"
  assumes init_inv: "init s \<Longrightarrow> inv s"
    and step_inv: "inv s \<Longrightarrow> step s t \<Longrightarrow> inv t"
begin

lemma reach_inv: "reach init step s \<Longrightarrow> inv s"
  by (induction rule: reach.induct) (auto intro: init_inv step_inv)

end

text \<open>A run with \<open>k\<close> steps of the surroundings and \<open>n\<close> steps of the program.\<close>

inductive mixed_run :: "('s \<Rightarrow> 's \<Rightarrow> bool) \<Rightarrow> ('s \<Rightarrow> 's \<Rightarrow> bool) \<Rightarrow> nat \<Rightarrow> nat \<Rightarrow> 's \<Rightarrow> 's \<Rightarrow> bool"
  for go around where
  run_refl: "mixed_run go around 0 0 s s"
| run_go: "mixed_run go around k n s t \<Longrightarrow> go t u \<Longrightarrow> mixed_run go around k (Suc n) s u"
| run_around: "mixed_run go around k n s t \<Longrightarrow> around t u \<Longrightarrow> mixed_run go around (Suc k) n s u"

text \<open>
  A \<^emph>\<open>progress machine\<close> works towards a goal once it is active: each step of the program
  uses up some of a measure, a step of the surroundings adds at most \<open>cost\<close>, and an active state is
  stuck only at the goal.  So the goal is reached from every active state, and no run avoids it with
  more than the measure's steps plus \<open>cost\<close> for each step of the surroundings.
\<close>

locale progress_machine =
  fixes go :: "'s \<Rightarrow> 's \<Rightarrow> bool"
    and around :: "'s \<Rightarrow> 's \<Rightarrow> bool"
    and inv :: "'s \<Rightarrow> bool"
    and active :: "'s \<Rightarrow> bool"
    and goal :: "'s \<Rightarrow> bool"
    and todo :: "'s \<Rightarrow> nat"
    and cost :: nat
  assumes go_inv: "inv s \<Longrightarrow> go s t \<Longrightarrow> inv t"
    and around_inv: "inv s \<Longrightarrow> around s t \<Longrightarrow> inv t"
    and go_active: "inv s \<Longrightarrow> active s \<Longrightarrow> go s t \<Longrightarrow> active t"
    and around_active: "inv s \<Longrightarrow> active s \<Longrightarrow> around s t \<Longrightarrow> active t"
    and go_less: "inv s \<Longrightarrow> go s t \<Longrightarrow> Suc (todo t) \<le> todo s"
    and around_cost: "inv s \<Longrightarrow> around s t \<Longrightarrow> todo t \<le> todo s + cost"
    and goal_or_go: "inv s \<Longrightarrow> active s \<Longrightarrow> \<not> goal s \<Longrightarrow> \<exists>t. go s t"
begin

lemma goal_reached: "inv s \<Longrightarrow> active s \<Longrightarrow> \<exists>t. go\<^sup>*\<^sup>* s t \<and> goal t"
proof (induction "todo s" arbitrary: s rule: less_induct)
  case less
  show ?case
  proof (cases "goal s")
    case False
    then obtain t where t: "go s t" using goal_or_go less.prems by blast
    have "todo t < todo s" using go_less [OF less.prems(1) t] by simp
    then obtain u where "go\<^sup>*\<^sup>* t u" "goal u"
      using less.hyps go_inv go_active less.prems t by blast
    with t show ?thesis by (meson converse_rtranclp_into_rtranclp)
  qed auto
qed

lemma run_bound: "mixed_run go around k n s t \<Longrightarrow> inv s \<Longrightarrow> inv t \<and> todo t + n \<le> todo s + cost * k"
proof (induction rule: mixed_run.induct)
  case (run_go k n s t u)
  then show ?case using go_less [of t u] go_inv [of t u] by fastforce
next
  case (run_around k n s t u)
  then show ?case using around_cost [of t u] around_inv [of t u] by fastforce
qed simp

lemma run_active: "mixed_run go around k n s t \<Longrightarrow> inv s \<Longrightarrow> active s \<Longrightarrow> active t"
  by (induction rule: mixed_run.induct) (auto dest: run_bound go_active around_active)

lemma never_stuck:
  "mixed_run go around k n s t \<Longrightarrow> inv s \<Longrightarrow> active s \<Longrightarrow> \<not> goal t \<Longrightarrow> \<exists>u. go t u"
  using goal_or_go run_active run_bound by blast

end

end
