(* ===== verification/Go_Strings.thy ===== *)
theory Go_Strings
  imports Prelude
begin

section \<open>The string functions of the Go library that the server uses\<close>

text \<open>
  \<open>strings.Cut\<close>, \<open>Split\<close>, \<open>TrimSpace\<close>, \<open>TrimRight\<close>, \<open>TrimPrefix\<close>,
  \<open>HasSuffix\<close>, \<open>ContainsAny\<close>, \<open>ReplaceAll\<close> and \<open>ToUpper\<close>, on bytes, at the
  arguments the source calls them with (every separator it uses is one ASCII byte).  The lemmas
  are the laws the parsers rest on: splitting and cutting lose no byte and recover what was
  joined; trimming keeps strings without blanks at their ends.
\<close>

subsection \<open>Cut, Split, Join\<close>

text \<open>\<open>strings.Cut(s, sep)\<close>: the text before and after the first \<open>sep\<close>.\<close>

fun Cut :: "char \<Rightarrow> string \<Rightarrow> (string \<times> string) option" where
  "Cut c [] = None"
| "Cut c (x # xs) =
     (if x = c then Some ([], xs)
      else (case Cut c xs of None \<Rightarrow> None | Some (a, b) \<Rightarrow> Some (x # a, b)))"

text \<open>\<open>strings.Split(s, sep)\<close> and \<open>strings.SplitSeq(s, sep)\<close>: the parts between the
  separators, one part (possibly empty) more than there are separators.\<close>

fun Split :: "char \<Rightarrow> string \<Rightarrow> string list" where
  "Split c [] = [[]]"
| "Split c (x # xs) =
     (if x = c then [] # Split c xs
      else (case Split c xs of [] \<Rightarrow> [[x]] | p # ps \<Rightarrow> (x # p) # ps))"

text \<open>\<open>strings.Join(xs, sep)\<close>.\<close>

fun Join :: "char \<Rightarrow> string list \<Rightarrow> string" where
  "Join c [] = []"
| "Join c [x] = x"
| "Join c (x # y # ys) = x @ c # Join c (y # ys)"

lemma Split_not_Nil [simp]: "Split c s \<noteq> []"
  by (cases s) (auto split: list.splits)

lemma Cut_append [simp]: "c \<notin> set a \<Longrightarrow> Cut c (a @ c # b) = Some (a, b)"
  by (induction a) auto

lemma Cut_SomeD: "Cut c s = Some (a, b) \<Longrightarrow> s = a @ c # b \<and> c \<notin> set a"
  by (induction s arbitrary: a) (auto split: if_splits option.splits)

lemma Cut_Some_iff: "Cut c s = Some (a, b) \<longleftrightarrow> s = a @ c # b \<and> c \<notin> set a"
  by (auto dest: Cut_SomeD)

lemma Cut_None_iff: "Cut c s = None \<longleftrightarrow> c \<notin> set s"
  by (induction s) (auto split: option.splits)

lemma Join_Cons: "xs \<noteq> [] \<Longrightarrow> Join c (x # xs) = x @ c # Join c xs"
  by (cases xs) auto

lemma Join_Split: "Join c (Split c s) = s"
proof (induction s)
  case (Cons x xs)
  obtain p ps where "Split c xs = p # ps"
    by (cases "Split c xs") auto
  with Cons show ?case
    by (cases ps) (auto simp: Join_Cons)
qed simp

lemma Split_no_sep: "p \<in> set (Split c s) \<Longrightarrow> c \<notin> set p"
proof (induction s arbitrary: p)
  case (Cons x xs)
  obtain q qs where "Split c xs = q # qs"
    by (cases "Split c xs") auto
  with Cons show ?case by (auto split: if_splits)
qed simp

lemma Split_single [simp]: "c \<notin> set s \<Longrightarrow> Split c s = [s]"
  by (induction s) auto

lemma Split_append [simp]: "c \<notin> set a \<Longrightarrow> Split c (a @ c # s) = a # Split c s"
  by (induction a) auto

lemma Split_Join: "xs \<noteq> [] \<Longrightarrow> \<forall>x \<in> set xs. c \<notin> set x \<Longrightarrow> Split c (Join c xs) = xs"
  by (induction c xs rule: Join.induct) auto

lemma set_Split: "p \<in> set (Split c s) \<Longrightarrow> set p \<subseteq> set s"
proof (induction s arbitrary: p)
  case (Cons x xs)
  obtain q qs where "Split c xs = q # qs"
    by (cases "Split c xs") auto
  with Cons show ?case by (force split: if_splits)
qed simp

lemma length_Split: "length (Split c s) = Suc (count_list s c)"
proof (induction s)
  case (Cons x xs)
  then show ?case by (cases "Split c xs") auto
qed simp

text \<open>Lines each ended by a newline, as the server writes them: the split has one more, empty,
  part.\<close>

lemma Split_lines:
  "\<forall>x \<in> set xs. c \<notin> set x \<Longrightarrow> Split c (concat (map (\<lambda>x. x @ [c]) xs)) = xs @ [[]]"
  by (induction xs) auto

subsection \<open>White space\<close>

text \<open>
  \<open>unicode.IsSpace\<close> as UTF-8 byte sequences: the six ASCII blanks, U+0085, U+00A0, U+1680,
  U+2000 to U+200A, U+2028, U+2029, U+202F, U+205F and U+3000.  Each is a complete encoding, so
  a string starts (or ends) with such a rune exactly when it starts (or ends) with these bytes.
\<close>

definition spaceRunes :: "string list" where
  "spaceRunes =
    [[CHR 0x09], [CHR 0x0A], [CHR 0x0B], [CHR 0x0C], [CHR 0x0D], [CHR 0x20],
     [CHR 0xC2, CHR 0x85], [CHR 0xC2, CHR 0xA0], [CHR 0xE1, CHR 0x9A, CHR 0x80],
     [CHR 0xE2, CHR 0x80, CHR 0x80], [CHR 0xE2, CHR 0x80, CHR 0x81],
     [CHR 0xE2, CHR 0x80, CHR 0x82], [CHR 0xE2, CHR 0x80, CHR 0x83],
     [CHR 0xE2, CHR 0x80, CHR 0x84], [CHR 0xE2, CHR 0x80, CHR 0x85],
     [CHR 0xE2, CHR 0x80, CHR 0x86], [CHR 0xE2, CHR 0x80, CHR 0x87],
     [CHR 0xE2, CHR 0x80, CHR 0x88], [CHR 0xE2, CHR 0x80, CHR 0x89],
     [CHR 0xE2, CHR 0x80, CHR 0x8A], [CHR 0xE2, CHR 0x80, CHR 0xA8],
     [CHR 0xE2, CHR 0x80, CHR 0xA9], [CHR 0xE2, CHR 0x80, CHR 0xAF],
     [CHR 0xE2, CHR 0x81, CHR 0x9F], [CHR 0xE3, CHR 0x80, CHR 0x80]]"

text \<open>Remove runes of the list from the front for as long as there is one.\<close>

definition dropRune :: "string list \<Rightarrow> string \<Rightarrow> string option" where
  "dropRune rs s =
     (case find (\<lambda>r. r \<noteq> [] \<and> prefix r s) rs of
        None \<Rightarrow> None
      | Some r \<Rightarrow> Some (drop (length r) s))"

lemma dropRune_shorter: "dropRune rs s = Some t \<Longrightarrow> length t < length s"
  by (auto simp: dropRune_def find_Some_iff prefix_def split: option.splits)

function trimFront :: "string list \<Rightarrow> string \<Rightarrow> string" where
  "trimFront rs s = (case dropRune rs s of None \<Rightarrow> s | Some t \<Rightarrow> trimFront rs t)"
  by pat_completeness auto
termination
  by (relation "measure (\<lambda>(rs, s). length s)") (auto dest: dropRune_shorter)

declare trimFront.simps [simp del]

definition trimBack :: "string list \<Rightarrow> string \<Rightarrow> string" where
  "trimBack rs s = rev (trimFront (map rev rs) (rev s))"

text \<open>\<open>strings.TrimSpace\<close>.\<close>

definition TrimSpace :: "string \<Rightarrow> string" where
  "TrimSpace s = trimBack spaceRunes (trimFront spaceRunes s)"

lemma trimFront_suffix: "suffix (trimFront rs s) s"
proof (induction rs s rule: trimFront.induct)
  case (1 rs s)
  show ?case
  proof (cases "dropRune rs s")
    case (Some t)
    then have "suffix t s"
      by (auto simp: dropRune_def suffix_drop split: option.splits)
    moreover have "suffix (trimFront rs t) t"
      using 1 Some by simp
    ultimately show ?thesis
      using Some by (simp add: trimFront.simps [of rs s] suffix_order.trans)
  qed (simp add: trimFront.simps)
qed

lemma trimBack_prefix: "prefix (trimBack rs s) s"
  using trimFront_suffix [of "map rev rs" "rev s"]
  by (simp add: trimBack_def suffix_to_prefix)

lemma set_TrimSpace: "set (TrimSpace s) \<subseteq> set s"
proof -
  have "set (TrimSpace s) \<subseteq> set (trimFront spaceRunes s)"
    unfolding TrimSpace_def by (rule set_mono_prefix) (rule trimBack_prefix)
  also have "\<dots> \<subseteq> set s"
    by (rule set_mono_suffix) (rule trimFront_suffix)
  finally show ?thesis .
qed

lemma trimFront_stable: "dropRune rs (trimFront rs s) = None"
proof (induction rs s rule: trimFront.induct)
  case (1 rs s)
  then show ?case
    by (cases "dropRune rs s") (simp_all add: trimFront.simps [of rs s])
qed

lemma dropRune_None_iff: "dropRune rs s = None \<longleftrightarrow> (\<forall>r \<in> set rs. r = [] \<or> \<not> prefix r s)"
proof -
  have "dropRune rs s = None \<longleftrightarrow> find (\<lambda>r. r \<noteq> [] \<and> prefix r s) rs = None"
    by (simp add: dropRune_def split: option.split)
  then show ?thesis by (auto simp: find_None_iff)
qed

lemma trimFront_id: "dropRune rs s = None \<Longrightarrow> trimFront rs s = s"
  by (simp add: trimFront.simps)

text \<open>A string is trimmed when no blank rune stands at either end.\<close>

definition trimmed :: "string \<Rightarrow> bool" where
  "trimmed s \<longleftrightarrow> dropRune spaceRunes s = None \<and> dropRune (map rev spaceRunes) (rev s) = None"

lemma TrimSpace_id: "trimmed s \<Longrightarrow> TrimSpace s = s"
  by (simp add: trimmed_def TrimSpace_def trimBack_def trimFront_id)

lemma trimmed_TrimSpace: "trimmed (TrimSpace s)"
proof -
  let ?t = "trimFront spaceRunes s"
  have front: "dropRune spaceRunes ?t = None"
    by (rule trimFront_stable)
  have pre: "prefix (TrimSpace s) ?t"
    unfolding TrimSpace_def by (rule trimBack_prefix)
  have "dropRune spaceRunes (TrimSpace s) = None"
    using front pre prefix_order.trans unfolding dropRune_None_iff by blast
  moreover have "dropRune (map rev spaceRunes) (rev (TrimSpace s)) = None"
    unfolding TrimSpace_def trimBack_def by (simp add: trimFront_stable)
  ultimately show ?thesis by (simp add: trimmed_def)
qed

lemma TrimSpace_idem [simp]: "TrimSpace (TrimSpace s) = TrimSpace s"
  by (rule TrimSpace_id) (rule trimmed_TrimSpace)

lemma TrimSpace_Nil [simp]: "TrimSpace [] = []"
  using set_TrimSpace [of "[]"] by simp

text \<open>Printable ASCII bytes at both ends make a string trimmed.\<close>

lemma graphic_not_space: "graphic c \<Longrightarrow> r \<in> set spaceRunes \<Longrightarrow> \<not> prefix r (c # s)"
  by (auto simp: spaceRunes_def graphic_def)

lemma graphic_not_space_rev: "graphic c \<Longrightarrow> r \<in> set spaceRunes \<Longrightarrow> \<not> prefix (rev r) (c # s)"
  by (auto simp: spaceRunes_def graphic_def)

lemma trimmed_graphic:
  assumes "s = [] \<or> graphic (hd s) \<and> graphic (last s)"
  shows "trimmed s"
proof (cases "s = []")
  case True
  then show ?thesis by (auto simp: trimmed_def dropRune_None_iff)
next
  case False
  then obtain x xs y ys where s: "s = x # xs" and r: "rev s = y # ys"
    by (metis list.exhaust rev_is_Nil_conv)
  have "hd s = x" "last s = y"
    using s r by (simp, metis hd_rev list.sel(1))
  with assms False have "graphic x" "graphic y" by auto
  with s r show ?thesis
    by (auto simp: trimmed_def dropRune_None_iff graphic_not_space graphic_not_space_rev)
qed

text \<open>Trimmed text stays so behind text that starts and ends with printable bytes: no blank rune has one.\<close>

lemma trimmed_behind:
  assumes "a \<noteq> []" "graphic (hd a)" "graphic (last a)" "trimmed v"
  shows "trimmed (a @ v)"
proof -
  obtain x xs where front: "a = x # xs" using assms(1) by (cases a) auto
  obtain y ys where rear: "rev a = y # ys" using assms(1) by (cases "rev a") auto
  have y: "graphic y" using assms(1,3) rear by (metis hd_rev list.sel(1))
  have "\<not> prefix (rev r) (rev v @ y # ys)" if r: "r \<in> set spaceRunes" "r \<noteq> []" for r
  proof
    assume "prefix (rev r) (rev v @ y # ys)"
    then have "prefix (rev r) (rev v) \<or> (\<exists>zs. rev r = rev v @ zs \<and> prefix zs (y # ys))"
      by (simp add: prefix_append)
    moreover have "\<not> prefix (rev r) (rev v)"
      using assms(4) r by (auto simp: trimmed_def dropRune_None_iff)
    ultimately obtain zs where zs: "rev r = rev v @ zs" "prefix zs (y # ys)" "zs \<noteq> []" by auto
    then have "y \<in> set (rev r)" by (cases zs) auto
    then have "y \<in> set r" by simp
    moreover have "\<forall>r \<in> set spaceRunes. \<forall>c \<in> set r. \<not> graphic c" by (simp add: spaceRunes_def graphic_def)
    ultimately show False using y r(1) by blast
  qed
  then show ?thesis
    using assms(2) rear by (auto simp: trimmed_def dropRune_None_iff front graphic_not_space)
qed

text \<open>A field that starts and ends with a printable byte, or is empty, is \<^emph>\<open>tidy\<close>: what is joined
  from tidy fields with printable separators is tidy, and trimming does not touch it.\<close>

definition tidy :: "string \<Rightarrow> bool" where
  "tidy s \<longleftrightarrow> s = [] \<or> graphic (hd s) \<and> graphic (last s)"

lemma TrimSpace_tidy: "tidy s \<Longrightarrow> TrimSpace s = s"
  by (rule TrimSpace_id) (auto simp: tidy_def intro: trimmed_graphic)

lemma tidy_Nil [simp]: "tidy []"
  by (simp add: tidy_def)

lemma tidy_append: "tidy a \<Longrightarrow> tidy b \<Longrightarrow> tidy (a @ b)"
  by (auto simp: tidy_def last_append hd_append)

lemma tidy_sep: "tidy a \<Longrightarrow> tidy b \<Longrightarrow> a \<noteq> [] \<Longrightarrow> b \<noteq> [] \<Longrightarrow> tidy (a @ c # b)"
  by (auto simp: tidy_def)

lemma tidy_Cons: "graphic c \<Longrightarrow> tidy b \<Longrightarrow> tidy (c # b)"
  by (auto simp: tidy_def)

lemma tidy_all: "\<forall>c \<in> set s. graphic c \<Longrightarrow> tidy s"
  by (auto simp: tidy_def)

lemma tidy_Join: "\<forall>x \<in> set xs. tidy x \<and> x \<noteq> [] \<Longrightarrow> tidy (Join c xs) \<and> (xs \<noteq> [] \<longrightarrow> Join c xs \<noteq> [])"
  by (induction c xs rule: Join.induct) (auto intro: tidy_sep)

lemma tidy_last_not_CR: "tidy s \<Longrightarrow> s \<noteq> [] \<Longrightarrow> last s \<noteq> CR"
  by (auto simp: tidy_def graphic_def)

lemma dropRune_NL: "dropRune (map rev spaceRunes) (NL # s) = Some s"
  by (simp add: dropRune_def spaceRunes_def)

text \<open>A newline after tidy text is trimmed away.\<close>

lemma TrimSpace_snoc_NL:
  assumes "tidy s" "s \<noteq> []"
  shows "TrimSpace (s @ [NL]) = s"
proof -
  obtain x xs where x: "s = x # xs" using assms(2) by (cases s) auto
  have "graphic x" using assms x by (simp add: tidy_def)
  then have front: "trimFront spaceRunes (s @ [NL]) = s @ [NL]"
    using x by (intro trimFront_id) (auto simp: dropRune_None_iff graphic_not_space)
  have "dropRune (map rev spaceRunes) (rev s) = None"
    using assms trimmed_graphic [of s] by (auto simp: tidy_def trimmed_def)
  then have "trimFront (map rev spaceRunes) (NL # rev s) = rev s"
    by (subst trimFront.simps) (simp add: dropRune_NL trimFront_id)
  then show ?thesis by (simp add: TrimSpace_def trimBack_def front)
qed

text \<open>Lines as a device sends them, each ended by a newline, are recovered by trimming and
  splitting.\<close>

lemma concat_lines: "ls \<noteq> [] \<Longrightarrow> concat (map (\<lambda>l. l @ [c]) ls) = Join c ls @ [c]"
  by (induction c ls rule: Join.induct) auto

lemma Split_trimmed_lines:
  assumes "ls \<noteq> []" "\<forall>l \<in> set ls. tidy l \<and> l \<noteq> [] \<and> NL \<notin> set l"
  shows "Split NL (TrimSpace (concat (map (\<lambda>l. l @ [NL]) ls))) = ls"
  using assms tidy_Join [of ls NL]
  by (simp add: concat_lines TrimSpace_snoc_NL Split_Join)

subsection \<open>The other string functions\<close>

text \<open>\<open>strings.TrimRight(s, "\r")\<close>.\<close>

definition TrimRightCR :: "string \<Rightarrow> string" where
  "TrimRightCR s = rev (dropWhile (\<lambda>c. c = CR) (rev s))"

text \<open>\<open>strings.TrimPrefix(s, p)\<close>, \<open>strings.HasSuffix(s, p)\<close>.\<close>

definition TrimPrefix :: "string \<Rightarrow> string \<Rightarrow> string" where
  "TrimPrefix s p = (if prefix p s then drop (length p) s else s)"

definition HasSuffix :: "string \<Rightarrow> string \<Rightarrow> bool" where
  "HasSuffix s p \<longleftrightarrow> suffix p s"

text \<open>\<open>strings.ContainsAny(s, chars)\<close> for ASCII \<open>chars\<close>.\<close>

definition ContainsAny :: "string \<Rightarrow> string \<Rightarrow> bool" where
  "ContainsAny s chars \<longleftrightarrow> list_ex (\<lambda>c. c \<in> set chars) s"

text \<open>\<open>strings.ReplaceAll(s, old, new)\<close> for one-byte \<open>old\<close> and \<open>new\<close>.\<close>

definition ReplaceAll :: "string \<Rightarrow> char \<Rightarrow> char \<Rightarrow> string" where
  "ReplaceAll s old new = map (\<lambda>c. if c = old then new else c) s"

text \<open>
  \<open>strings.ToUpper\<close>, for comparing with ASCII labels: the ASCII letters, and the two other
  runes whose upper case is ASCII (U+0131, the dotless i, bytes C4 B1; U+017F, the long s, bytes
  C5 BF).  Every other rune maps to a rune outside ASCII, which no label holds, so the bytes are
  left as they are.
\<close>

definition upperByte :: "char \<Rightarrow> char" where
  "upperByte c =
     (let n = (of_char c :: int) in if 97 \<le> n \<and> n \<le> 122 then char_of (n - 32) else c)"

fun ToUpper :: "string \<Rightarrow> string" where
  "ToUpper [] = []"
| "ToUpper [c] = [upperByte c]"
| "ToUpper (c # d # s) =
     (if c = CHR 0xC4 \<and> d = CHR 0xB1 then CHR ''I'' # ToUpper s
      else if c = CHR 0xC5 \<and> d = CHR 0xBF then CHR ''S'' # ToUpper s
      else upperByte c # ToUpper (d # s))"

declare ToUpper.simps [simp del]

lemma TrimRightCR_id: "s = [] \<or> last s \<noteq> CR \<Longrightarrow> TrimRightCR s = s"
  by (auto simp: TrimRightCR_def dropWhile_id hd_rev)

lemma TrimRightCR_no_CR: "CR \<notin> set s \<Longrightarrow> TrimRightCR s = s"
  by (rule TrimRightCR_id) (metis last_in_set)

lemma TrimRightCR_snoc [simp]: "TrimRightCR (s @ [CR]) = TrimRightCR s"
  by (simp add: TrimRightCR_def)

lemma set_TrimRightCR: "set (TrimRightCR s) \<subseteq> set s"
  unfolding TrimRightCR_def by (metis set_dropWhileD set_rev subsetI)

lemma ContainsAny_iff: "ContainsAny s chars \<longleftrightarrow> set s \<inter> set chars \<noteq> {}"
  by (auto simp: ContainsAny_def list_ex_iff)

lemma length_ReplaceAll [simp]: "length (ReplaceAll s a b) = length s"
  by (simp add: ReplaceAll_def)

lemma ReplaceAll_append [simp]: "ReplaceAll (s @ t) a b = ReplaceAll s a b @ ReplaceAll t a b"
  by (simp add: ReplaceAll_def)

lemma ReplaceAll_Cons [simp]: "ReplaceAll (c # t) a b = (if c = a then b else c) # ReplaceAll t a b"
  by (simp add: ReplaceAll_def)

lemma ReplaceAll_Nil [simp]: "ReplaceAll [] a b = []"
  by (simp add: ReplaceAll_def)

lemma ReplaceAll_id: "a \<notin> set s \<Longrightarrow> ReplaceAll s a b = s"
  by (induction s) auto

subsection \<open>Codecs for lists of lines\<close>

text \<open>
  A codec whose printed values avoid the separator gives a codec for lists: join on one side,
  split on the other.
\<close>

locale line_codec = codec enc dec ok
  for enc :: "'a \<Rightarrow> string" and dec :: "string \<Rightarrow> 'a option" and ok :: "'a \<Rightarrow> bool" +
  fixes sep :: char
  assumes sep_free: "ok x \<Longrightarrow> sep \<notin> set (enc x)"
begin

lemma split_join_enc:
  assumes "xs \<noteq> []" "\<forall>x \<in> set xs. ok x"
  shows "map dec (Split sep (Join sep (map enc xs))) = map Some xs"
  using assms by (simp add: Split_Join sep_free dec_enc_all flip: map_map)

lemma split_lines_enc:
  assumes "\<forall>x \<in> set xs. ok x"
  shows "map dec (butlast (Split sep (concat (map (\<lambda>x. enc x @ [sep]) xs)))) = map Some xs"
proof -
  have "Split sep (concat (map (\<lambda>x. x @ [sep]) (map enc xs))) = map enc xs @ [[]]"
    using assms by (intro Split_lines) (auto simp: sep_free)
  then have "Split sep (concat (map (\<lambda>x. enc x @ [sep]) xs)) = map enc xs @ [[]]"
    by (simp add: comp_def)
  then show ?thesis using assms by (simp add: dec_enc_all flip: map_map)
qed

end

end
