(* ===== verification/Go_Numbers.thy ===== *)
theory Go_Numbers
  imports Go_Strings
begin

section \<open>Integers as text: \<open>strconv\<close> and \<open>%d\<close>\<close>

text \<open>
  \<open>strconv.ParseInt(s, 10, 64)\<close> and \<open>strconv.Atoi(s)\<close> with their two kinds of error, and
  the decimal printing of \<open>fmt.Sprintf("%d", i)\<close>.  \<open>int\<close> and \<open>int64\<close> are 64 bits wide;
  a parsed value is an \<^typ>\<open>int\<close> that lies in that range (\<open>ParseInt_range\<close>).  As in Go, an
  out-of-range text still yields a value, the nearest bound, beside the error.
\<close>

datatype num_error = ErrSyntax | ErrRange

definition maxUint64 :: int where "maxUint64 = 18446744073709551615"
definition maxInt64 :: int where "maxInt64 = 9223372036854775807"
definition minInt64 :: int where "minInt64 = -9223372036854775808"

definition is_int64 :: "int \<Rightarrow> bool" where
  "is_int64 i \<longleftrightarrow> minInt64 \<le> i \<and> i \<le> maxInt64"

subsection \<open>Digits\<close>

definition isDigit :: "char \<Rightarrow> bool" where
  "isDigit c \<longleftrightarrow> 48 \<le> (of_char c :: int) \<and> (of_char c :: int) \<le> 57"

definition digitVal :: "char \<Rightarrow> int" where
  "digitVal c = of_char c - 48"

definition digitChar :: "int \<Rightarrow> char" where
  "digitChar d = char_of (48 + d)"

function utoa :: "int \<Rightarrow> string" where
  "utoa n = (if n < 10 then [digitChar n] else utoa (n div 10) @ [digitChar (n mod 10)])"
  by pat_completeness auto
termination
  by (relation "measure nat") auto

declare utoa.simps [simp del]

text \<open>\<open>fmt.Sprintf("%d", i)\<close>.\<close>

definition itoa :: "int \<Rightarrow> string" where
  "itoa i = (if i < 0 then CHR ''-'' # utoa (- i) else utoa i)"

subsection \<open>Parsing\<close>

text \<open>The loop of \<open>strconv.ParseUint\<close>: a byte that is no digit is a syntax error; the first
  digit that takes the value over the maximum stops the loop with a range error.\<close>

fun parseUintLoop :: "int \<Rightarrow> string \<Rightarrow> int \<times> num_error option" where
  "parseUintLoop n [] = (n, None)"
| "parseUintLoop n (c # cs) =
     (if \<not> isDigit c then (0, Some ErrSyntax)
      else let n1 = n * 10 + digitVal c in
        if maxUint64 < n1 then (maxUint64, Some ErrRange) else parseUintLoop n1 cs)"

definition parseUint :: "string \<Rightarrow> int \<times> num_error option" where
  "parseUint s = (if s = [] then (0, Some ErrSyntax) else parseUintLoop 0 s)"

definition ParseInt :: "string \<Rightarrow> int \<times> num_error option" where
  "ParseInt s =
     (if s = [] then (0, Some ErrSyntax)
      else
        let neg = (hd s = CHR ''-'');
            body = (if hd s = CHR ''+'' \<or> hd s = CHR ''-'' then tl s else s);
            (un, err) = parseUint body
        in if err = Some ErrSyntax then (0, Some ErrSyntax)
           else if \<not> neg \<and> maxInt64 < un then (maxInt64, Some ErrRange)
           else if neg \<and> un > - minInt64 then (minInt64, Some ErrRange)
           else (if neg then - un else un, None))"

text \<open>\<open>strconv.Atoi\<close> agrees with \<open>ParseInt\<close> where \<open>int\<close> is 64 bits wide.\<close>

definition Atoi :: "string \<Rightarrow> int \<times> num_error option" where
  "Atoi s = ParseInt s"

text \<open>The value of a text that parses without error.\<close>

definition intOf :: "string \<Rightarrow> int option" where
  "intOf s = (case ParseInt s of (v, None) \<Rightarrow> Some v | (_, Some _) \<Rightarrow> None)"

subsection \<open>Laws\<close>

lemma of_char_digitChar: "0 \<le> d \<Longrightarrow> d < 10 \<Longrightarrow> (of_char (digitChar d) :: int) = 48 + d"
  by (simp add: digitChar_def)

lemma isDigit_digitChar [simp]: "0 \<le> d \<Longrightarrow> d < 10 \<Longrightarrow> isDigit (digitChar d)"
  by (simp add: isDigit_def of_char_digitChar)

lemma digitVal_digitChar [simp]: "0 \<le> d \<Longrightarrow> d < 10 \<Longrightarrow> digitVal (digitChar d) = d"
  by (simp add: digitVal_def of_char_digitChar)

lemma digitVal_range: "isDigit c \<Longrightarrow> 0 \<le> digitVal c \<and> digitVal c \<le> 9"
  by (simp add: digitVal_def isDigit_def)

lemma of_char_int: "(of_char c :: int) = int (of_char c)"
  by (simp only: of_nat_of_char)

lemma isDigit_graphic: "isDigit c \<Longrightarrow> graphic c"
  unfolding isDigit_def graphic_def of_char_int by linarith

lemma utoa_not_Nil [simp]: "utoa n \<noteq> []"
  by (subst utoa.simps) simp

lemma utoa_digits: "0 \<le> n \<Longrightarrow> \<forall>c \<in> set (utoa n). isDigit c"
proof (induction n rule: utoa.induct)
  case (1 n)
  then show ?case
    by (subst utoa.simps) auto
qed

lemma parseUintLoop_append:
  "parseUintLoop n xs = (m, None) \<Longrightarrow> parseUintLoop n (xs @ ys) = parseUintLoop m ys"
  by (induction n xs rule: parseUintLoop.induct) (auto simp: Let_def split: if_splits)

lemma parseUintLoop_utoa: "0 \<le> n \<Longrightarrow> n \<le> maxUint64 \<Longrightarrow> parseUintLoop 0 (utoa n) = (n, None)"
proof (induction n rule: utoa.induct)
  case (1 n)
  show ?case
  proof (cases "n < 10")
    case True
    with "1.prems" show ?thesis
      by (subst utoa.simps) (simp add: maxUint64_def)
  next
    case False
    with 1 have "parseUintLoop 0 (utoa (n div 10)) = (n div 10, None)"
      by (simp add: maxUint64_def)
    then have "parseUintLoop 0 (utoa (n div 10) @ [digitChar (n mod 10)])
        = parseUintLoop (n div 10) [digitChar (n mod 10)]"
      by (rule parseUintLoop_append)
    also have "\<dots> = (n, None)"
      using "1.prems" by (simp add: Let_def)
    finally show ?thesis
      using False by (subst utoa.simps) simp
  qed
qed

lemma parseUintLoop_range:
  "parseUintLoop n s = (m, e) \<Longrightarrow> 0 \<le> n \<Longrightarrow> n \<le> maxUint64 \<Longrightarrow> 0 \<le> m \<and> m \<le> maxUint64"
proof (induction n s arbitrary: m e rule: parseUintLoop.induct)
  case (2 n c cs)
  then show ?case
    using digitVal_range [of c] by (auto simp: Let_def maxUint64_def split: if_splits)
qed auto

lemma parseUint_range: "parseUint s = (m, e) \<Longrightarrow> 0 \<le> m"
  using parseUintLoop_range [of 0 s m e] by (auto simp: parseUint_def maxUint64_def split: if_splits)

lemma hd_utoa_digit: "0 \<le> n \<Longrightarrow> isDigit (hd (utoa n))"
  using utoa_digits [of n] by (meson hd_in_set utoa_not_Nil)

lemma isDigit_not_sign: "isDigit c \<Longrightarrow> c \<noteq> CHR ''+'' \<and> c \<noteq> CHR ''-''"
  by (auto simp: isDigit_def)

text \<open>Whatever the text, the value \<open>ParseInt\<close> returns fits in 64 bits.\<close>

lemma ParseInt_range:
  assumes "ParseInt s = (v, e)"
  shows "is_int64 v"
proof -
  let ?body = "if hd s = CHR ''+'' \<or> hd s = CHR ''-'' then tl s else s"
  obtain un err where un: "parseUint ?body = (un, err)"
    by (cases "parseUint ?body")
  then have "0 \<le> un" by (rule parseUint_range)
  with assms un show ?thesis
    by (auto simp: ParseInt_def is_int64_def maxInt64_def minInt64_def Let_def split: if_splits)
qed

lemma ParseInt_itoa:
  assumes "is_int64 i"
  shows "ParseInt (itoa i) = (i, None)"
proof (cases "i < 0")
  case True
  with assms have "parseUint (utoa (- i)) = (- i, None)"
    by (simp add: parseUint_def parseUintLoop_utoa is_int64_def minInt64_def maxInt64_def maxUint64_def)
  with True assms show ?thesis
    by (simp add: ParseInt_def itoa_def Let_def is_int64_def minInt64_def maxInt64_def)
next
  case False
  with assms have "parseUint (utoa i) = (i, None)"
    by (simp add: parseUint_def parseUintLoop_utoa is_int64_def minInt64_def maxInt64_def maxUint64_def)
  with False assms show ?thesis
    using isDigit_not_sign [OF hd_utoa_digit [of i]]
    by (simp add: ParseInt_def itoa_def Let_def is_int64_def minInt64_def maxInt64_def)
qed

lemma itoa_not_Nil [simp]: "itoa i \<noteq> []"
  by (simp add: itoa_def)

lemma set_itoa: "c \<in> set (itoa i) \<Longrightarrow> isDigit c \<or> c = CHR ''-''"
  using utoa_digits [of i] utoa_digits [of "- i"] by (auto simp: itoa_def split: if_splits)

lemma itoa_graphic: "c \<in> set (itoa i) \<Longrightarrow> graphic c"
  using set_itoa [of c i] isDigit_graphic by (auto simp: graphic_def)

lemma itoa_avoids: "\<not> isDigit c \<Longrightarrow> c \<noteq> CHR ''-'' \<Longrightarrow> c \<notin> set (itoa i)"
  using set_itoa by blast

lemma trimmed_itoa: "trimmed (itoa i)"
  by (rule trimmed_graphic) (metis hd_in_set itoa_graphic itoa_not_Nil last_in_set)

interpretation int_codec: codec itoa intOf is_int64
  by unfold_locales (simp add: intOf_def ParseInt_itoa)

end
