(* ===== verification/Go_Time.thy ===== *)
theory Go_Time
  imports Go_Numbers
begin

section \<open>Instants, locations, and the timestamp layout of the devices\<close>

text \<open>
  The part of Go's \<open>time\<close> package the server uses.  A \<open>time.Time\<close> is the number of seconds
  since the start of year 1 as a 64-bit word (the package's own representation, where addition
  wraps), the nanoseconds, and a location.  A \<open>*time.Location\<close> is its name and its lookup
  function: for a Unix second, the offset in force and the half-open interval of Unix seconds over
  which it is in force.  The zone data itself is not part of the repository, so a location is an
  input.  Clock readings and durations are integers in nanoseconds; \<open>Sub\<close> saturates at the
  bounds of \<open>time.Duration\<close> as in Go.
\<close>

record location =
  loc_name :: string
  loc_lookup :: "int \<Rightarrow> int \<times> int \<times> int"

definition UTC :: location where
  "UTC = \<lparr>loc_name = ''UTC'', loc_lookup = (\<lambda>_. (0, minInt64, maxInt64))\<rparr>"

text \<open>A fixed-offset zone, as \<open>time.FixedZone(name, offset)\<close> makes.\<close>

definition FixedZone :: "string \<Rightarrow> int \<Rightarrow> location" where
  "FixedZone name off = \<lparr>loc_name = name, loc_lookup = (\<lambda>_. (off, minInt64, maxInt64))\<rparr>"

record gotime =
  gt_sec :: "64 word"
  gt_nsec :: int
  gt_loc :: location

text \<open>Seconds from 0001-01-01 to 1970-01-01.\<close>

definition unixToInternal :: int where "unixToInternal = 62135596800"

text \<open>\<open>unixTime(sec, nsec)\<close> in a location; \<open>time.Unix(sec, 0)\<close> is this in \<open>time.Local\<close>.\<close>

definition unixTime :: "location \<Rightarrow> int \<Rightarrow> int \<Rightarrow> gotime" where
  "unixTime l sec ns =
     \<lparr>gt_sec = word_of_int sec + word_of_int unixToInternal, gt_nsec = ns, gt_loc = l\<rparr>"

text \<open>\<open>t.Unix()\<close>.\<close>

definition Unix :: "gotime \<Rightarrow> int" where
  "Unix t = sint (gt_sec t - word_of_int unixToInternal)"

lemma Unix_unixTime: "is_int64 sec \<Longrightarrow> Unix (unixTime l sec ns) = sec"
  by (simp add: Unix_def unixTime_def signed_of_int is_int64_def minInt64_def maxInt64_def
      signed_take_bit_int_eq_self)

subsection \<open>Durations\<close>

text \<open>\<open>t.Sub(u)\<close> on two readings of the clock.\<close>

definition Sub :: "int \<Rightarrow> int \<Rightarrow> int" where
  "Sub t u = max minInt64 (min maxInt64 (t - u))"

lemma Sub_mono: "t \<le> t' \<Longrightarrow> Sub t u \<le> Sub t' u"
  by (auto simp: Sub_def)

lemma Sub_self [simp]: "Sub t t = 0"
  by (simp add: Sub_def minInt64_def maxInt64_def)

lemma Sub_le_iff: "is_int64 d \<Longrightarrow> d < maxInt64 \<Longrightarrow> Sub t u \<le> d \<longleftrightarrow> t - u \<le> d"
  by (auto simp: Sub_def is_int64_def minInt64_def maxInt64_def)

subsection \<open>The calendar\<close>

definition isLeap :: "int \<Rightarrow> bool" where
  "isLeap y \<longleftrightarrow> y mod 4 = 0 \<and> (y mod 100 \<noteq> 0 \<or> y mod 400 = 0)"

text \<open>\<open>daysBefore[m - 1]\<close> of the package: the days of a non-leap year before month \<open>m\<close>.\<close>

definition daysBefore :: "int \<Rightarrow> int" where
  "daysBefore m = (if m < 1 \<or> 12 < m then 0
     else [0, 31, 59, 90, 120, 151, 181, 212, 243, 273, 304, 334] ! nat (m - 1))"

definition daysIn :: "int \<Rightarrow> int \<Rightarrow> int" where
  "daysIn m y =
     (if m = 2 then (if isLeap y then 29 else 28)
      else if m = 4 \<or> m = 6 \<or> m = 9 \<or> m = 11 then 30 else 31)"

text \<open>Days from 1970-01-01 to a date of the proleptic Gregorian calendar.\<close>

definition civilDays :: "int \<Rightarrow> int \<Rightarrow> int \<Rightarrow> int" where
  "civilDays y m d =
     365 * (y - 1) + (y - 1) div 4 - (y - 1) div 100 + (y - 1) div 400
     + daysBefore m + (if isLeap y \<and> 2 < m then 1 else 0) + d - 1 - 719162"

record stamp =
  st_year :: int
  st_month :: int
  st_day :: int
  st_hour :: int
  st_min :: int
  st_sec :: int
  st_nsec :: int

definition wallSeconds :: "stamp \<Rightarrow> int" where
  "wallSeconds t =
     civilDays (st_year t) (st_month t) (st_day t) * 86400
     + st_hour t * 3600 + st_min t * 60 + st_sec t"

text \<open>\<open>time.Date(..., loc)\<close>: the offset at the wall-clock reading taken as if it were UTC, looked up
  again when that instant falls outside the interval the offset is valid for.\<close>

definition dateUnix :: "location \<Rightarrow> int \<Rightarrow> int" where
  "dateUnix l unix =
     (case loc_lookup l unix of (off, start, end_) \<Rightarrow>
        if off = 0 then unix
        else let utc = unix - off;
                 off' = (if utc < start \<or> end_ \<le> utc then fst (loc_lookup l utc) else off)
             in unix - off')"

definition Date :: "location \<Rightarrow> stamp \<Rightarrow> gotime" where
  "Date l t = unixTime l (dateUnix l (wallSeconds t)) (st_nsec t)"

subsection \<open>\<open>time.ParseInLocation("2006-01-02 15:04:05", s, loc)\<close>\<close>

text \<open>
  The layout's chunks in order, each consuming its part of the text.  The source's rules: the year is four
  digits, month, day, minute and second two, the hour one or two; one or more blanks separate
  date and time; a fraction of a second may follow; nothing else may.
\<close>

definition digitAt :: "string \<Rightarrow> nat \<Rightarrow> bool" where
  "digitAt s i \<longleftrightarrow> i < length s \<and> isDigit (s ! i)"

definition digitsVal :: "string \<Rightarrow> int" where
  "digitsVal s = foldl (\<lambda>n c. n * 10 + digitVal c) 0 s"

text \<open>\<open>getnum(s, fixed)\<close>.\<close>

definition getnum :: "string \<Rightarrow> bool \<Rightarrow> (int \<times> string) option" where
  "getnum s fixed =
     (if \<not> digitAt s 0 then None
      else if \<not> digitAt s 1 then (if fixed then None else Some (digitVal (s ! 0), drop 1 s))
      else Some (digitsVal (take 2 s), drop 2 s))"

text \<open>The year: four bytes, read as a number without sign.\<close>

definition getyear :: "string \<Rightarrow> (int \<times> string) option" where
  "getyear s =
     (if length s < 4 \<or> \<not> list_all isDigit (take 4 s) then None
      else Some (digitsVal (take 4 s), drop 4 s))"

text \<open>\<open>skip(value, prefix)\<close> for a prefix of one byte that is not a blank, and for one blank.\<close>

definition skipByte :: "char \<Rightarrow> string \<Rightarrow> string option" where
  "skipByte c s = (case s of [] \<Rightarrow> None | x # xs \<Rightarrow> if x = c then Some xs else None)"

definition skipBlank :: "string \<Rightarrow> string option" where
  "skipBlank s =
     (if s \<noteq> [] \<and> hd s \<noteq> CHR '' '' then None else Some (dropWhile (\<lambda>c. c = CHR '' '') s))"

text \<open>An optional fraction: a comma or period and at least one digit.  Nine digits count; the
  others are skipped.\<close>

definition fraction :: "string \<Rightarrow> int \<times> string" where
  "fraction s =
     (if 2 \<le> length s \<and> (hd s = CHR ''.'' \<or> hd s = CHR '','') \<and> digitAt s 1 then
        let ds = takeWhile isDigit (tl s); used = take 9 ds
        in (digitsVal used * 10 ^ (9 - length used), drop (length ds) (tl s))
      else (0, s))"

definition parseStamp :: "string \<Rightarrow> stamp option" where
  "parseStamp s0 =
     Option.bind (getyear s0) (\<lambda>(year, s).
     Option.bind (skipByte CHR ''-'' s) (\<lambda>s.
     Option.bind (getnum s True) (\<lambda>(month, s).
     if month < 1 \<or> 12 < month then None else
     Option.bind (skipByte CHR ''-'' s) (\<lambda>s.
     Option.bind (getnum s True) (\<lambda>(day, s).
     Option.bind (skipBlank s) (\<lambda>s.
     Option.bind (getnum s False) (\<lambda>(hour, s).
     if 24 \<le> hour then None else
     Option.bind (skipByte CHR '':'' s) (\<lambda>s.
     Option.bind (getnum s True) (\<lambda>(minute, s).
     if 60 \<le> minute then None else
     Option.bind (skipByte CHR '':'' s) (\<lambda>s.
     Option.bind (getnum s True) (\<lambda>(sec, s).
     if 60 \<le> sec then None else
     (case fraction s of (nsec, rest) \<Rightarrow>
        if rest \<noteq> [] then None
        else if day < 1 \<or> daysIn month year < day then None
        else Some \<lparr>st_year = year, st_month = month, st_day = day, st_hour = hour,
                   st_min = minute, st_sec = sec, st_nsec = nsec\<rparr>))))))))))))"

definition ParseInLocation :: "string \<Rightarrow> location \<Rightarrow> gotime option" where
  "ParseInLocation s l = map_option (Date l) (parseStamp s)"

subsection \<open>\<open>Format("2006-01-02 15:04:05")\<close>\<close>

definition padLeft :: "nat \<Rightarrow> string \<Rightarrow> string" where
  "padLeft w s = replicate (w - length s) CHR ''0'' @ s"

definition formatStamp :: "stamp \<Rightarrow> string" where
  "formatStamp t =
     padLeft 4 (utoa (st_year t)) @ ''-'' @ padLeft 2 (utoa (st_month t)) @ ''-''
     @ padLeft 2 (utoa (st_day t)) @ '' '' @ padLeft 2 (utoa (st_hour t)) @ '':''
     @ padLeft 2 (utoa (st_min t)) @ '':'' @ padLeft 2 (utoa (st_sec t))"

text \<open>The stamps the layout can carry: a date of the calendar, a time of day, whole seconds.\<close>

definition valid_stamp :: "stamp \<Rightarrow> bool" where
  "valid_stamp t \<longleftrightarrow>
     0 \<le> st_year t \<and> st_year t \<le> 9999 \<and> 1 \<le> st_month t \<and> st_month t \<le> 12
     \<and> 1 \<le> st_day t \<and> st_day t \<le> daysIn (st_month t) (st_year t)
     \<and> 0 \<le> st_hour t \<and> st_hour t < 24 \<and> 0 \<le> st_min t \<and> st_min t < 60
     \<and> 0 \<le> st_sec t \<and> st_sec t < 60 \<and> st_nsec t = 0"

lemma daysIn_le: "daysIn m y \<le> 31"
  by (simp add: daysIn_def)

text \<open>Two and four digits are printed as such and read back.\<close>

lemma utoa_1: "n < 10 \<Longrightarrow> utoa n = [digitChar n]"
  by (subst utoa.simps) simp

lemma utoa_2: "10 \<le> n \<Longrightarrow> n < 100 \<Longrightarrow> utoa n = [digitChar (n div 10), digitChar (n mod 10)]"
  by (subst utoa.simps) (simp add: utoa_1)

lemma div_twice: "n div 10 div 10 = n div (100::int)" "n div 100 div 10 = n div (1000::int)"
  "n div 10 div 100 = n div (1000::int)"
  by (simp_all flip: zdiv_zmult2_eq)

lemma utoa_3: "100 \<le> n \<Longrightarrow> n < 1000 \<Longrightarrow>
    utoa n = [digitChar (n div 100), digitChar (n div 10 mod 10), digitChar (n mod 10)]"
  by (subst utoa.simps) (simp add: utoa_2 div_twice)

lemma utoa_4: "1000 \<le> n \<Longrightarrow> n < 10000 \<Longrightarrow>
    utoa n = [digitChar (n div 1000), digitChar (n div 100 mod 10), digitChar (n div 10 mod 10),
              digitChar (n mod 10)]"
  by (subst utoa.simps) (simp add: utoa_3 div_twice)

lemma digitChar_0: "digitChar 0 = CHR ''0''"
  by code_simp

lemma replicate_2_3: "replicate 2 x = [x, x]" "replicate 3 x = [x, x, x]"
  by (simp_all add: numeral_eq_Suc)

lemma small_div:
  "0 \<le> n \<Longrightarrow> n < 10 \<Longrightarrow> n div 10 = (0::int)"
  "0 \<le> n \<Longrightarrow> n < 100 \<Longrightarrow> n div 100 = (0::int)"
  "0 \<le> n \<Longrightarrow> n < 1000 \<Longrightarrow> n div 1000 = (0::int)"
  by simp_all

lemma pad2:
  "0 \<le> n \<Longrightarrow> n < 100 \<Longrightarrow> padLeft 2 (utoa n) = [digitChar (n div 10), digitChar (n mod 10)]"
  by (cases "n < 10") (auto simp: padLeft_def utoa_1 utoa_2 digitChar_0)

lemma pad4:
  assumes "0 \<le> n" "n < 10000"
  shows "padLeft 4 (utoa n)
    = [digitChar (n div 1000), digitChar (n div 100 mod 10), digitChar (n div 10 mod 10),
       digitChar (n mod 10)]"
proof -
  consider "n < 10" | "10 \<le> n" "n < 100" | "100 \<le> n" "n < 1000" | "1000 \<le> n" "n < 10000"
    using assms by linarith
  then show ?thesis
    using assms(1)
    by cases (simp_all add: padLeft_def utoa_1 utoa_2 utoa_3 utoa_4 digitChar_0 replicate_2_3)
qed

lemma getnum_digits:
  "0 \<le> a \<Longrightarrow> a < 10 \<Longrightarrow> 0 \<le> b \<Longrightarrow> b < 10 \<Longrightarrow>
    getnum (digitChar a # digitChar b # s) fixed = Some (a * 10 + b, s)"
  by (simp add: getnum_def digitAt_def digitsVal_def numeral_2_eq_2)

lemma getyear_digits:
  "0 \<le> a \<Longrightarrow> a < 10 \<Longrightarrow> 0 \<le> b \<Longrightarrow> b < 10 \<Longrightarrow> 0 \<le> c \<Longrightarrow> c < 10 \<Longrightarrow> 0 \<le> d \<Longrightarrow> d < 10 \<Longrightarrow>
    getyear (digitChar a # digitChar b # digitChar c # digitChar d # s)
      = Some (((a * 10 + b) * 10 + c) * 10 + d, s)"
  by (simp add: getyear_def digitsVal_def numeral_eq_Suc)

lemma div_10_range: "0 \<le> n \<Longrightarrow> n < 100 \<Longrightarrow> 0 \<le> n div 10 \<and> n div 10 < (10::int)"
  by presburger

lemma getnum_pad2:
  assumes "0 \<le> n" "n < 100"
  shows "getnum (padLeft 2 (utoa n) @ s) b = Some (n, s)"
proof -
  have "getnum (padLeft 2 (utoa n) @ s) b = Some (n div 10 * 10 + n mod 10, s)"
    unfolding pad2 [OF assms] append.simps
    by (rule getnum_digits) (use div_10_range [OF assms] in simp_all)
  then show ?thesis by simp
qed

lemma decimal_4: "((n div 1000 * 10 + n div 100 mod 10) * 10 + n div 10 mod 10) * 10 + n mod 10 = (n::int)"
  unfolding div_twice(1,2) [symmetric] by (metis div_mult_mod_eq)

lemma getyear_pad4:
  assumes "0 \<le> n" "n < 10000"
  shows "getyear (padLeft 4 (utoa n) @ s) = Some (n, s)"
proof -
  have "0 \<le> n div 1000" "n div 1000 < 10" using assms by simp_all
  then have "getyear (padLeft 4 (utoa n) @ s)
      = Some (((n div 1000 * 10 + n div 100 mod 10) * 10 + n div 10 mod 10) * 10 + n mod 10, s)"
    unfolding pad4 [OF assms] append.simps by (intro getyear_digits) simp_all
  then show ?thesis by (simp only: decimal_4)
qed

lemma skipByte_Cons [simp]: "skipByte c (c # s) = Some s"
  by (simp add: skipByte_def)

lemma skipBlank_Cons:
  assumes "0 \<le> n" "n < 100"
  shows "skipBlank (CHR '' '' # padLeft 2 (utoa n) @ s) = Some (padLeft 2 (utoa n) @ s)"
proof -
  have "isDigit (digitChar (n div 10))" using div_10_range [OF assms] by simp
  then have "digitChar (n div 10) \<noteq> CHR '' ''" by (auto simp: isDigit_def)
  then show ?thesis by (simp add: skipBlank_def pad2 [OF assms])
qed

lemma parseStamp_formatStamp:
  assumes "valid_stamp t"
  shows "parseStamp (formatStamp t) = Some t"
proof -
  have b: "0 \<le> st_year t" "st_year t < 10000" "0 \<le> st_month t" "st_month t < 100"
      "0 \<le> st_day t" "st_day t < 100" "0 \<le> st_hour t" "st_hour t < 100"
      "0 \<le> st_min t" "st_min t < 100" "0 \<le> st_sec t" "st_sec t < 100"
    using assms daysIn_le [of "st_month t" "st_year t"] by (auto simp: valid_stamp_def)
  have last: "getnum (padLeft 2 (utoa (st_sec t))) True = Some (st_sec t, [])"
    using getnum_pad2 [of "st_sec t" "[]" True] b by simp
  show ?thesis
    using assms b unfolding parseStamp_def formatStamp_def
    by (simp add: getyear_pad4 getnum_pad2 skipBlank_Cons last fraction_def valid_stamp_def)
qed

interpretation stamp_codec: codec formatStamp parseStamp valid_stamp
  by unfold_locales (rule parseStamp_formatStamp)

end
