(* ===== verification/Adms_Types.thy ===== *)
theory Adms_Types
  imports Go_Time
begin

section \<open>Data of the server (\<open>types.go\<close>)\<close>

text \<open>
  The constants, sentinel errors and structs of \<open>types.go\<close>.  Structs are records with the
  source's field names; where two structs share a field name, one carries a short prefix
  (\<open>ar_SerialNumber\<close> of \<open>AttendanceRecord\<close>, \<open>ce_ID\<close> of \<open>CommandEntry\<close>).  A command ID
  (\<open>int64\<close>) is a \<^typ>\<open>64 word\<close>, read with \<^const>\<open>sint\<close>.  A \<open>map[string]string\<close> is a finite
  map, a \<open>*time.Location\<close> that may be nil an option.
\<close>

subsection \<open>Constants\<close>

definition defaultMaxBodySize :: int where "defaultMaxBodySize = 10 * 2 ^ 20"
definition defaultCallbackBufferSize :: int where "defaultCallbackBufferSize = 256"

text \<open>Durations are in nanoseconds.\<close>

definition second :: int where "second = 1000000000"
definition defaultOnlineThreshold :: int where "defaultOnlineThreshold = 2 * 60 * second"
definition defaultDispatchTimeout :: int where "defaultDispatchTimeout = second"
definition defaultMaxDevices :: int where "defaultMaxDevices = 1000"
definition defaultDeviceEvictionInterval :: int where
  "defaultDeviceEvictionInterval = 5 * 60 * second"
definition defaultDeviceEvictionTimeout :: int where
  "defaultDeviceEvictionTimeout = 24 * 3600 * second"

definition maxSerialNumberLength :: nat where "maxSerialNumberLength = 64"
definition maxBodyPreviewLen :: nat where "maxBodyPreviewLen = 200"

definition routeCData :: string where "routeCData = ''/iclock/cdata''"
definition routeGetRequest :: string where "routeGetRequest = ''/iclock/getrequest''"
definition routeDeviceCmd :: string where "routeDeviceCmd = ''/iclock/devicecmd''"
definition routeRegistry :: string where "routeRegistry = ''/iclock/registry''"
definition routeInspect :: string where "routeInspect = ''/iclock/inspect''"

definition tableATTLOG :: string where "tableATTLOG = ''ATTLOG''"
definition tableOPERLOG :: string where "tableOPERLOG = ''OPERLOG''"
definition tableUSERINFO :: string where "tableUSERINFO = ''USERINFO''"

definition attFieldUserID :: nat where "attFieldUserID = 0"
definition attFieldTimestamp :: nat where "attFieldTimestamp = 1"
definition attFieldStatus :: nat where "attFieldStatus = 2"
definition attFieldVerifyMode :: nat where "attFieldVerifyMode = 3"
definition attFieldWorkCode :: nat where "attFieldWorkCode = 4"
definition attMinFields :: nat where "attMinFields = 2"

lemmas att_defs = attFieldUserID_def attFieldTimestamp_def attFieldStatus_def
  attFieldVerifyMode_def attFieldWorkCode_def attMinFields_def

definition paramSN :: string where "paramSN = ''SN''"
definition paramTable :: string where "paramTable = ''table''"

definition respOK :: string where "respOK = ''OK''"
definition respMethodNotAllowed :: string where "respMethodNotAllowed = ''Method not allowed''"
definition respMissingSN :: string where "respMissingSN = ''Missing SN parameter''"
definition respInvalidSN :: string where "respInvalidSN = ''Invalid SN parameter''"
definition respDeviceLimitMsg :: string where "respDeviceLimitMsg = ''Device limit reached''"

subsection \<open>Verify modes\<close>

definition VerifyModePassword :: int where "VerifyModePassword = 0"
definition VerifyModeFingerprint :: int where "VerifyModeFingerprint = 1"
definition VerifyModeCard :: int where "VerifyModeCard = 4"
definition VerifyModeFace :: int where "VerifyModeFace = 15"
definition VerifyModePalm :: int where "VerifyModePalm = 25"

definition verifyModeNames :: "(int, string) fmap" where
  "verifyModeNames = fmap_of_list
    [(0, ''Password''), (1, ''Fingerprint''), (2, ''Card''), (3, ''Password''), (4, ''Card''),
     (5, ''Fingerprint+Card''), (6, ''Fingerprint+Password''), (7, ''Card+Password''),
     (8, ''Card+Fingerprint+Password''), (9, ''Other''), (15, ''Face''), (25, ''Palm'')]"

definition VerifyModeName :: "int \<Rightarrow> string" where
  "VerifyModeName mode =
     (case fmlookup verifyModeNames mode of
        Some name \<Rightarrow> name
      | None \<Rightarrow> ''Unknown ('' @ itoa mode @ '')'')"

subsection \<open>Errors\<close>

text \<open>The sentinel errors.  Where the source wraps one (\<open>fmt.Errorf("%w: ...")\<close>), the constructor
  carries the text that follows.\<close>

datatype adms_error =
    ErrServerClosed
  | ErrCallbackQueueFull
  | ErrMaxDevicesReached
  | ErrCommandQueueFull
  | ErrInvalidSerialNumber string
  | ErrDeviceNotFound
  | ErrInvalidCommandField string

text \<open>\<open>err.Error()\<close>.\<close>

fun Error :: "adms_error \<Rightarrow> string" where
  "Error ErrServerClosed = ''zkadms: server closed''"
| "Error ErrCallbackQueueFull = ''zkadms: callback queue full''"
| "Error ErrMaxDevicesReached = ''zkadms: maximum number of devices reached''"
| "Error ErrCommandQueueFull = ''zkadms: command queue full for device''"
| "Error (ErrInvalidSerialNumber why) = ''zkadms: invalid serial number: '' @ why"
| "Error ErrDeviceNotFound = ''zkadms: device not found''"
| "Error (ErrInvalidCommandField name) =
     ''zkadms: command field contains forbidden control characters: '' @ name"

subsection \<open>Structs\<close>

text \<open>\<open>LastActivity\<close> is a reading of the clock, in nanoseconds.\<close>

record Device =
  SerialNumber :: string
  LastActivity :: int
  Options :: info
  Timezone :: "location option"

text \<open>\<open>(d *Device) copy()\<close>: every field; a map is a value here, so the clone is the map.\<close>

definition Device_copy :: "Device \<Rightarrow> Device" where
  "Device_copy d =
     \<lparr>SerialNumber = SerialNumber d, LastActivity = LastActivity d, Options = Options d,
      Timezone = Timezone d\<rparr>"

lemma Device_copy_id [simp]: "Device_copy d = d"
  by (simp add: Device_copy_def)

record AttendanceRecord =
  UserID :: string
  Timestamp :: gotime
  Status :: int
  VerifyMode :: int
  WorkCode :: string
  ar_SerialNumber :: string

record CommandResult =
  cr_SerialNumber :: string
  cr_ID :: "64 word"
  ReturnCode :: int
  cr_Command :: string
  QueuedCommand :: string

record CommandEntry =
  ce_ID :: "64 word"
  ce_Command :: string

record pendingEntry =
  pe_sn :: string
  pe_cmd :: string

record UserRecord =
  PIN :: string
  Name :: string
  Privilege :: int
  Card :: string
  Password :: string

text \<open>\<open>LastActivity\<close> and \<open>Timezone\<close> of a snapshot are texts in the source; the clock reading and the
  location are kept, and their formatting is left to the printer of the response.\<close>

record DeviceSnapshot =
  snap_Serial :: string
  snap_LastActivity :: int
  snap_Online :: bool
  snap_Options :: info
  snap_Timezone :: string

text \<open>The entry \<open>DrainCommands\<close> stores in the pending map for a command it hands out.\<close>

definition pending_of :: "string \<Rightarrow> CommandEntry \<Rightarrow> pendingEntry" where
  "pending_of sn e = \<lparr>pe_sn = sn, pe_cmd = ce_Command e\<rparr>"

subsection \<open>Facts\<close>

text \<open>A mode without a name of its own prints its number, so two such modes print alike only when
  they are equal.\<close>

lemma VerifyModeName_unknown:
  "fmlookup verifyModeNames mode = None \<Longrightarrow> VerifyModeName mode = ''Unknown ('' @ itoa mode @ '')''"
  by (simp add: VerifyModeName_def)

lemma VerifyModeName_nonempty: "VerifyModeName mode \<noteq> []"
  by (auto simp: VerifyModeName_def verifyModeNames_def split: option.splits if_splits)

end
