(* ===== verification/Adms_Server.thy ===== *)
theory Adms_Server
  imports Adms_Types
begin

section \<open>The server's state, and its callback queue (\<open>adms.go\<close>)\<close>

text \<open>
  \<open>ADMSServer\<close> is one record.  The user's callbacks are functions it stores; the code calls them
  for their effect and survives their panics, so a callback is modelled by how it ends, which may
  depend on everything any callback has been called with before (the list of events, oldest
  first).  \<open>callbackCh\<close> is the buffered channel, \<open>closing\<close> tells whether \<open>closeCh\<close> has been
  closed, and \<open>cbLog\<close> is the list of events.  Logging, and the contexts and wait channels of
  \<open>Close\<close>, are not part of this record; \<open>Adms_Shutdown\<close> models the latter.
\<close>

subsection \<open>Events and closures\<close>

datatype event =
    AttendanceEv AttendanceRecord
  | DeviceInfoEv string info
  | RegistryEv string info
  | CommandResultEv CommandResult
  | QueryUsersEv string "UserRecord list"

datatype cb_exit = Returned | Panicked

text \<open>What the channel carries: the five closures the dispatch functions build.\<close>

datatype closure =
    AttendanceBatch "AttendanceRecord list"
  | DeviceInfoCall string info
  | RegistryCall string info
  | CommandResultCall CommandResult
  | QueryUsersCall string "UserRecord list"

text \<open>A user callback: how it ends on an argument, given the calls made so far.\<close>

type_synonym 'a callback = "event list \<Rightarrow> 'a \<Rightarrow> cb_exit"

subsection \<open>The server\<close>

record ADMSServer =
  devices :: "(string, Device) fmap"
  commandQueue :: "(string, CommandEntry list) fmap"
  pendingCommands :: "(64 word, pendingEntry) fmap"
  onAttendance :: "AttendanceRecord callback option"
  onDeviceInfo :: "(string \<times> info) callback option"
  onRegistry :: "(string \<times> info) callback option"
  onCommandResult :: "CommandResult callback option"
  onQueryUsers :: "(string \<times> UserRecord list) callback option"
  cmdID :: "64 word"
  maxBodySize :: int
  callbackBufferSize :: int
  onlineThreshold :: int
  dispatchTimeout :: int
  maxDevices :: int
  maxCommandsPerDevice :: int
  enableInspect :: bool
  deviceEvictionInterval :: int
  deviceEvictionTimeout :: int
  defaultTimezone :: "location option"
  localZone :: location
  callbackCh :: "closure list"
  closing :: bool
  cbLog :: "event list"

text \<open>The server as \<open>NewADMSServer\<close> initialises it, before the options; \<open>l\<close> is the process's
  \<open>time.Local\<close>.\<close>

definition newServer :: "location \<Rightarrow> ADMSServer" where
  "newServer l =
     \<lparr>devices = fmempty, commandQueue = fmempty, pendingCommands = fmempty,
      onAttendance = None, onDeviceInfo = None, onRegistry = None, onCommandResult = None,
      onQueryUsers = None, cmdID = 0,
      maxBodySize = defaultMaxBodySize, callbackBufferSize = defaultCallbackBufferSize,
      onlineThreshold = defaultOnlineThreshold, dispatchTimeout = defaultDispatchTimeout,
      maxDevices = defaultMaxDevices, maxCommandsPerDevice = 0, enableInspect = False,
      deviceEvictionInterval = defaultDeviceEvictionInterval,
      deviceEvictionTimeout = defaultDeviceEvictionTimeout,
      defaultTimezone = Some UTC, localZone = l,
      callbackCh = [], closing = False, cbLog = []\<rparr>"

subsection \<open>Running closures\<close>

text \<open>A step of the callback worker maps the events so far to the events after it and an exit.\<close>

type_synonym run = "event list \<Rightarrow> event list \<times> cb_exit"

text \<open>Calling the user's function: the call is made, then it returns or panics.\<close>

definition callUser :: "'a callback \<Rightarrow> ('a \<Rightarrow> event) \<Rightarrow> 'a \<Rightarrow> run" where
  "callUser cb ev x log = (log @ [ev x], cb log x)"

text \<open>\<open>safeCall\<close>: the deferred \<open>recover\<close> turns a panic of \<open>fn\<close> into a return.\<close>

definition safeCall :: "run \<Rightarrow> run" where
  "safeCall fn log = (fst (fn log), Returned)"

text \<open>Statements in sequence: a panic of one skips the rest.\<close>

fun runSeq :: "run list \<Rightarrow> run" where
  "runSeq [] log = (log, Returned)"
| "runSeq (fn # fns) log =
     (case fn log of (log', Panicked) \<Rightarrow> (log', Panicked) | (log', Returned) \<Rightarrow> runSeq fns log')"

text \<open>What a closure does when it is run.  It was only built where its callback was set.\<close>

fun runClosure :: "ADMSServer \<Rightarrow> closure \<Rightarrow> run" where
  "runClosure s (AttendanceBatch batch) log =
     (case onAttendance s of
        None \<Rightarrow> (log, Returned)
      | Some cb \<Rightarrow> runSeq (map (\<lambda>r. safeCall (callUser cb AttendanceEv r)) batch) log)"
| "runClosure s (DeviceInfoCall sn info) log =
     (case onDeviceInfo s of
        None \<Rightarrow> (log, Returned)
      | Some cb \<Rightarrow> callUser cb (\<lambda>(sn, info). DeviceInfoEv sn info) (sn, info) log)"
| "runClosure s (RegistryCall sn info) log =
     (case onRegistry s of
        None \<Rightarrow> (log, Returned)
      | Some cb \<Rightarrow> callUser cb (\<lambda>(sn, info). RegistryEv sn info) (sn, info) log)"
| "runClosure s (CommandResultCall r) log =
     (case onCommandResult s of
        None \<Rightarrow> (log, Returned)
      | Some cb \<Rightarrow> callUser cb CommandResultEv r log)"
| "runClosure s (QueryUsersCall sn users) log =
     (case onQueryUsers s of
        None \<Rightarrow> (log, Returned)
      | Some cb \<Rightarrow>
          safeCall (callUser cb (\<lambda>(sn, users). QueryUsersEv sn users) (sn, users)) log)"

text \<open>\<open>callbackWorker\<close>: \<open>for fn := range s.callbackCh { s.safeCall(fn) }\<close> over the closures the
  channel delivers.  A panic that escaped would end the loop (and the process).\<close>

definition callbackWorker :: "ADMSServer \<Rightarrow> closure list \<Rightarrow> run" where
  "callbackWorker s qs = runSeq (map (\<lambda>q. safeCall (runClosure s q)) qs)"

text \<open>One iteration: the worker receives the oldest closure and runs it.\<close>

definition workerTake :: "ADMSServer \<Rightarrow> ADMSServer" where
  "workerTake s =
     (case callbackCh s of
        [] \<Rightarrow> s
      | q # qs \<Rightarrow> s\<lparr>callbackCh := qs, cbLog := fst (callbackWorker s [q] (cbLog s))\<rparr>)"

fun workerRun :: "nat \<Rightarrow> ADMSServer \<Rightarrow> ADMSServer" where
  "workerRun 0 s = s"
| "workerRun (Suc n) s = workerRun n (workerTake s)"

subsection \<open>Dispatch\<close>

text \<open>
  What the scheduler does around one call of \<open>dispatchCallback\<close>: how many closures the worker
  finishes before the call tests the channel, and, when it finds the channel full, which case of
  the final \<open>select\<close> fires within the timeout: a slot comes free, the timer expires, or the
  server starts closing.
\<close>

datatype slow_wait = SlotFreed | TimerExpired | CloseSignalled

record sched =
  sch_runs :: nat
  sch_slow :: slow_wait

definition dispatchCallback :: "sched \<Rightarrow> closure \<Rightarrow> ADMSServer \<Rightarrow> bool \<times> ADMSServer" where
  "dispatchCallback e fn s0 =
     (let s = workerRun (sch_runs e) s0 in
      if closing s then (False, s)
      else if int (length (callbackCh s)) < callbackBufferSize s then
        (True, s\<lparr>callbackCh := callbackCh s @ [fn]\<rparr>)
      else (case sch_slow e of
          SlotFreed \<Rightarrow>
            (let s' = workerTake s in (True, s'\<lparr>callbackCh := callbackCh s' @ [fn]\<rparr>))
        | TimerExpired \<Rightarrow> (False, s)
        | CloseSignalled \<Rightarrow> (False, s\<lparr>closing := True\<rparr>)))"

definition dispatchAttendance :: "sched \<Rightarrow> AttendanceRecord list \<Rightarrow> ADMSServer \<Rightarrow> bool \<times> ADMSServer" where
  "dispatchAttendance e records s =
     (if records = [] then (True, s)
      else if onAttendance s = None then (True, s)
      else dispatchCallback e (AttendanceBatch records) s)"

definition dispatchMapCallback ::
    "sched \<Rightarrow> closure \<Rightarrow> (string \<times> info) callback option \<Rightarrow> ADMSServer \<Rightarrow> bool \<times> ADMSServer" where
  "dispatchMapCallback e fn cb s = (if cb = None then (True, s) else dispatchCallback e fn s)"

definition dispatchDeviceInfo :: "sched \<Rightarrow> string \<Rightarrow> info \<Rightarrow> ADMSServer \<Rightarrow> bool \<times> ADMSServer" where
  "dispatchDeviceInfo e sn info s = dispatchMapCallback e (DeviceInfoCall sn info) (onDeviceInfo s) s"

definition dispatchRegistry :: "sched \<Rightarrow> string \<Rightarrow> info \<Rightarrow> ADMSServer \<Rightarrow> bool \<times> ADMSServer" where
  "dispatchRegistry e sn info s = dispatchMapCallback e (RegistryCall sn info) (onRegistry s) s"

definition dispatchCommandResult :: "sched \<Rightarrow> CommandResult \<Rightarrow> ADMSServer \<Rightarrow> bool \<times> ADMSServer" where
  "dispatchCommandResult e r s =
     (if onCommandResult s = None then (True, s) else dispatchCallback e (CommandResultCall r) s)"

definition dispatchQueryUsers :: "sched \<Rightarrow> string \<Rightarrow> UserRecord list \<Rightarrow> ADMSServer \<Rightarrow> bool \<times> ADMSServer" where
  "dispatchQueryUsers e sn users s =
     (if users = [] then (True, s)
      else if onQueryUsers s = None then (True, s)
      else dispatchCallback e (QueryUsersCall sn users) s)"

subsection \<open>The outbox contract\<close>

text \<open>
  The events a closure stands for, and the events the server is committed to: those delivered and
  those the queued closures will deliver.
\<close>

fun eventsOf :: "ADMSServer \<Rightarrow> closure \<Rightarrow> event list" where
  "eventsOf s (AttendanceBatch batch) = (if onAttendance s = None then [] else map AttendanceEv batch)"
| "eventsOf s (DeviceInfoCall sn info) = (if onDeviceInfo s = None then [] else [DeviceInfoEv sn info])"
| "eventsOf s (RegistryCall sn info) = (if onRegistry s = None then [] else [RegistryEv sn info])"
| "eventsOf s (CommandResultCall r) = (if onCommandResult s = None then [] else [CommandResultEv r])"
| "eventsOf s (QueryUsersCall sn users) =
     (if onQueryUsers s = None then [] else [QueryUsersEv sn users])"

definition committed :: "ADMSServer \<Rightarrow> event list" where
  "committed s = cbLog s @ concat (map (eventsOf s) (callbackCh s))"

text \<open>Everything but the queue: what dispatching leaves alone.\<close>

definition core :: "ADMSServer \<Rightarrow> ADMSServer" where
  "core s = s\<lparr>callbackCh := [], closing := False, cbLog := []\<rparr>"

lemma core_fields:
  "devices (core s) = devices s" "commandQueue (core s) = commandQueue s"
  "pendingCommands (core s) = pendingCommands s" "cmdID (core s) = cmdID s"
  "onAttendance (core s) = onAttendance s" "onDeviceInfo (core s) = onDeviceInfo s"
  "onRegistry (core s) = onRegistry s" "onCommandResult (core s) = onCommandResult s"
  "onQueryUsers (core s) = onQueryUsers s" "callbackBufferSize (core s) = callbackBufferSize s"
  "maxDevices (core s) = maxDevices s" "maxCommandsPerDevice (core s) = maxCommandsPerDevice s"
  "maxBodySize (core s) = maxBodySize s" "onlineThreshold (core s) = onlineThreshold s"
  "enableInspect (core s) = enableInspect s"
  "deviceEvictionTimeout (core s) = deviceEvictionTimeout s"
  "defaultTimezone (core s) = defaultTimezone s" "localZone (core s) = localZone s"
  "dispatchTimeout (core s) = dispatchTimeout s"
  "deviceEvictionInterval (core s) = deviceEvictionInterval s"
  by (simp_all add: core_def)

lemma core_eqD:
  assumes "core s = core t"
  shows "devices s = devices t" "commandQueue s = commandQueue t"
    "pendingCommands s = pendingCommands t" "cmdID s = cmdID t"
    "onAttendance s = onAttendance t" "onDeviceInfo s = onDeviceInfo t"
    "onRegistry s = onRegistry t" "onCommandResult s = onCommandResult t"
    "onQueryUsers s = onQueryUsers t" "callbackBufferSize s = callbackBufferSize t"
    "maxDevices s = maxDevices t" "maxCommandsPerDevice s = maxCommandsPerDevice t"
    "maxBodySize s = maxBodySize t" "onlineThreshold s = onlineThreshold t"
    "enableInspect s = enableInspect t" "deviceEvictionTimeout s = deviceEvictionTimeout t"
    "defaultTimezone s = defaultTimezone t" "localZone s = localZone t"
    "dispatchTimeout s = dispatchTimeout t" "deviceEvictionInterval s = deviceEvictionInterval t"
  using core_fields [of s] core_fields [of t] assms by simp_all

lemma core_update [simp]:
  "core (s\<lparr>callbackCh := x\<rparr>) = core s" "core (s\<lparr>closing := y\<rparr>) = core s"
  "core (s\<lparr>cbLog := z\<rparr>) = core s"
  by (simp_all add: core_def)

lemma eventsOf_core: "core s = core t \<Longrightarrow> eventsOf s q = eventsOf t q"
  by (cases q) (simp_all add: core_eqD(5-9) [of s t])

lemma runSeq_safe:
  assumes "\<And>x log. x \<in> set xs \<Longrightarrow> f x log = (log @ g x, Returned)"
  shows "runSeq (map f xs) log = (log @ concat (map g xs), Returned)"
  using assms by (induction xs arbitrary: log) auto

lemma runClosure_log: "fst (runClosure s q log) = log @ eventsOf s q"
proof (cases q)
  case (AttendanceBatch batch)
  have "runSeq (map (\<lambda>r. safeCall (callUser cb AttendanceEv r)) batch) log
      = (log @ concat (map (\<lambda>r. [AttendanceEv r]) batch), Returned)" for cb
    by (rule runSeq_safe) (simp add: safeCall_def callUser_def)
  with AttendanceBatch show ?thesis
    by (auto simp: concat_map_singleton split: option.split)
qed (auto simp: callUser_def safeCall_def split: option.split)

lemma callbackWorker_log:
  "callbackWorker s qs log = (log @ concat (map (eventsOf s) qs), Returned)"
  unfolding callbackWorker_def
  by (rule runSeq_safe) (simp add: safeCall_def runClosure_log)

lemma workerTake_Nil [simp]: "callbackCh s = [] \<Longrightarrow> workerTake s = s"
  by (simp add: workerTake_def)

lemma workerTake_Cons:
  "callbackCh s = q # qs \<Longrightarrow> workerTake s = s\<lparr>callbackCh := qs, cbLog := cbLog s @ eventsOf s q\<rparr>"
  by (simp add: workerTake_def callbackWorker_log)

lemma core_workerTake [simp]: "core (workerTake s) = core s"
  by (cases "callbackCh s") (simp_all add: workerTake_Cons)

lemma closing_workerTake [simp]: "closing (workerTake s) = closing s"
  by (cases "callbackCh s") (simp_all add: workerTake_Cons)

lemma committed_workerTake [simp]: "committed (workerTake s) = committed s"
proof (cases "callbackCh s")
  case (Cons q qs)
  have "eventsOf (workerTake s) = eventsOf s"
    by (rule ext) (rule eventsOf_core, simp)
  with Cons show ?thesis by (simp add: committed_def workerTake_Cons)
qed simp

lemma length_workerTake: "length (callbackCh (workerTake s)) = length (callbackCh s) - 1"
  by (cases "callbackCh s") (simp_all add: workerTake_Cons)

lemma workerRun_frame [simp]:
  "core (workerRun n s) = core s" "closing (workerRun n s) = closing s"
  "committed (workerRun n s) = committed s"
  by (induction n arbitrary: s) auto

lemma length_workerRun: "length (callbackCh (workerRun n s)) = length (callbackCh s) - n"
  by (induction n arbitrary: s) (auto simp: length_workerTake)

text \<open>Running as many iterations as there are closures empties the channel: every committed event
  is then delivered.\<close>

lemma workerRun_drains:
  "length (callbackCh s) \<le> n \<Longrightarrow>
    callbackCh (workerRun n s) = [] \<and> cbLog (workerRun n s) = committed s"
  using length_workerRun [of n s] workerRun_frame(3) [of n s]
  by (simp add: committed_def)

lemma committed_snoc:
  "committed (s\<lparr>callbackCh := callbackCh s @ [q]\<rparr>) = committed s @ eventsOf s q"
proof -
  have "eventsOf (s\<lparr>callbackCh := callbackCh s @ [q]\<rparr>) = eventsOf s"
    by (rule ext) (rule eventsOf_core, simp)
  then show ?thesis by (simp add: committed_def)
qed

lemma committed_closing [simp]: "committed (s\<lparr>closing := b\<rparr>) = committed s"
proof -
  have "eventsOf (s\<lparr>closing := b\<rparr>) = eventsOf s"
    by (rule ext) (rule eventsOf_core, simp)
  then show ?thesis by (simp add: committed_def)
qed

lemma core_dispatchCallback: "core (snd (dispatchCallback e q s)) = core s"
  by (simp add: dispatchCallback_def Let_def split: slow_wait.split)

lemma committed_dispatchCallback:
  "committed (snd (dispatchCallback e q s)) =
     committed s @ (if fst (dispatchCallback e q s) then eventsOf s q else [])"
proof -
  let ?r = "workerRun (sch_runs e) s"
  have ev: "eventsOf ?r q = eventsOf s q" "eventsOf (workerTake ?r) q = eventsOf s q"
    by (rule eventsOf_core; simp)+
  show ?thesis
    by (simp add: dispatchCallback_def Let_def committed_snoc ev split: slow_wait.split)
qed

lemma dispatchCallback_closing:
  "closing s \<Longrightarrow> \<not> fst (dispatchCallback e q s)"
  by (simp add: dispatchCallback_def Let_def)

text \<open>The channel never holds more closures than its capacity.\<close>

definition chan_ok :: "ADMSServer \<Rightarrow> bool" where
  "chan_ok s \<longleftrightarrow> 0 < callbackBufferSize s \<and> int (length (callbackCh s)) \<le> callbackBufferSize s"

lemma chan_ok_workerTake: "chan_ok s \<Longrightarrow> chan_ok (workerTake s)"
  using core_eqD(10) [OF core_workerTake, of s]
  by (simp add: chan_ok_def length_workerTake, linarith)

lemma chan_ok_workerRun: "chan_ok s \<Longrightarrow> chan_ok (workerRun n s)"
  by (induction n arbitrary: s) (auto simp: chan_ok_workerTake)

lemma chan_ok_dispatchCallback:
  assumes "chan_ok s"
  shows "chan_ok (snd (dispatchCallback e q s))"
proof -
  let ?r = "workerRun (sch_runs e) s"
  have r: "chan_ok ?r" "chan_ok (workerTake ?r)"
    using assms by (simp_all add: chan_ok_workerRun chan_ok_workerTake)
  have "callbackBufferSize (workerTake ?r) = callbackBufferSize ?r"
    by (rule core_eqD(10)) simp
  with r show ?thesis
    by (auto simp: dispatchCallback_def Let_def chan_ok_def length_workerTake split: slow_wait.split)
qed

text \<open>
  The contract the handlers rely on: \<open>send\<close> either commits exactly the events of its closure, at
  the end, and reports True, or commits nothing and reports False; either way it touches nothing
  else.
\<close>

locale outbox =
  fixes send :: "sched \<Rightarrow> closure \<Rightarrow> 's \<Rightarrow> bool \<times> 's"
    and contents :: "'s \<Rightarrow> event list"
    and events :: "'s \<Rightarrow> closure \<Rightarrow> event list"
    and rest :: "'s \<Rightarrow> 'r"
  assumes send_contents: "contents (snd (send e q s))
      = contents s @ (if fst (send e q s) then events s q else [])"
    and send_rest: "rest (snd (send e q s)) = rest s"
    and events_rest: "rest s = rest t \<Longrightarrow> events s q = events t q"
begin

lemma send_True: "send e q s = (True, t) \<Longrightarrow> contents t = contents s @ events s q \<and> rest t = rest s"
  using send_contents [of e q s] send_rest [of e q s] by simp

lemma send_False: "send e q s = (False, t) \<Longrightarrow> contents t = contents s \<and> rest t = rest s"
  using send_contents [of e q s] send_rest [of e q s] by simp

text \<open>Nothing committed is lost or reordered: the old contents stay a prefix.\<close>

lemma send_prefix: "prefix (contents s) (contents (snd (send e q s)))"
  by (simp add: send_contents)

end

interpretation cbq: outbox dispatchCallback committed eventsOf core
  by unfold_locales
    (fact committed_dispatchCallback, fact core_dispatchCallback, erule eventsOf_core)

subsection \<open>Properties\<close>

text \<open>A panic in a user callback never stops the callback worker: whatever the callbacks do, the
  worker returns normally after making every call of every queued closure, in order.\<close>

lemma worker_survives_panics:
  "callbackWorker s qs log = (log @ concat (map (eventsOf s) qs), Returned)"
  by (rule callbackWorker_log)

text \<open>A dispatch that reports success commits exactly the calls of its closure, after everything
  committed before; one that reports failure commits nothing.  Neither touches the rest of the server,
  and a closing server accepts nothing.\<close>

lemma dispatch_commits_exactly:
  "committed (snd (dispatchCallback e q s))
      = committed s @ (if fst (dispatchCallback e q s) then eventsOf s q else [])
   \<and> core (snd (dispatchCallback e q s)) = core s
   \<and> \<not> (closing s \<and> fst (dispatchCallback e q s))"
  by (simp add: cbq.send_contents core_dispatchCallback dispatchCallback_closing)

text \<open>Everything committed is delivered: after as many iterations of the worker as there are queued
  closures the channel is empty and every committed call has been made.\<close>

lemma worker_delivers_all:
  "callbackCh (workerRun (length (callbackCh s)) s) = []
   \<and> cbLog (workerRun (length (callbackCh s)) s) = committed s"
  by (rule workerRun_drains) simp

text \<open>The callback channel never holds more closures than its capacity, whatever the schedule.\<close>

lemma channel_bounded:
  "chan_ok s \<Longrightarrow> chan_ok (snd (dispatchCallback e q s)) \<and> chan_ok (workerRun n s)"
  by (simp add: chan_ok_dispatchCallback chan_ok_workerRun)

end
