(* ===== verification/Adms_Options.thy ===== *)
theory Adms_Options
  imports Adms_Server
begin

section \<open>Functional options (\<open>options.go\<close>) and \<open>NewADMSServer\<close>\<close>

text \<open>
  One definition per \<open>With...\<close> function.  Outside the package an \<open>Option\<close> can only be obtained
  from these functions, so the options of a call are a list over the datatype
  \<open>server_option\<close>, applied left to right as \<open>NewADMSServer\<close> does.  \<open>WithLogger\<close> sets what the model
  does not hold; it is the identity here.  The field \<open>baseCtx\<close> is kept apart from the record, as only
  the closing protocol looks at it.
\<close>

subsection \<open>The options\<close>

definition WithDeviceTimezone :: "location option \<Rightarrow> Device \<Rightarrow> Device" where
  "WithDeviceTimezone loc d = (if loc \<noteq> None then d\<lparr>Timezone := loc\<rparr> else d)"

definition WithDefaultTimezone :: "location option \<Rightarrow> ADMSServer \<Rightarrow> ADMSServer" where
  "WithDefaultTimezone loc s = (if loc \<noteq> None then s\<lparr>defaultTimezone := loc\<rparr> else s)"

definition WithMaxBodySize :: "int \<Rightarrow> ADMSServer \<Rightarrow> ADMSServer" where
  "WithMaxBodySize n s = (if 0 < n then s\<lparr>maxBodySize := n\<rparr> else s)"

definition WithCallbackBufferSize :: "int \<Rightarrow> ADMSServer \<Rightarrow> ADMSServer" where
  "WithCallbackBufferSize n s = (if 0 < n then s\<lparr>callbackBufferSize := n\<rparr> else s)"

definition WithOnlineThreshold :: "int \<Rightarrow> ADMSServer \<Rightarrow> ADMSServer" where
  "WithOnlineThreshold d s = (if 0 < d then s\<lparr>onlineThreshold := d\<rparr> else s)"

definition WithDispatchTimeout :: "int \<Rightarrow> ADMSServer \<Rightarrow> ADMSServer" where
  "WithDispatchTimeout d s = (if 0 < d then s\<lparr>dispatchTimeout := d\<rparr> else s)"

definition WithOnAttendance :: "AttendanceRecord callback option \<Rightarrow> ADMSServer \<Rightarrow> ADMSServer" where
  "WithOnAttendance fn s = s\<lparr>onAttendance := fn\<rparr>"

definition WithOnDeviceInfo :: "(string \<times> info) callback option \<Rightarrow> ADMSServer \<Rightarrow> ADMSServer" where
  "WithOnDeviceInfo fn s = s\<lparr>onDeviceInfo := fn\<rparr>"

definition WithOnRegistry :: "(string \<times> info) callback option \<Rightarrow> ADMSServer \<Rightarrow> ADMSServer" where
  "WithOnRegistry fn s = s\<lparr>onRegistry := fn\<rparr>"

definition WithOnCommandResult :: "CommandResult callback option \<Rightarrow> ADMSServer \<Rightarrow> ADMSServer" where
  "WithOnCommandResult fn s = s\<lparr>onCommandResult := fn\<rparr>"

definition WithOnQueryUsers ::
    "(string \<times> UserRecord list) callback option \<Rightarrow> ADMSServer \<Rightarrow> ADMSServer" where
  "WithOnQueryUsers fn s = s\<lparr>onQueryUsers := fn\<rparr>"

definition WithMaxDevices :: "int \<Rightarrow> ADMSServer \<Rightarrow> ADMSServer" where
  "WithMaxDevices n s = (if 0 \<le> n then s\<lparr>maxDevices := n\<rparr> else s)"

definition WithUnlimitedDevices :: "ADMSServer \<Rightarrow> ADMSServer" where
  "WithUnlimitedDevices s = s\<lparr>maxDevices := 0\<rparr>"

definition WithMaxCommandsPerDevice :: "int \<Rightarrow> ADMSServer \<Rightarrow> ADMSServer" where
  "WithMaxCommandsPerDevice n s = (if 0 \<le> n then s\<lparr>maxCommandsPerDevice := n\<rparr> else s)"

definition WithEnableInspect :: "ADMSServer \<Rightarrow> ADMSServer" where
  "WithEnableInspect s = s\<lparr>enableInspect := True\<rparr>"

definition WithDeviceEvictionInterval :: "int \<Rightarrow> ADMSServer \<Rightarrow> ADMSServer" where
  "WithDeviceEvictionInterval d s = (if 0 < d then s\<lparr>deviceEvictionInterval := d\<rparr> else s)"

definition WithDeviceEvictionTimeout :: "int \<Rightarrow> ADMSServer \<Rightarrow> ADMSServer" where
  "WithDeviceEvictionTimeout d s = (if 0 < d then s\<lparr>deviceEvictionTimeout := d\<rparr> else s)"

text \<open>A context passed by the caller, by some name, or \<open>context.Background()\<close>, which never ends.\<close>

datatype go_context = Background | Caller nat

definition WithBaseContext :: "go_context option \<Rightarrow> go_context option \<Rightarrow> go_context option" where
  "WithBaseContext ctx base = (if ctx \<noteq> None then ctx else base)"

lemmas option_defs [adms_defs] =
  WithDefaultTimezone_def WithMaxBodySize_def WithCallbackBufferSize_def WithOnlineThreshold_def
  WithDispatchTimeout_def WithOnAttendance_def WithOnDeviceInfo_def WithOnRegistry_def
  WithOnCommandResult_def WithOnQueryUsers_def WithMaxDevices_def WithUnlimitedDevices_def
  WithMaxCommandsPerDevice_def WithEnableInspect_def WithDeviceEvictionInterval_def
  WithDeviceEvictionTimeout_def

subsection \<open>Applying a list of options\<close>

datatype server_option =
    OptDefaultTimezone "location option"
  | OptLogger
  | OptMaxBodySize int
  | OptCallbackBufferSize int
  | OptOnlineThreshold int
  | OptDispatchTimeout int
  | OptOnAttendance "AttendanceRecord callback option"
  | OptOnDeviceInfo "(string \<times> info) callback option"
  | OptOnRegistry "(string \<times> info) callback option"
  | OptOnCommandResult "CommandResult callback option"
  | OptOnQueryUsers "(string \<times> UserRecord list) callback option"
  | OptBaseContext "go_context option"
  | OptMaxDevices int
  | OptUnlimitedDevices
  | OptMaxCommandsPerDevice int
  | OptEnableInspect
  | OptDeviceEvictionInterval int
  | OptDeviceEvictionTimeout int

fun applyOption :: "server_option \<Rightarrow> ADMSServer \<Rightarrow> ADMSServer" where
  "applyOption (OptDefaultTimezone l) s = WithDefaultTimezone l s"
| "applyOption OptLogger s = s"
| "applyOption (OptMaxBodySize n) s = WithMaxBodySize n s"
| "applyOption (OptCallbackBufferSize n) s = WithCallbackBufferSize n s"
| "applyOption (OptOnlineThreshold d) s = WithOnlineThreshold d s"
| "applyOption (OptDispatchTimeout d) s = WithDispatchTimeout d s"
| "applyOption (OptOnAttendance f) s = WithOnAttendance f s"
| "applyOption (OptOnDeviceInfo f) s = WithOnDeviceInfo f s"
| "applyOption (OptOnRegistry f) s = WithOnRegistry f s"
| "applyOption (OptOnCommandResult f) s = WithOnCommandResult f s"
| "applyOption (OptOnQueryUsers f) s = WithOnQueryUsers f s"
| "applyOption (OptBaseContext c) s = s"
| "applyOption (OptMaxDevices n) s = WithMaxDevices n s"
| "applyOption OptUnlimitedDevices s = WithUnlimitedDevices s"
| "applyOption (OptMaxCommandsPerDevice n) s = WithMaxCommandsPerDevice n s"
| "applyOption OptEnableInspect s = WithEnableInspect s"
| "applyOption (OptDeviceEvictionInterval d) s = WithDeviceEvictionInterval d s"
| "applyOption (OptDeviceEvictionTimeout d) s = WithDeviceEvictionTimeout d s"

text \<open>\<open>NewADMSServer(opts...)\<close>; the worker goroutines it starts are the steps of
  \<^const>\<open>workerTake\<close> and of the eviction.\<close>

definition NewADMSServer :: "location \<Rightarrow> server_option list \<Rightarrow> ADMSServer" where
  "NewADMSServer l opts = fold applyOption opts (newServer l)"

text \<open>The context the server derives its own from: the field after the options, \<open>nil\<close> replaced.\<close>

fun applyBaseContext :: "server_option \<Rightarrow> go_context option \<Rightarrow> go_context option" where
  "applyBaseContext (OptBaseContext c) base = WithBaseContext c base"
| "applyBaseContext _ base = base"

definition baseContext :: "server_option list \<Rightarrow> go_context" where
  "baseContext opts = (case fold applyBaseContext opts None of None \<Rightarrow> Background | Some c \<Rightarrow> c)"

subsection \<open>The configuration invariant\<close>

definition config_ok :: "ADMSServer \<Rightarrow> bool" where
  "config_ok s \<longleftrightarrow>
     0 < maxBodySize s \<and> 0 < callbackBufferSize s \<and> 0 < onlineThreshold s
     \<and> 0 < dispatchTimeout s \<and> 0 \<le> maxDevices s \<and> 0 \<le> maxCommandsPerDevice s
     \<and> 0 < deviceEvictionInterval s \<and> 0 < deviceEvictionTimeout s \<and> defaultTimezone s \<noteq> None"

text \<open>What the options do not touch: the data of the server.\<close>

definition pristine :: "ADMSServer \<Rightarrow> bool" where
  "pristine s \<longleftrightarrow>
     devices s = fmempty \<and> commandQueue s = fmempty \<and> pendingCommands s = fmempty \<and> cmdID s = 0
     \<and> callbackCh s = [] \<and> \<not> closing s \<and> cbLog s = []"

lemma config_ok_newServer: "config_ok (newServer l)"
  by (simp add: config_ok_def newServer_def defaultMaxBodySize_def defaultCallbackBufferSize_def
      defaultOnlineThreshold_def defaultDispatchTimeout_def defaultMaxDevices_def
      defaultDeviceEvictionInterval_def defaultDeviceEvictionTimeout_def second_def)

lemma pristine_newServer: "pristine (newServer l)"
  by (simp add: pristine_def newServer_def)

lemma config_ok_applyOption: "config_ok s \<Longrightarrow> config_ok (applyOption x s)"
  by (cases x) (simp_all add: config_ok_def option_defs)

lemma pristine_applyOption: "pristine s \<Longrightarrow> pristine (applyOption x s)"
  by (cases x) (simp_all add: pristine_def option_defs)

interpretation config: op_machine applyOption config_ok
  by unfold_locales (rule config_ok_applyOption)

interpretation fresh: op_machine applyOption pristine
  by unfold_locales (rule pristine_applyOption)

lemma pristine_New: "pristine (NewADMSServer l opts)"
  unfolding NewADMSServer_def by (rule fresh.run_inv) (rule pristine_newServer)

text \<open>
  The value of a setting is decided by the options that give an admissible value for it, the last
  of them winning; \<open>setting f d opts\<close> is that value, \<open>d\<close> being the default.
\<close>

definition setting :: "(server_option \<Rightarrow> 'a option) \<Rightarrow> 'a \<Rightarrow> server_option list \<Rightarrow> 'a" where
  "setting f d opts = last (d # List.map_filter f opts)"

lemma setting_simps [simp]:
  "setting f d [] = d"
  "setting f d (x # xs) = setting f (case f x of None \<Rightarrow> d | Some v \<Rightarrow> v) xs"
  by (simp_all add: setting_def List.map_filter_simps split: option.split)

lemma fold_setting:
  assumes "\<And>x s. field (applyOption x s) = (case f x of None \<Rightarrow> field s | Some v \<Rightarrow> v)"
  shows "field (fold applyOption opts s) = setting f (field s) opts"
  by (induction opts arbitrary: s) (simp_all add: assms)

fun optMaxDevices :: "server_option \<Rightarrow> int option" where
  "optMaxDevices (OptMaxDevices n) = (if 0 \<le> n then Some n else None)"
| "optMaxDevices OptUnlimitedDevices = Some 0"
| "optMaxDevices _ = None"

fun optMaxCommands :: "server_option \<Rightarrow> int option" where
  "optMaxCommands (OptMaxCommandsPerDevice n) = (if 0 \<le> n then Some n else None)"
| "optMaxCommands _ = None"

fun optMaxBodySize :: "server_option \<Rightarrow> int option" where
  "optMaxBodySize (OptMaxBodySize n) = (if 0 < n then Some n else None)"
| "optMaxBodySize _ = None"

fun optBaseContext :: "server_option \<Rightarrow> go_context option" where
  "optBaseContext (OptBaseContext c) = c"
| "optBaseContext _ = None"

lemma baseContext_fold:
  "fold applyBaseContext opts base
    = (case List.map_filter optBaseContext opts of [] \<Rightarrow> base | cs \<Rightarrow> Some (last cs))"
proof (induction opts arbitrary: base)
  case (Cons x opts)
  then show ?case
    by (cases x) (auto simp: WithBaseContext_def List.map_filter_simps split: list.split option.split)
qed (simp add: List.map_filter_simps)

lemma maxDevices_applyOption:
  "maxDevices (applyOption x s) = (case optMaxDevices x of None \<Rightarrow> maxDevices s | Some v \<Rightarrow> v)"
  by (cases x) (simp_all add: option_defs)

lemma maxCommands_applyOption:
  "maxCommandsPerDevice (applyOption x s)
    = (case optMaxCommands x of None \<Rightarrow> maxCommandsPerDevice s | Some v \<Rightarrow> v)"
  by (cases x) (simp_all add: option_defs)

lemma maxBodySize_applyOption:
  "maxBodySize (applyOption x s) = (case optMaxBodySize x of None \<Rightarrow> maxBodySize s | Some v \<Rightarrow> v)"
  by (cases x) (simp_all add: option_defs)

subsection \<open>Properties\<close>

text \<open>Whatever options are passed, and in whatever order, a new server has an admissible
  configuration (positive sizes, timeouts and intervals, limits that are not negative, a default
  timezone) and holds no data.\<close>

lemma new_server_admissible:
  "config_ok (NewADMSServer l opts) \<and> pristine (NewADMSServer l opts)"
  using config.run_inv [OF config_ok_newServer] pristine_New by (simp add: NewADMSServer_def)

text \<open>The limits of a new server are those of the last option that gives an admissible value, or the
  documented defaults: an inadmissible value never overrides an earlier setting.\<close>

lemma limits_of_new_server:
  "maxDevices (NewADMSServer l opts) = setting optMaxDevices 1000 opts
   \<and> maxCommandsPerDevice (NewADMSServer l opts) = setting optMaxCommands 0 opts
   \<and> maxBodySize (NewADMSServer l opts) = setting optMaxBodySize 10485760 opts"
proof -
  have "maxDevices (newServer l) = 1000" "maxCommandsPerDevice (newServer l) = 0"
    "maxBodySize (newServer l) = 10485760"
    by (simp_all add: newServer_def defaultMaxDevices_def defaultMaxBodySize_def)
  then show ?thesis
    using fold_setting [of maxDevices optMaxDevices opts "newServer l", OF maxDevices_applyOption]
      fold_setting [of maxCommandsPerDevice optMaxCommands opts "newServer l", OF maxCommands_applyOption]
      fold_setting [of maxBodySize optMaxBodySize opts "newServer l", OF maxBodySize_applyOption]
    by (simp add: NewADMSServer_def)
qed

text \<open>The base context is the last one given that is not \<open>nil\<close>, or \<open>context.Background()\<close>.\<close>

lemma base_context_of_new_server: "baseContext opts = setting optBaseContext Background opts"
  unfolding baseContext_def baseContext_fold setting_def by (auto split: list.split)

end
