(* ===== verification/Go_Http.thy ===== *)
theory Go_Http
  imports Go_Numbers
begin

section \<open>Requests, responses and query strings\<close>

text \<open>
  What the handlers use of \<open>net/http\<close> and \<open>net/url\<close>.  A request has a method, a path, the raw
  query and a body that is read to its end or fails with an error after some bytes.  A response is
  its status and its text; headers and write errors are left out.  \<open>ParseQuery\<close> follows
  \<open>net/url\<close> (without the cap recent releases put on the number of parameters): pairs with a
  semicolon, empty pairs and pairs with a bad escape are dropped.
\<close>

datatype req_body = Body string | BodyErr string

record request =
  rq_method :: string
  rq_path :: string
  rq_query :: string
  rq_body :: req_body

record response =
  rs_status :: int
  rs_text :: string

text \<open>\<open>http.Error(w, msg, code)\<close> and \<open>http.NotFound(w, r)\<close>.\<close>

definition httpError :: "string \<Rightarrow> int \<Rightarrow> response" where
  "httpError msg code = \<lparr>rs_status = code, rs_text = msg @ [NL]\<rparr>"

definition httpNotFound :: response where
  "httpNotFound = httpError ''404 page not found'' 404"

text \<open>\<open>io.ReadAll(http.MaxBytesReader(w, body, limit))\<close>: the bytes, or whether the limit was
  exceeded.\<close>

datatype read_error = TooLarge | ReadFailed

definition readAll :: "int \<Rightarrow> req_body \<Rightarrow> read_error + string" where
  "readAll limit b =
     (case b of
        Body bs \<Rightarrow> if limit < int (length bs) then Inl TooLarge else Inr bs
      | BodyErr bs \<Rightarrow> if limit < int (length bs) then Inl TooLarge else Inl ReadFailed)"

subsection \<open>\<open>url.ParseQuery\<close>\<close>

definition hexVal :: "char \<Rightarrow> int option" where
  "hexVal c =
     (let n = (of_char c :: int) in
      if 48 \<le> n \<and> n \<le> 57 then Some (n - 48)
      else if 97 \<le> n \<and> n \<le> 102 then Some (n - 87)
      else if 65 \<le> n \<and> n \<le> 70 then Some (n - 55)
      else None)"

text \<open>\<open>url.QueryUnescape\<close>; \<^const>\<open>None\<close> is its error.\<close>

fun QueryUnescape :: "string \<Rightarrow> string option" where
  "QueryUnescape [] = Some []"
| "QueryUnescape (c # s) =
     (if c = CHR ''%'' then
        (case s of
           a # b # s' \<Rightarrow>
             (case (hexVal a, hexVal b) of
                (Some x, Some y) \<Rightarrow> map_option (Cons (char_of (x * 16 + y))) (QueryUnescape s')
              | _ \<Rightarrow> None)
         | _ \<Rightarrow> None)
      else map_option (Cons (if c = CHR ''+'' then CHR '' '' else c)) (QueryUnescape s))"

definition queryPair :: "string \<Rightarrow> (string \<times> string) option" where
  "queryPair part =
     (if CHR '';'' \<in> set part \<or> part = [] then None
      else let (k, v) = (case Cut CHR ''='' part of None \<Rightarrow> (part, []) | Some kv \<Rightarrow> kv)
           in (case QueryUnescape k of
                 None \<Rightarrow> None
               | Some k' \<Rightarrow> map_option (Pair k') (QueryUnescape v)))"

text \<open>The values in order of appearance; \<open>Get\<close> is the first one, or the empty string.\<close>

definition ParseQuery :: "string \<Rightarrow> (string \<times> string) list" where
  "ParseQuery query = List.map_filter queryPair (Split CHR ''&'' query)"

definition queryGet :: "string \<Rightarrow> (string \<times> string) list \<Rightarrow> string" where
  "queryGet key pairs = (case map_of pairs key of None \<Rightarrow> [] | Some v \<Rightarrow> v)"

text \<open>Text without reserved characters stands for itself.\<close>

definition plainChar :: "char \<Rightarrow> bool" where
  "plainChar c \<longleftrightarrow> c \<notin> {CHR ''%'', CHR ''+'', CHR '';'', CHR ''&'', CHR ''=''}"

lemma QueryUnescape_plain: "\<forall>c \<in> set s. plainChar c \<Longrightarrow> QueryUnescape s = Some s"
  by (induction s) (auto simp: plainChar_def)

lemma queryPair_plain:
  assumes "\<forall>c \<in> set k. plainChar c" "\<forall>c \<in> set v. plainChar c"
  shows "queryPair (k @ CHR ''='' # v) = Some (k, v)"
proof -
  have "CHR ''='' \<notin> set k" "CHR '';'' \<notin> set (k @ CHR ''='' # v)"
    using assms by (auto simp: plainChar_def)
  then show ?thesis
    by (simp add: queryPair_def QueryUnescape_plain assms)
qed

lemma ParseQuery_plain:
  assumes "kvs \<noteq> []" "\<forall>(k, v) \<in> set kvs. \<forall>c \<in> set (k @ v). plainChar c"
  shows "ParseQuery (Join CHR ''&'' (map (\<lambda>(k, v). k @ CHR ''='' # v) kvs)) = kvs"
proof -
  have "Split CHR ''&'' (Join CHR ''&'' (map (\<lambda>(k, v). k @ CHR ''='' # v) kvs)) = map (\<lambda>(k, v). k @ CHR ''='' # v) kvs"
    using assms by (intro Split_Join) (auto simp: plainChar_def)
  moreover have "List.map_filter queryPair (map (\<lambda>(k, v). k @ CHR ''='' # v) kvs) = kvs"
    using assms(2) by (induction kvs) (auto simp: queryPair_plain)
  ultimately show ?thesis by (simp add: ParseQuery_def)
qed

end
