(* ===== verification/Adms_Parser.thy ===== *)
theory Adms_Parser
  imports Adms_Options Go_Http
begin

section \<open>Parsers of the wire formats (\<open>parser.go\<close>)\<close>

text \<open>
  The parsers of attendance logs, key-value payloads, user records and command confirmations, each
  with its loop over lines or parts as a recursion over what \<open>Split\<close> yields.  The log lines the source
  emits for skipped input are not modelled; the counter of skipped lines is.  The second half gives
  the texts a well-behaved device sends and the laws that relate them to what is parsed.
\<close>

subsection \<open>Previews and serial numbers\<close>

definition bodyPreview :: "string \<Rightarrow> string" where
  "bodyPreview body =
     (if maxBodyPreviewLen < length body then take maxBodyPreviewLen body @ ''...'' else body)"

text \<open>The class \<open>[A-Za-z0-9_-]\<close>, and the expression \<open>^[A-Za-z0-9_-]{1,64}$\<close>.\<close>

definition serialChar :: "char \<Rightarrow> bool" where
  "serialChar c \<longleftrightarrow>
     (let n = (of_char c :: int) in
        (65 \<le> n \<and> n \<le> 90) \<or> (97 \<le> n \<and> n \<le> 122) \<or> (48 \<le> n \<and> n \<le> 57) \<or> n = 95 \<or> n = 45)"

definition serialNumberRe :: "string \<Rightarrow> bool" where
  "serialNumberRe sn \<longleftrightarrow> 1 \<le> length sn \<and> length sn \<le> 64 \<and> list_all serialChar sn"

definition validateSerialNumber :: "string \<Rightarrow> adms_error option" where
  "validateSerialNumber sn =
     (if sn = [] then Some (ErrInvalidSerialNumber ''empty serial number'')
      else if maxSerialNumberLength < length sn then
        Some (ErrInvalidSerialNumber (''exceeds '' @ itoa (int maxSerialNumberLength) @ '' characters''))
      else if \<not> serialNumberRe sn then
        Some (ErrInvalidSerialNumber ''contains invalid characters'')
      else None)"

subsection \<open>Attendance records\<close>

text \<open>The timestamp field: the device's layout in the given location, else a Unix epoch.\<close>

definition attTimestamp :: "location \<Rightarrow> location \<Rightarrow> string \<Rightarrow> gotime option" where
  "attTimestamp local loc txt =
     (case ParseInLocation txt loc of
        Some t \<Rightarrow> Some t
      | None \<Rightarrow> (case ParseInt txt of
            (epoch, None) \<Rightarrow> Some (unixTime local epoch 0)
          | (_, Some _) \<Rightarrow> None))"

text \<open>An optional integer field: 0 when it is absent or not an integer.\<close>

definition attInt :: "string list \<Rightarrow> nat \<Rightarrow> int" where
  "attInt parts i =
     (if i < length parts then (case Atoi (parts ! i) of (v, None) \<Rightarrow> v | (_, Some _) \<Rightarrow> 0) else 0)"

text \<open>One non-empty line: its record, or \<^const>\<open>None\<close> where the source skips it.\<close>

definition parseAttLine :: "location \<Rightarrow> location \<Rightarrow> string \<Rightarrow> string \<Rightarrow> AttendanceRecord option" where
  "parseAttLine local loc serialNumber line =
     (let parts = Split TAB line in
      if length parts < attMinFields then None
      else let userID = TrimSpace (parts ! attFieldUserID) in
        if userID = [] then None
        else (case attTimestamp local loc (parts ! attFieldTimestamp) of
            None \<Rightarrow> None
          | Some ts \<Rightarrow> Some
              \<lparr>UserID = userID, Timestamp = ts,
               Status = attInt parts attFieldStatus,
               VerifyMode = attInt parts attFieldVerifyMode,
               WorkCode = (if attFieldWorkCode < length parts then parts ! attFieldWorkCode else []),
               ar_SerialNumber = serialNumber\<rparr>))"

text \<open>The loop: the records so far and the number of skipped lines.\<close>

fun attLoop :: "location \<Rightarrow> location \<Rightarrow> string \<Rightarrow> string list
    \<Rightarrow> AttendanceRecord list \<times> nat \<Rightarrow> AttendanceRecord list \<times> nat" where
  "attLoop local loc sn [] acc = acc"
| "attLoop local loc sn (line0 # lines) (records, skipped) =
     (let line = TrimRightCR line0 in
      if line = [] then attLoop local loc sn lines (records, skipped)
      else (case parseAttLine local loc sn line of
          None \<Rightarrow> attLoop local loc sn lines (records, skipped + 1)
        | Some r \<Rightarrow> attLoop local loc sn lines (records @ [r], skipped)))"

text \<open>The location used when the caller passes none.\<close>

definition attLocation :: "ADMSServer \<Rightarrow> location option \<Rightarrow> location" where
  "attLocation s loc =
     (case loc of
        Some l \<Rightarrow> l
      | None \<Rightarrow> (case defaultTimezone s of Some l \<Rightarrow> l | None \<Rightarrow> UTC))"

definition parseAttendanceRecords ::
    "ADMSServer \<Rightarrow> string \<Rightarrow> string \<Rightarrow> location option \<Rightarrow> AttendanceRecord list" where
  "parseAttendanceRecords s data serialNumber loc =
     fst (attLoop (localZone s) (attLocation s loc) serialNumber (Split NL (TrimSpace data)) ([], 0))"

subsection \<open>Key-value payloads\<close>

definition trimTildePrefix :: "string \<Rightarrow> string" where
  "trimTildePrefix s = TrimPrefix s ''~''"

text \<open>One part of a payload: its key and value, when it has an equals sign.\<close>

definition kvPart :: "(string \<Rightarrow> string) option \<Rightarrow> string \<Rightarrow> (string \<times> string) option" where
  "kvPart transformKey part =
     (case Cut CHR ''='' (TrimSpace part) of
        None \<Rightarrow> None
      | Some (key, value) \<Rightarrow>
          (let k = TrimSpace key;
               k' = (case transformKey of None \<Rightarrow> k | Some f \<Rightarrow> f k)
           in Some (k', TrimSpace value)))"

fun kvLoop :: "(string \<Rightarrow> string) option \<Rightarrow> string list \<Rightarrow> info \<Rightarrow> info" where
  "kvLoop f [] m = m"
| "kvLoop f (part # parts) m =
     (case kvPart f part of
        None \<Rightarrow> kvLoop f parts m
      | Some (k, v) \<Rightarrow> kvLoop f parts (fmupd k v m))"

definition parseKVPairs :: "string \<Rightarrow> char \<Rightarrow> (string \<Rightarrow> string) option \<Rightarrow> info" where
  "parseKVPairs data sep transformKey =
     kvLoop transformKey (Split sep (TrimSpace data)) fmempty"

subsection \<open>User records\<close>

text \<open>Reading a Go map: the zero value for a missing key.\<close>

definition fmget :: "info \<Rightarrow> string \<Rightarrow> string" where
  "fmget m k = (case fmlookup m k of None \<Rightarrow> [] | Some v \<Rightarrow> v)"

text \<open>The fields of a line.  Unlike in \<^const>\<open>kvPart\<close> the part is not trimmed as a whole, but its
  key and value are.\<close>

definition userPart :: "string \<Rightarrow> (string \<times> string) option" where
  "userPart part =
     (case Cut CHR ''='' part of
        None \<Rightarrow> None
      | Some (key, value) \<Rightarrow> Some (TrimSpace key, TrimSpace value))"

fun userFields :: "string list \<Rightarrow> info \<Rightarrow> info" where
  "userFields [] m = m"
| "userFields (part # parts) m =
     (case userPart part of
        None \<Rightarrow> userFields parts m
      | Some (k, v) \<Rightarrow> userFields parts (fmupd k v m))"

definition parseUserLine :: "string \<Rightarrow> UserRecord option" where
  "parseUserLine line =
     (let fields = userFields (Split TAB line) fmempty;
          pin = fmget fields ''PIN''
      in if pin = [] then None
         else Some
           \<lparr>PIN = pin, Name = fmget fields ''Name'',
            Privilege = fst (Atoi (fmget fields ''Privilege'')),
            Card = fmget fields ''Card'', Password = fmget fields ''Password''\<rparr>)"

fun userLoop :: "string list \<Rightarrow> UserRecord list \<times> nat \<Rightarrow> UserRecord list \<times> nat" where
  "userLoop [] acc = acc"
| "userLoop (line0 # lines) (records, skipped) =
     (let line = TrimRightCR line0 in
      if line = [] then userLoop lines (records, skipped)
      else (case parseUserLine line of
          None \<Rightarrow> userLoop lines (records, skipped + 1)
        | Some r \<Rightarrow> userLoop lines (records @ [r], skipped)))"

definition parseUserRecords :: "string \<Rightarrow> UserRecord list" where
  "parseUserRecords data = fst (userLoop (Split NL (TrimSpace data)) ([], 0))"

subsection \<open>Command confirmations\<close>

text \<open>The variables of the parser: the results so far, the one being built, and whether it has
  an ID.\<close>

record cmd_parse =
  cp_results :: "CommandResult list"
  cp_current :: CommandResult
  cp_hasID :: bool

definition emptyResult :: "string \<Rightarrow> CommandResult" where
  "emptyResult sn =
     \<lparr>cr_SerialNumber = sn, cr_ID = 0, ReturnCode = 0, cr_Command = [], QueuedCommand = []\<rparr>"

definition cmdFlush :: "string \<Rightarrow> cmd_parse \<Rightarrow> cmd_parse" where
  "cmdFlush sn p =
     \<lparr>cp_results = (if cp_hasID p then cp_results p @ [cp_current p] else cp_results p),
      cp_current = emptyResult sn, cp_hasID = False\<rparr>"

text \<open>The \<open>switch\<close> on the key of one pair.\<close>

definition cmdPair :: "string \<Rightarrow> string \<Rightarrow> string \<Rightarrow> cmd_parse \<Rightarrow> cmd_parse" where
  "cmdPair sn key value p =
     (let label = ToUpper (TrimSpace key) in
      if label = ''ID'' then
        (case ParseInt (TrimSpace value) of
           (_, Some _) \<Rightarrow> p
         | (i, None) \<Rightarrow>
             (let q = (if cp_hasID p then cmdFlush sn p else p)
              in q\<lparr>cp_current := (cp_current q)\<lparr>cr_ID := word_of_int i\<rparr>, cp_hasID := True\<rparr>))
      else if label = ''RETURN'' then
        (case Atoi (TrimSpace value) of
           (code, None) \<Rightarrow> p\<lparr>cp_current := (cp_current p)\<lparr>ReturnCode := code\<rparr>\<rparr>
         | (_, Some _) \<Rightarrow> p)
      else if label = ''CMD'' then
        p\<lparr>cp_current := (cp_current p)\<lparr>cr_Command := TrimSpace value\<rparr>\<rparr>
      else p)"

definition cmdPart :: "string \<Rightarrow> string \<Rightarrow> cmd_parse \<Rightarrow> cmd_parse" where
  "cmdPart sn part0 p =
     (let part = TrimSpace part0 in
      if part = [] then p
      else (case Cut CHR ''='' part of
          None \<Rightarrow> p
        | Some (key, value) \<Rightarrow> cmdPair sn key value p))"

fun cmdLoop :: "string \<Rightarrow> string list \<Rightarrow> cmd_parse \<Rightarrow> cmd_parse" where
  "cmdLoop sn [] p = p"
| "cmdLoop sn (part # parts) p = cmdLoop sn parts (cmdPart sn part p)"

definition parseCommandResults :: "string \<Rightarrow> string \<Rightarrow> CommandResult list" where
  "parseCommandResults body sn =
     cp_results (cmdFlush sn
       (cmdLoop sn (Split CHR ''&'' (ReplaceAll body NL CHR ''&''))
         \<lparr>cp_results = [], cp_current = emptyResult sn, cp_hasID = False\<rparr>))"

subsection \<open>Query strings\<close>

text \<open>
  \<open>ParseQueryParams\<close>.  \<open>url.Parse\<close> is an argument: it gives the raw query of a URL, or an error
  text.  The first value of each key is kept.
\<close>

definition ParseQueryParams :: "(string \<Rightarrow> string + string) \<Rightarrow> string \<Rightarrow> string + info" where
  "ParseQueryParams urlParse urlStr =
     (case urlParse urlStr of
        Inl err \<Rightarrow> Inl (''parse URL: '' @ err)
      | Inr rawQuery \<Rightarrow> Inr (fmap_of_list (ParseQuery rawQuery)))"

subsection \<open>What each parser computes\<close>

lemma serialChar_graphic: "serialChar c \<Longrightarrow> graphic c"
  unfolding serialChar_def graphic_def of_char_int Let_def by linarith

lemma validateSerialNumber_None:
  "validateSerialNumber sn = None \<longleftrightarrow> sn \<noteq> [] \<and> length sn \<le> 64 \<and> list_all serialChar sn"
  by (auto simp: validateSerialNumber_def serialNumberRe_def maxSerialNumberLength_def Suc_le_eq)

lemma validateSerialNumber_Some:
  "validateSerialNumber sn = Some e \<Longrightarrow> \<exists>why. e = ErrInvalidSerialNumber why"
  by (auto simp: validateSerialNumber_def split: if_splits)

text \<open>The non-empty lines of a payload, without their line ends.\<close>

definition payloadLines :: "string \<Rightarrow> string list" where
  "payloadLines data = filter (\<lambda>l. l \<noteq> []) (map TrimRightCR (Split NL (TrimSpace data)))"

lemma attLoop_eq:
  "attLoop local loc sn ls (rs, n) =
     (let ok = filter (\<lambda>l. l \<noteq> []) (map TrimRightCR ls) in
      (rs @ List.map_filter (parseAttLine local loc sn) ok,
       n + length (filter (\<lambda>l. parseAttLine local loc sn l = None) ok)))"
  by (induction ls arbitrary: rs n) (auto simp: Let_def split: option.splits)

lemma parseAttendanceRecords_eq:
  "parseAttendanceRecords s data sn loc =
     List.map_filter (parseAttLine (localZone s) (attLocation s loc) sn) (payloadLines data)"
  by (simp add: parseAttendanceRecords_def attLoop_eq payloadLines_def Let_def)

lemma userLoop_eq:
  "userLoop ls (rs, n) =
     (let ok = filter (\<lambda>l. l \<noteq> []) (map TrimRightCR ls) in
      (rs @ List.map_filter parseUserLine ok,
       n + length (filter (\<lambda>l. parseUserLine l = None) ok)))"
  by (induction ls arbitrary: rs n) (auto simp: Let_def split: option.splits)

lemma parseUserRecords_eq: "parseUserRecords data = List.map_filter parseUserLine (payloadLines data)"
  by (simp add: parseUserRecords_def userLoop_eq payloadLines_def Let_def)

text \<open>What a parsed field can hold.\<close>

lemma attInt_range: "is_int64 (attInt parts i)"
  using ParseInt_range [of "parts ! i"]
  by (auto simp: attInt_def Atoi_def is_int64_def minInt64_def maxInt64_def split: prod.splits option.splits)

definition att_wf :: "string \<Rightarrow> AttendanceRecord \<Rightarrow> bool" where
  "att_wf sn r \<longleftrightarrow>
     ar_SerialNumber r = sn \<and> UserID r \<noteq> [] \<and> trimmed (UserID r) \<and> TAB \<notin> set (UserID r)
     \<and> is_int64 (Status r) \<and> is_int64 (VerifyMode r) \<and> TAB \<notin> set (WorkCode r)"

lemma parseAttLine_wf:
  assumes "parseAttLine local loc sn line = Some r"
  shows "att_wf sn r"
proof -
  have tab: "TAB \<notin> set (Split TAB line ! i)" if "i < length (Split TAB line)" for i
    using that by (meson Split_no_sep nth_mem)
  have "TAB \<notin> set (TrimSpace (Split TAB line ! i))" if "i < length (Split TAB line)" for i
    using tab [OF that] set_TrimSpace by blast
  with assms tab show ?thesis
    by (auto simp: parseAttLine_def att_wf_def att_defs Let_def trimmed_TrimSpace attInt_range
        split: if_splits option.splits)
qed

text \<open>Where an accepted timestamp comes from: the text in the location, or an epoch.\<close>

lemma attTimestamp_cases:
  "attTimestamp local loc s = Some t \<Longrightarrow>
     (\<exists>w. parseStamp s = Some w \<and> t = Date loc w)
     \<or> parseStamp s = None \<and> (\<exists>e. intOf s = Some e \<and> t = unixTime local e 0 \<and> Unix t = e)"
  using ParseInt_range [of s]
  by (auto simp: attTimestamp_def ParseInLocation_def intOf_def Unix_unixTime split: option.splits prod.splits)

text \<open>The last part with a key gives the key its value.\<close>

lemma fmlookup_kvLoop:
  "fmlookup (kvLoop f parts m) k =
     (case map_of (rev (List.map_filter (kvPart f) parts)) k of None \<Rightarrow> fmlookup m k | Some v \<Rightarrow> Some v)"
  by (induction parts arbitrary: m) (auto simp: map_add_def split: option.splits)

lemma fmlookup_parseKVPairs:
  "fmlookup (parseKVPairs data sep f) k =
     map_of (rev (List.map_filter (kvPart f) (Split sep (TrimSpace data)))) k"
  by (simp add: parseKVPairs_def fmlookup_kvLoop split: option.splits)

lemma fmlookup_userFields:
  "fmlookup (userFields parts m) k =
     (case map_of (rev (List.map_filter userPart parts)) k of None \<Rightarrow> fmlookup m k | Some v \<Rightarrow> Some v)"
  by (induction parts arbitrary: m) (auto simp: map_add_def split: option.splits)

text \<open>The IDs a confirmation body names, and the ones a parser state has met.\<close>

definition cmdPartID :: "string \<Rightarrow> int option" where
  "cmdPartID part =
     (case Cut CHR ''='' (TrimSpace part) of
        None \<Rightarrow> None
      | Some (key, value) \<Rightarrow>
          if ToUpper (TrimSpace key) = ''ID'' then intOf (TrimSpace value) else None)"

definition cmdParts :: "string \<Rightarrow> string list" where
  "cmdParts body = Split CHR ''&'' (ReplaceAll body NL CHR ''&'')"

definition cmd_all :: "cmd_parse \<Rightarrow> CommandResult list" where
  "cmd_all p = cp_results p @ (if cp_hasID p then [cp_current p] else [])"

definition cmd_start :: "string \<Rightarrow> cmd_parse" where
  "cmd_start sn = \<lparr>cp_results = [], cp_current = emptyResult sn, cp_hasID = False\<rparr>"

lemma cp_results_cmdFlush: "cp_results (cmdFlush sn p) = cmd_all p"
  by (simp add: cmdFlush_def cmd_all_def)

lemma parseCommandResults_eq:
  "parseCommandResults body sn = cmd_all (cmdLoop sn (cmdParts body) (cmd_start sn))"
  by (simp add: parseCommandResults_def cp_results_cmdFlush cmdParts_def cmd_start_def)

lemma cmdPart_ids:
  "map cr_ID (cmd_all (cmdPart sn part p)) =
     map cr_ID (cmd_all p) @ (case cmdPartID part of None \<Rightarrow> [] | Some i \<Rightarrow> [word_of_int i])"
proof (cases "Cut CHR ''='' (TrimSpace part)")
  case None
  then show ?thesis by (simp add: cmdPart_def cmdPartID_def Let_def)
next
  case (Some kv)
  then have "TrimSpace part \<noteq> []" by (auto simp: Cut_Some_iff)
  with Some show ?thesis
    by (auto simp: cmdPart_def cmdPartID_def cmdPair_def cmdFlush_def cmd_all_def intOf_def Let_def
        split: prod.splits option.splits)
qed

lemma cmdLoop_ids:
  "map cr_ID (cmd_all (cmdLoop sn parts p)) =
     map cr_ID (cmd_all p) @ map word_of_int (List.map_filter cmdPartID parts)"
  by (induction parts arbitrary: p) (auto simp: cmdPart_ids split: option.splits)

text \<open>What holds of every result, and of the one under construction.\<close>

definition result_wf :: "string \<Rightarrow> CommandResult \<Rightarrow> bool" where
  "result_wf sn r \<longleftrightarrow> cr_SerialNumber r = sn \<and> is_int64 (ReturnCode r) \<and> QueuedCommand r = []"

definition parse_wf :: "string \<Rightarrow> cmd_parse \<Rightarrow> bool" where
  "parse_wf sn p \<longleftrightarrow> list_all (result_wf sn) (cp_results p) \<and> result_wf sn (cp_current p)"

lemma emptyResult_wf [simp]: "result_wf sn (emptyResult sn)"
  by (simp add: result_wf_def emptyResult_def is_int64_def minInt64_def maxInt64_def)

lemma cmdFlush_wf: "parse_wf sn p \<Longrightarrow> parse_wf sn (cmdFlush sn p)"
  by (simp add: parse_wf_def cmdFlush_def)

lemma cmdPart_wf:
  assumes "parse_wf sn p"
  shows "parse_wf sn (cmdPart sn part p)"
  using assms cmdFlush_wf [OF assms]
  by (auto simp: cmdPart_def cmdPair_def Let_def parse_wf_def result_wf_def Atoi_def
      dest: ParseInt_range split: prod.splits option.splits)

lemma cmdLoop_wf: "parse_wf sn p \<Longrightarrow> parse_wf sn (cmdLoop sn parts p)"
  by (induction parts arbitrary: p) (auto intro: cmdPart_wf)

lemma parseCommandResults_wf: "r \<in> set (parseCommandResults body sn) \<Longrightarrow> result_wf sn r"
  using cmdLoop_wf [of sn "cmd_start sn" "cmdParts body"]
  by (auto simp: parseCommandResults_eq cmd_all_def parse_wf_def cmd_start_def list_all_iff
      split: if_splits)

subsection \<open>Properties\<close>

text \<open>The attendance loop keeps exactly the lines that parse, in order, and every record it yields
  is well-formed: it carries the device's serial number and a non-empty, trimmed user ID, and its
  numbers fit in 64 bits.\<close>

lemma attendance_parsed:
  "parseAttendanceRecords s data sn loc
     = List.map_filter (parseAttLine (localZone s) (attLocation s loc) sn) (payloadLines data)
   \<and> list_all (att_wf sn) (parseAttendanceRecords s data sn loc)"
proof -
  have "list_all (att_wf sn) (List.map_filter (parseAttLine local lc sn) ls)" for local lc ls
    by (induction ls) (auto dest: parseAttLine_wf split: option.split)
  then show ?thesis by (simp add: parseAttendanceRecords_eq)
qed

text \<open>A record's timestamp is never made up: it is the wall-clock text of the line in the location
  passed, or, where the text is no such stamp, the instant of its epoch number.\<close>

lemma timestamp_provenance:
  assumes "parseAttLine local loc sn line = Some r"
  shows "(\<exists>w. parseStamp (Split TAB line ! 1) = Some w \<and> Timestamp r = Date loc w)
    \<or> parseStamp (Split TAB line ! 1) = None
      \<and> (\<exists>e. intOf (Split TAB line ! 1) = Some e \<and> Unix (Timestamp r) = e)"
proof -
  have "attTimestamp local loc (Split TAB line ! 1) = Some (Timestamp r)"
    using assms by (auto simp: parseAttLine_def att_defs Let_def split: if_splits option.splits)
  from attTimestamp_cases [OF this] show ?thesis by blast
qed

text \<open>In a key-value payload the last part with a key decides its value, keys and values being
  trimmed and the key transformed; a key no part has is absent.\<close>

lemma kv_last_wins:
  "fmlookup (parseKVPairs data sep f) k
     = map_of (rev (List.map_filter (kvPart f) (Split sep (TrimSpace data)))) k"
  by (rule fmlookup_parseKVPairs)

text \<open>A confirmation body yields one result for each part that names a parseable ID, in order; each
  carries the device's serial number and a 64-bit return code, and no queued command yet.\<close>

lemma results_by_ID:
  "map cr_ID (parseCommandResults body sn) = map word_of_int (List.map_filter cmdPartID (cmdParts body))
   \<and> list_all (result_wf sn) (parseCommandResults body sn)"
proof
  have "map cr_ID (cmd_all (cmdLoop sn (cmdParts body) (cmd_start sn)))
      = map cr_ID (cmd_all (cmd_start sn)) @ map word_of_int (List.map_filter cmdPartID (cmdParts body))"
    by (rule cmdLoop_ids)
  then show "map cr_ID (parseCommandResults body sn)
      = map word_of_int (List.map_filter cmdPartID (cmdParts body))"
    by (simp add: parseCommandResults_eq cmd_all_def cmd_start_def)
  show "list_all (result_wf sn) (parseCommandResults body sn)"
    using parseCommandResults_wf by (auto simp: list_all_iff)
qed

text \<open>A part with an ID that does not parse leaves the previous result open, so the return code that
  follows it overwrites the return code of the previous command.\<close>

lemma bad_ID_overwrites_previous:
  "parseCommandResults ''ID=1&Return=0&ID=x&Return=-1'' ''S''
     = [\<lparr>cr_SerialNumber = ''S'', cr_ID = 1, ReturnCode = -1, cr_Command = [], QueuedCommand = []\<rparr>]"
  by code_simp

text \<open>A preview shows the body itself, or its first 200 bytes and an ellipsis; it is never longer
  than 203 bytes.\<close>

lemma preview_bounded:
  "length (bodyPreview body) \<le> 203
   \<and> bodyPreview body \<in> {body, take 200 body @ ''...''}"
  by (auto simp: bodyPreview_def maxBodyPreviewLen_def)

end
