(* ===== verification/Adms_Devices.thy ===== *)
theory Adms_Devices
  imports Adms_Parser
begin

section \<open>Device management (\<open>device.go\<close>)\<close>

text \<open>
  The registry of devices: a finite map from serial numbers.  Clock readings are arguments
  (\<open>now\<close>), and so is the order in which Go's runtime ranges over a map, a permutation of its keys.
  A \<open>DeviceOption\<close> is any function on the device.  The locale \<open>registry\<close> is what the handlers
  rely on; it is interpreted on the definitions here.
\<close>

subsection \<open>Operations\<close>

definition isDeviceOnline :: "int \<Rightarrow> Device option \<Rightarrow> ADMSServer \<Rightarrow> bool" where
  "isDeviceOnline now device s =
     (case device of
        None \<Rightarrow> False
      | Some d \<Rightarrow> Sub now (LastActivity d) \<le> onlineThreshold s)"

fun applyDeviceOptions :: "(Device \<Rightarrow> Device) list \<Rightarrow> Device \<Rightarrow> Device" where
  "applyDeviceOptions [] d = d"
| "applyDeviceOptions (opt # opts) d = applyDeviceOptions opts (opt d)"

text \<open>An error result is the error; the other component is the server afterwards.  The device is
  stored before the options run on it, as in the source, where they share the pointer.\<close>

definition RegisterDevice ::
    "int \<Rightarrow> string \<Rightarrow> (Device \<Rightarrow> Device) list \<Rightarrow> ADMSServer \<Rightarrow> adms_error option \<times> ADMSServer" where
  "RegisterDevice now sn opts s =
     (case validateSerialNumber sn of
        Some err \<Rightarrow> (Some err, s)
      | None \<Rightarrow>
          (case fmlookup (devices s) sn of
             None \<Rightarrow>
               if 0 < maxDevices s \<and> maxDevices s \<le> int (fmsize (devices s))
               then (Some ErrMaxDevicesReached, s)
               else (None, s\<lparr>devices := fmupd sn (applyDeviceOptions opts
                      \<lparr>SerialNumber = sn, LastActivity = now, Options = fmempty, Timezone = None\<rparr>)
                      (devices s)\<rparr>)
           | Some dev \<Rightarrow>
               (None, s\<lparr>devices := fmupd sn (applyDeviceOptions opts dev) (devices s)\<rparr>)))"

definition GetDevice :: "string \<Rightarrow> ADMSServer \<Rightarrow> Device option" where
  "GetDevice sn s = map_option Device_copy (fmlookup (devices s) sn)"

definition IsDeviceOnline :: "int \<Rightarrow> string \<Rightarrow> ADMSServer \<Rightarrow> bool" where
  "IsDeviceOnline now sn s = isDeviceOnline now (fmlookup (devices s) sn) s"

definition SetDeviceTimezone ::
    "string \<Rightarrow> location option \<Rightarrow> ADMSServer \<Rightarrow> adms_error option \<times> ADMSServer" where
  "SetDeviceTimezone sn loc s =
     (case fmlookup (devices s) sn of
        None \<Rightarrow> (Some ErrDeviceNotFound, s)
      | Some d \<Rightarrow> (None, s\<lparr>devices := fmupd sn (d\<lparr>Timezone := loc\<rparr>) (devices s)\<rparr>))"

definition deviceLocationLocked :: "string \<Rightarrow> ADMSServer \<Rightarrow> location" where
  "deviceLocationLocked sn s =
     (case Option.bind (fmlookup (devices s) sn) Timezone of
        Some l \<Rightarrow> l
      | None \<Rightarrow> (case defaultTimezone s of Some l \<Rightarrow> l | None \<Rightarrow> UTC))"

definition GetDeviceTimezone :: "string \<Rightarrow> ADMSServer \<Rightarrow> location option" where
  "GetDeviceTimezone sn s =
     (if fmlookup (devices s) sn = None then None else Some (deviceLocationLocked sn s))"

text \<open>Ranging over the device map in the runtime's order.\<close>

definition ListDevices :: "string list \<Rightarrow> ADMSServer \<Rightarrow> Device list" where
  "ListDevices order s = List.map_filter (\<lambda>sn. map_option Device_copy (fmlookup (devices s) sn)) order"

definition updateDeviceActivity :: "int \<Rightarrow> string \<Rightarrow> ADMSServer \<Rightarrow> ADMSServer" where
  "updateDeviceActivity now sn s =
     (case fmlookup (devices s) sn of
        None \<Rightarrow> s
      | Some device \<Rightarrow> s\<lparr>devices := fmupd sn (device\<lparr>LastActivity := now\<rparr>) (devices s)\<rparr>)"

lemmas device_defs [adms_defs] =
  RegisterDevice_def SetDeviceTimezone_def updateDeviceActivity_def

text \<open>A Go map's keys in some order.\<close>

definition iteration :: "'k list \<Rightarrow> ('k, 'v) fmap \<Rightarrow> bool" where
  "iteration order m \<longleftrightarrow> distinct order \<and> set order = fset (fmdom m)"

subsection \<open>What they leave alone\<close>

text \<open>Everything outside the registry of devices.\<close>

definition rest_of :: "ADMSServer \<Rightarrow> ADMSServer" where
  "rest_of s = s\<lparr>devices := fmempty\<rparr>"

lemma rest_of_update [simp]: "rest_of (s\<lparr>devices := m\<rparr>) = rest_of s"
  by (simp add: rest_of_def)

lemma rest_of_eqD:
  assumes "rest_of s = rest_of t"
  shows "commandQueue s = commandQueue t" "pendingCommands s = pendingCommands t" "cmdID s = cmdID t"
    "callbackCh s = callbackCh t" "cbLog s = cbLog t" "closing s = closing t"
    "maxDevices s = maxDevices t" "maxCommandsPerDevice s = maxCommandsPerDevice t"
    "onlineThreshold s = onlineThreshold t" "maxBodySize s = maxBodySize t"
    "callbackBufferSize s = callbackBufferSize t"
  using assms by (simp_all add: rest_of_def)
    (metis (no_types) ADMSServer.select_convs ADMSServer.surjective ADMSServer.update_convs(1))+

lemma rest_of_RegisterDevice [frame]: "rest_of (snd (RegisterDevice now sn opts s)) = rest_of s"
  by (simp add: RegisterDevice_def split: option.split)

lemma rest_of_SetDeviceTimezone [frame]: "rest_of (snd (SetDeviceTimezone sn loc s)) = rest_of s"
  by (simp add: SetDeviceTimezone_def split: option.split)

lemma rest_of_updateDeviceActivity [frame]: "rest_of (updateDeviceActivity now sn s) = rest_of s"
  by (simp add: updateDeviceActivity_def split: option.split)

subsection \<open>The contract of the registry\<close>

text \<open>
  What a handler needs to know: a registration that succeeds makes the device known, one that fails
  changes nothing, a known device is always accepted, and neither registering nor touching a device
  affects another.
\<close>

locale registry =
  fixes known :: "string \<Rightarrow> 's \<Rightarrow> Device option"
    and register :: "int \<Rightarrow> string \<Rightarrow> 's \<Rightarrow> adms_error option \<times> 's"
    and touch :: "int \<Rightarrow> string \<Rightarrow> 's \<Rightarrow> 's"
    and valid :: "string \<Rightarrow> bool"
  assumes register_ok: "register now sn s = (None, t) \<Longrightarrow> known sn t \<noteq> None \<and> valid sn"
    and register_err: "register now sn s = (Some e, t) \<Longrightarrow> t = s"
    and register_known: "known sn s = Some d \<Longrightarrow> valid sn \<Longrightarrow> register now sn s = (None, s)"
    and register_other: "sn' \<noteq> sn \<Longrightarrow> known sn' (snd (register now sn s)) = known sn' s"
    and touch_known: "known sn (touch now sn s) = map_option (\<lambda>d. d\<lparr>LastActivity := now\<rparr>) (known sn s)"
    and touch_other: "sn' \<noteq> sn \<Longrightarrow> known sn' (touch now sn s) = known sn' s"
begin

text \<open>Register, then record the activity: the first part of every handler.\<close>

definition admit :: "int \<Rightarrow> int \<Rightarrow> string \<Rightarrow> 's \<Rightarrow> adms_error option \<times> 's" where
  "admit now now' sn s =
     (case register now sn s of
        (Some e, t) \<Rightarrow> (Some e, t)
      | (None, t) \<Rightarrow> (None, touch now' sn t))"

lemma admit_ok:
  "admit now now' sn s = (None, t) \<Longrightarrow> valid sn \<and> (\<exists>d. known sn t = Some d \<and> LastActivity d = now')"
  using register_ok [of now sn s]
  by (auto simp: admit_def touch_known split: prod.splits option.splits)

lemma admit_err: "admit now now' sn s = (Some e, t) \<Longrightarrow> t = s"
  using register_err [of now sn s] by (auto simp: admit_def split: prod.splits option.splits)

lemma admit_other: "sn' \<noteq> sn \<Longrightarrow> known sn' (snd (admit now now' sn s)) = known sn' s"
  using register_other [of sn' sn now s]
  by (auto simp: admit_def touch_other split: prod.splits option.splits)

text \<open>A device admitted once is admitted again, whatever the limit.\<close>

lemma admit_again:
  assumes "admit now now' sn s = (None, t)"
  shows "fst (admit now2 now2' sn t) = None"
proof -
  obtain d where "known sn t = Some d" "valid sn"
    using admit_ok [OF assms] by blast
  then show ?thesis by (simp add: admit_def register_known)
qed

end

definition valid_sn :: "string \<Rightarrow> bool" where
  "valid_sn sn \<longleftrightarrow> validateSerialNumber sn = None"

interpretation reg: registry "\<lambda>sn s. fmlookup (devices s) sn" "\<lambda>now sn. RegisterDevice now sn []"
    updateDeviceActivity valid_sn
  by unfold_locales
    (auto simp: RegisterDevice_def updateDeviceActivity_def valid_sn_def fmupd_lookup fmlookup_inject
      fmap_ext split: option.splits if_splits
      intro!: ADMSServer.equality fmap_ext)

subsection \<open>The invariant of the registry\<close>

text \<open>Every device is stored under its own, valid serial number, and a limit is respected.\<close>

definition dev_inv :: "ADMSServer \<Rightarrow> bool" where
  "dev_inv s \<longleftrightarrow>
     fmpred (\<lambda>sn d. SerialNumber d = sn \<and> valid_sn sn) (devices s)
     \<and> (0 < maxDevices s \<longrightarrow> int (fmsize (devices s)) \<le> maxDevices s)"

lemma dev_inv_pristine: "pristine s \<Longrightarrow> dev_inv s"
  by (simp add: pristine_def dev_inv_def)

lemma dev_inv_cong: "devices s = devices t \<Longrightarrow> maxDevices s = maxDevices t \<Longrightarrow> dev_inv s = dev_inv t"
  by (simp add: dev_inv_def)

text \<open>Options of a registration may change anything but the serial number.\<close>

definition keeps_serial :: "(Device \<Rightarrow> Device) list \<Rightarrow> bool" where
  "keeps_serial opts \<longleftrightarrow> (\<forall>opt \<in> set opts. \<forall>d. SerialNumber (opt d) = SerialNumber d)"

lemma keeps_serial_Nil [simp]: "keeps_serial []"
  by (simp add: keeps_serial_def)

lemma keeps_serial_timezone: "keeps_serial (map WithDeviceTimezone ls)"
  by (auto simp: keeps_serial_def WithDeviceTimezone_def)

lemma SerialNumber_applyDeviceOptions:
  "keeps_serial opts \<Longrightarrow> SerialNumber (applyDeviceOptions opts d) = SerialNumber d"
  by (induction opts arbitrary: d) (auto simp: keeps_serial_def)

lemma dev_inv_upd_old:
  "dev_inv s \<Longrightarrow> fmlookup (devices s) sn = Some d \<Longrightarrow> SerialNumber d' = SerialNumber d \<Longrightarrow>
    dev_inv (s\<lparr>devices := fmupd sn d' (devices s)\<rparr>)"
  by (auto simp: dev_inv_def fmsize_upd_old fmpred_iff)

lemma dev_inv_RegisterDevice [inv_intros]:
  assumes "dev_inv s" "keeps_serial opts"
  shows "dev_inv (snd (RegisterDevice now sn opts s))"
proof (cases "fmlookup (devices s) sn")
  case None
  with assms show ?thesis
    by (auto simp: RegisterDevice_def dev_inv_def valid_sn_def fmsize_upd_new fmpred_iff
        SerialNumber_applyDeviceOptions split: option.split)
next
  case (Some d)
  with assms show ?thesis
    by (auto simp: RegisterDevice_def SerialNumber_applyDeviceOptions split: option.split
        intro: dev_inv_upd_old)
qed

lemma dev_inv_SetDeviceTimezone [inv_intros]: "dev_inv s \<Longrightarrow> dev_inv (snd (SetDeviceTimezone sn loc s))"
  by (auto simp: SetDeviceTimezone_def split: option.split intro: dev_inv_upd_old)

lemma dev_inv_updateDeviceActivity [inv_intros]: "dev_inv s \<Longrightarrow> dev_inv (updateDeviceActivity now sn s)"
  by (auto simp: updateDeviceActivity_def split: option.split intro: dev_inv_upd_old)

text \<open>Which devices an operation makes known.\<close>

lemma fmdom_RegisterDevice:
  "fmdom (devices (snd (RegisterDevice now sn opts s))) =
     (if fst (RegisterDevice now sn opts s) = None then finsert sn (fmdom (devices s)) else fmdom (devices s))"
  by (auto simp: RegisterDevice_def split: option.splits)

lemma fmdom_SetDeviceTimezone: "fmdom (devices (snd (SetDeviceTimezone sn loc s))) = fmdom (devices s)"
  by (auto simp: SetDeviceTimezone_def dest: fmdomI split: option.splits)

lemma fmdom_updateDeviceActivity: "fmdom (devices (updateDeviceActivity now sn s)) = fmdom (devices s)"
  by (auto simp: updateDeviceActivity_def dest: fmdomI split: option.splits)

text \<open>A listing shows each device once.\<close>

lemma ListDevices_eq:
  "iteration order (devices s) \<Longrightarrow> ListDevices order s = map (\<lambda>sn. the (fmlookup (devices s) sn)) order"
proof -
  assume "iteration order (devices s)"
  then have "\<forall>sn \<in> set order. fmlookup (devices s) sn \<noteq> None"
    by (auto simp: iteration_def fmlookup_dom_iff)
  then show ?thesis
    unfolding ListDevices_def by (induction order) auto
qed

lemma ListDevices_serials:
  assumes "dev_inv s" "iteration order (devices s)"
  shows "map SerialNumber (ListDevices order s) = order"
proof -
  have "SerialNumber (the (fmlookup (devices s) sn)) = sn" if "sn \<in> set order" for sn
    using assms that by (auto simp: iteration_def dev_inv_def fmpred_iff fmlookup_dom_iff)
  then show ?thesis by (simp add: ListDevices_eq [OF assms(2)] map_idI)
qed

subsection \<open>Properties\<close>

text \<open>The device limit holds and every device is stored under its own valid serial number after any
  registration, and registering a known device never fails, full or not.\<close>

lemma registration_invariant:
  assumes "dev_inv s" "keeps_serial opts"
  shows "dev_inv (snd (RegisterDevice now sn opts s))
    \<and> (fst (RegisterDevice now sn opts s) = None) =
        (valid_sn sn \<and> (sn |\<in>| fmdom (devices s)
           \<or> maxDevices s \<le> 0 \<or> int (fmsize (devices s)) < maxDevices s))"
proof
  show "dev_inv (snd (RegisterDevice now sn opts s))" by (rule dev_inv_RegisterDevice [OF assms])
  show "(fst (RegisterDevice now sn opts s) = None) =
        (valid_sn sn \<and> (sn |\<in>| fmdom (devices s)
           \<or> maxDevices s \<le> 0 \<or> int (fmsize (devices s)) < maxDevices s))"
    by (auto simp: RegisterDevice_def valid_sn_def dest: fmdomI split: option.splits)
qed

text \<open>A registration that fails changes nothing, and one that succeeds leaves every other device and
  all queues, pending commands and callbacks as they were.\<close>

lemma registration_frame:
  "(if fst (RegisterDevice now sn opts s) = None
    then rest_of (snd (RegisterDevice now sn opts s)) = rest_of s
      \<and> fmdrop sn (devices (snd (RegisterDevice now sn opts s))) = fmdrop sn (devices s)
      \<and> fmlookup (devices (snd (RegisterDevice now sn opts s))) sn \<noteq> None
    else snd (RegisterDevice now sn opts s) = s)"
  by (auto simp: RegisterDevice_def split: option.split intro!: fmap_ext)

text \<open>After a request of a device it is online exactly until the threshold has passed, and
  once it is offline it stays so without a new request.\<close>

lemma online_until_threshold:
  assumes "fmlookup (devices s) sn = Some d" "0 < onlineThreshold s" "onlineThreshold s < maxInt64"
  shows "IsDeviceOnline t' sn (updateDeviceActivity t sn s) = (t' - t \<le> onlineThreshold s)"
proof -
  have "is_int64 (onlineThreshold s)"
    using assms(2,3) by (simp add: is_int64_def minInt64_def)
  then show ?thesis
    using assms Sub_le_iff [of "onlineThreshold s" t' t]
    by (simp add: IsDeviceOnline_def isDeviceOnline_def updateDeviceActivity_def)
qed

text \<open>The effective timezone of a device is the one set for it, or, after it is cleared, the server's
  default, or UTC; setting it never affects another device.\<close>

lemma timezone_resolution:
  "(if sn |\<in>| fmdom (devices s)
    then fst (SetDeviceTimezone sn loc s) = None
      \<and> GetDeviceTimezone sn (snd (SetDeviceTimezone sn loc s))
          = Some (case loc of Some l \<Rightarrow> l
                  | None \<Rightarrow> (case defaultTimezone s of Some l \<Rightarrow> l | None \<Rightarrow> UTC))
      \<and> fmdrop sn (devices (snd (SetDeviceTimezone sn loc s))) = fmdrop sn (devices s)
    else SetDeviceTimezone sn loc s = (Some ErrDeviceNotFound, s) \<and> GetDeviceTimezone sn s = None)"
proof (cases "fmlookup (devices s) sn")
  case None
  then show ?thesis by (simp add: SetDeviceTimezone_def GetDeviceTimezone_def fmdom_notI)
next
  case (Some d)
  then show ?thesis
    by (auto simp: SetDeviceTimezone_def GetDeviceTimezone_def deviceLocationLocked_def fmdomI
        split: option.split intro!: fmap_ext)
qed

text \<open>Whatever order the runtime ranges in, a listing has each registered device exactly once.\<close>

lemma listing_complete:
  assumes "dev_inv s" "iteration order (devices s)"
  shows "map SerialNumber (ListDevices order s) = order
    \<and> set (ListDevices order s) = {d. \<exists>sn. GetDevice sn s = Some d}
    \<and> distinct (ListDevices order s)"
proof -
  have m: "map SerialNumber (ListDevices order s) = order" by (rule ListDevices_serials [OF assms])
  have "set (ListDevices order s) = {d. \<exists>sn. fmlookup (devices s) sn = Some d}"
    using assms(2) unfolding ListDevices_eq [OF assms(2)]
    by (force simp: iteration_def fmlookup_dom_iff image_iff)
  moreover have "distinct (ListDevices order s)"
    using m assms(2) by (metis distinct_map iteration_def)
  ultimately show ?thesis using m by (simp add: GetDevice_def)
qed

end
