(* ===== verification/Adms_Texts.thy ===== *)
theory Adms_Texts
  imports Adms_Parser
begin

section \<open>The texts a device sends, and what the server reads in them\<close>

text \<open>
  For each payload of the protocol, the text a device makes of its data, as the comments of
  \<open>parser.go\<close> and the protocol documentation give it, and the proof that the parser recovers the
  data.  Fields are \<open>tidy\<close>: printable at both ends, without the separators of the format.
\<close>

definition field_ok :: "string \<Rightarrow> bool" where
  "field_ok s \<longleftrightarrow> tidy s \<and> TAB \<notin> set s \<and> NL \<notin> set s"

lemma field_okD: "field_ok s \<Longrightarrow> tidy s \<and> TAB \<notin> set s \<and> NL \<notin> set s \<and> TrimSpace s = s"
  by (simp add: field_ok_def TrimSpace_tidy)

lemma itoa_no_blank: "TAB \<notin> set (itoa i)" "NL \<notin> set (itoa i)" "CHR ''&'' \<notin> set (itoa i)"
    "CHR ''='' \<notin> set (itoa i)"
  by (rule itoa_avoids, simp_all add: isDigit_def)+

lemma tidy_itoa: "tidy (itoa i)"
  by (rule tidy_all) (simp add: itoa_graphic)

lemma TrimRightCR_tidy: "tidy s \<Longrightarrow> TrimRightCR s = s"
  by (rule TrimRightCR_id) (auto dest: tidy_last_not_CR)

text \<open>Payload lines as the device sends them.\<close>

lemma payloadLines_concat:
  assumes "\<forall>l \<in> set ls. tidy l \<and> l \<noteq> [] \<and> NL \<notin> set l"
  shows "payloadLines (concat (map (\<lambda>l. l @ [NL]) ls)) = ls"
proof (cases "ls = []")
  case True
  then show ?thesis by (simp add: payloadLines_def TrimRightCR_def)
next
  case False
  have "map TrimRightCR ls = ls" "filter (\<lambda>l. l \<noteq> []) ls = ls"
    using assms by (auto simp: TrimRightCR_tidy intro: map_idI filter_True)
  with False assms show ?thesis by (simp add: payloadLines_def Split_trimmed_lines)
qed

lemma map_filter_all: "\<forall>x \<in> set xs. f (g x) = Some (h x) \<Longrightarrow> List.map_filter f (map g xs) = map h xs"
  by (induction xs) auto

subsection \<open>Attendance logs\<close>

record punch =
  pu_user :: string
  pu_stamp :: stamp
  pu_status :: int
  pu_verify :: int
  pu_work :: string

definition punch_ok :: "punch \<Rightarrow> bool" where
  "punch_ok p \<longleftrightarrow> pu_user p \<noteq> [] \<and> field_ok (pu_user p) \<and> valid_stamp (pu_stamp p)
     \<and> is_int64 (pu_status p) \<and> is_int64 (pu_verify p) \<and> field_ok (pu_work p)"

definition punchFields :: "punch \<Rightarrow> string list" where
  "punchFields p =
     [pu_user p, formatStamp (pu_stamp p), itoa (pu_status p), itoa (pu_verify p)]
     @ (if pu_work p = [] then [] else [pu_work p])"

definition punchText :: "punch \<Rightarrow> string" where
  "punchText p = Join TAB (punchFields p)"

text \<open>The record the server hands to its callback for a punch.\<close>

definition punchRecord :: "location \<Rightarrow> string \<Rightarrow> punch \<Rightarrow> AttendanceRecord" where
  "punchRecord loc sn p =
     \<lparr>UserID = pu_user p, Timestamp = Date loc (pu_stamp p), Status = pu_status p,
      VerifyMode = pu_verify p, WorkCode = pu_work p, ar_SerialNumber = sn\<rparr>"

lemma set_padLeft: "0 \<le> n \<Longrightarrow> c \<in> set (padLeft w (utoa n)) \<Longrightarrow> isDigit c"
  using utoa_digits [of n] by (auto simp: padLeft_def isDigit_def)

lemma set_formatStamp:
  assumes "valid_stamp t" "c \<in> set (formatStamp t)"
  shows "isDigit c \<or> c \<in> {CHR ''-'', CHR '' '', CHR '':''}"
  using assms by (auto simp: formatStamp_def valid_stamp_def dest: set_padLeft [rotated])

lemma formatStamp_avoids:
  "valid_stamp t \<Longrightarrow> \<not> isDigit c \<Longrightarrow> c \<notin> {CHR ''-'', CHR '' '', CHR '':''} \<Longrightarrow> c \<notin> set (formatStamp t)"
  using set_formatStamp by blast

lemma padLeft_digits:
  assumes "0 \<le> n"
  shows "padLeft w (utoa n) \<noteq> [] \<and> graphic (hd (padLeft w (utoa n))) \<and> graphic (last (padLeft w (utoa n)))"
proof -
  have "padLeft w (utoa n) \<noteq> []" by (simp add: padLeft_def)
  then show ?thesis
    using set_padLeft [OF assms, of _ w] isDigit_graphic hd_in_set last_in_set by blast
qed

lemma formatStamp_tidy:
  assumes "valid_stamp t"
  shows "tidy (formatStamp t)" "formatStamp t \<noteq> []"
proof -
  let ?a = "padLeft 4 (utoa (st_year t))" and ?b = "padLeft 2 (utoa (st_sec t))"
  have ab: "?a \<noteq> []" "graphic (hd ?a)" "?b \<noteq> []" "graphic (last ?b)"
    using assms padLeft_digits [of "st_year t" 4] padLeft_digits [of "st_sec t" 2]
    by (auto simp: valid_stamp_def)
  obtain mid where "formatStamp t = ?a @ mid @ ?b"
    by (simp add: formatStamp_def)
  with ab show "tidy (formatStamp t)" "formatStamp t \<noteq> []"
    by (simp_all add: tidy_def)
qed

lemma formatStamp_no_blank:
  "valid_stamp t \<Longrightarrow> TAB \<notin> set (formatStamp t)" "valid_stamp t \<Longrightarrow> NL \<notin> set (formatStamp t)"
  by (rule formatStamp_avoids, assumption, simp_all add: isDigit_def)+

lemma punchFields_ok:
  assumes "punch_ok p" "f \<in> set (punchFields p)"
  shows "tidy f \<and> f \<noteq> [] \<and> TAB \<notin> set f \<and> NL \<notin> set f"
  using assms
  by (auto simp: punchFields_def punch_ok_def field_ok_def tidy_itoa itoa_no_blank formatStamp_tidy
      formatStamp_no_blank split: if_splits)

lemma Split_punchText:
  assumes "punch_ok p"
  shows "Split TAB (punchText p) = punchFields p"
  unfolding punchText_def
proof (rule Split_Join)
  show "\<forall>f \<in> set (punchFields p). TAB \<notin> set f"
    using punchFields_ok [OF assms] by blast
qed (simp add: punchFields_def)

lemma set_Join: "set (Join c xs) \<subseteq> insert c (\<Union> (set ` set xs))"
  by (induction c xs rule: Join.induct) auto

lemma punchText_ok:
  assumes "punch_ok p"
  shows "tidy (punchText p) \<and> punchText p \<noteq> [] \<and> NL \<notin> set (punchText p)"
proof -
  have "punchFields p \<noteq> []" by (simp add: punchFields_def)
  then have "tidy (punchText p) \<and> punchText p \<noteq> []"
    unfolding punchText_def using punchFields_ok [OF assms] tidy_Join [of "punchFields p" TAB] by blast
  moreover have "NL \<notin> set (punchText p)"
    using punchFields_ok [OF assms] set_Join [of TAB "punchFields p"] by (auto simp: punchText_def)
  ultimately show ?thesis by simp
qed

lemma punchFields_nth:
  "attMinFields \<le> length (punchFields p)"
  "attFieldStatus < length (punchFields p)" "attFieldVerifyMode < length (punchFields p)"
  "punchFields p ! attFieldUserID = pu_user p"
  "punchFields p ! attFieldTimestamp = formatStamp (pu_stamp p)"
  "punchFields p ! attFieldStatus = itoa (pu_status p)"
  "punchFields p ! attFieldVerifyMode = itoa (pu_verify p)"
  "(if attFieldWorkCode < length (punchFields p) then punchFields p ! attFieldWorkCode else []) = pu_work p"
  by (simp_all add: punchFields_def att_defs numeral_eq_Suc)

lemma parseAttLine_punch:
  assumes "punch_ok p"
  shows "parseAttLine local loc sn (punchText p) = Some (punchRecord loc sn p)"
proof -
  have ok: "pu_user p \<noteq> []" "TrimSpace (pu_user p) = pu_user p" "valid_stamp (pu_stamp p)"
      "is_int64 (pu_status p)" "is_int64 (pu_verify p)"
    using assms by (auto simp: punch_ok_def field_okD)
  have ts: "attTimestamp local loc (formatStamp (pu_stamp p)) = Some (Date loc (pu_stamp p))"
    using ok by (simp add: attTimestamp_def ParseInLocation_def parseStamp_formatStamp)
  have ints: "attInt (punchFields p) attFieldStatus = pu_status p"
      "attInt (punchFields p) attFieldVerifyMode = pu_verify p"
    using ok by (simp_all add: attInt_def punchFields_nth Atoi_def ParseInt_itoa)
  show ?thesis
    using punchFields_nth(1) [of p]
    by (simp add: parseAttLine_def Split_punchText [OF assms] Let_def punchFields_nth(4,5,8) ok ts ints
        punchRecord_def)
qed

definition punchLog :: "punch list \<Rightarrow> string" where
  "punchLog ps = concat (map (\<lambda>l. l @ [NL]) (map punchText ps))"

lemma parse_punchLog:
  assumes "\<forall>p \<in> set ps. punch_ok p"
  shows "parseAttendanceRecords s (punchLog ps) sn (Some loc) = map (punchRecord loc sn) ps"
proof -
  have "payloadLines (punchLog ps) = map punchText ps"
    unfolding punchLog_def using assms punchText_ok by (intro payloadLines_concat) auto
  then show ?thesis
    using assms
    by (simp add: parseAttendanceRecords_eq attLocation_def)
      (rule map_filter_all, simp add: parseAttLine_punch)
qed

subsection \<open>Key-value payloads\<close>

definition kvText :: "string \<times> string \<Rightarrow> string" where
  "kvText kv = (case kv of (k, v) \<Rightarrow> k @ CHR ''='' # v)"

definition kv_ok :: "char \<Rightarrow> string \<times> string \<Rightarrow> bool" where
  "kv_ok sep kv \<longleftrightarrow> (case kv of (k, v) \<Rightarrow>
     tidy k \<and> tidy v \<and> CHR ''='' \<notin> set k \<and> sep \<notin> set k \<and> sep \<notin> set v)"

lemma graphic_eq [simp]: "graphic CHR ''=''"
  by (simp add: graphic_def)

lemma kvText_ok:
  assumes "kv_ok sep kv" "sep \<noteq> CHR ''=''"
  shows "tidy (kvText kv) \<and> kvText kv \<noteq> [] \<and> sep \<notin> set (kvText kv)"
  using assms by (auto simp: kvText_def kv_ok_def intro!: tidy_append tidy_Cons)

lemma kvPart_kvText:
  assumes "kv_ok sep (k, v)"
  shows "kvPart f (kvText (k, v)) = Some (case f of None \<Rightarrow> k | Some g \<Rightarrow> g k, v)"
proof -
  have "tidy (k @ CHR ''='' # v)" "TrimSpace k = k" "TrimSpace v = v"
    using assms by (auto simp: kv_ok_def TrimSpace_tidy intro!: tidy_append tidy_Cons)
  then show ?thesis
    using assms by (simp add: kvPart_def kvText_def kv_ok_def TrimSpace_tidy Let_def split: option.split)
qed

definition keyed :: "(string \<Rightarrow> string) option \<Rightarrow> (string \<times> string) list \<Rightarrow> (string \<times> string) list" where
  "keyed f kvs = map (\<lambda>(k, v). (case f of None \<Rightarrow> k | Some g \<Rightarrow> g k, v)) kvs"

lemma map_filter_kvPart:
  "\<forall>kv \<in> set kvs. kv_ok sep kv \<Longrightarrow> List.map_filter (kvPart f) (map kvText kvs) = keyed f kvs"
  by (induction kvs) (auto simp: kvPart_kvText keyed_def)

text \<open>Among equal keys the last one wins.\<close>

lemma parseKVPairs_Join:
  assumes "\<forall>kv \<in> set kvs. kv_ok sep kv" "sep \<noteq> CHR ''=''"
  shows "fmlookup (parseKVPairs (Join sep (map kvText kvs)) sep f) k = map_of (rev (keyed f kvs)) k"
proof (cases "kvs = []")
  case True
  have "kvPart f [] = None" by (simp add: kvPart_def)
  with True show ?thesis by (simp add: fmlookup_parseKVPairs keyed_def)
next
  case False
  have ok: "\<forall>x \<in> set (map kvText kvs). tidy x \<and> x \<noteq> []" "\<forall>x \<in> set (map kvText kvs). sep \<notin> set x"
    using assms kvText_ok by auto
  have "TrimSpace (Join sep (map kvText kvs)) = Join sep (map kvText kvs)"
    using tidy_Join [OF ok(1)] TrimSpace_tidy by blast
  moreover have "Split sep (Join sep (map kvText kvs)) = map kvText kvs"
    using False ok(2) by (intro Split_Join) simp_all
  ultimately show ?thesis
    using assms by (simp add: fmlookup_parseKVPairs map_filter_kvPart)
qed

subsection \<open>User records\<close>

definition user_ok :: "UserRecord \<Rightarrow> bool" where
  "user_ok u \<longleftrightarrow> PIN u \<noteq> [] \<and> field_ok (PIN u) \<and> field_ok (Name u) \<and> is_int64 (Privilege u)
     \<and> field_ok (Card u) \<and> field_ok (Password u)"

definition userPairs :: "UserRecord \<Rightarrow> (string \<times> string) list" where
  "userPairs u = [(''PIN'', PIN u), (''Name'', Name u), (''Privilege'', itoa (Privilege u)),
     (''Card'', Card u), (''Password'', Password u)]"

definition userText :: "UserRecord \<Rightarrow> string" where
  "userText u = Join TAB (map kvText (userPairs u))"

lemma field_ok_itoa: "field_ok (itoa i)"
  by (simp add: field_ok_def tidy_itoa itoa_no_blank)

lemma userPairs_ok:
  assumes "user_ok u"
  shows "\<forall>kv \<in> set (userPairs u). kv_ok TAB kv \<and> kv_ok NL kv"
  using assms field_ok_itoa [of "Privilege u"]
  by (simp add: userPairs_def user_ok_def kv_ok_def field_ok_def) (simp add: tidy_def graphic_def)

lemma userText_parts:
  assumes "user_ok u"
  shows "\<forall>x \<in> set (map kvText (userPairs u)). tidy x \<and> x \<noteq> [] \<and> TAB \<notin> set x \<and> NL \<notin> set x"
proof -
  have "tidy (kvText kv) \<and> kvText kv \<noteq> [] \<and> TAB \<notin> set (kvText kv) \<and> NL \<notin> set (kvText kv)"
    if "kv \<in> set (userPairs u)" for kv
    using userPairs_ok [OF assms] that kvText_ok [of TAB kv] kvText_ok [of NL kv] by auto
  then show ?thesis by simp
qed

lemma Split_userText: "user_ok u \<Longrightarrow> Split TAB (userText u) = map kvText (userPairs u)"
  unfolding userText_def using userText_parts by (intro Split_Join) (auto simp: userPairs_def)

lemma userPart_kvText: "kv_ok sep kv \<Longrightarrow> userPart (kvText kv) = Some kv"
  by (auto simp: userPart_def kvText_def kv_ok_def TrimSpace_tidy)

lemma userFields_read:
  "\<forall>kv \<in> set kvs. userPart (kvText kv) = Some kv \<Longrightarrow> userFields (map kvText kvs) m = foldl (\<lambda>m (k, v). fmupd k v m) m kvs"
  by (induction kvs arbitrary: m) auto

lemma userFields_kvText:
  "\<forall>kv \<in> set kvs. kv_ok sep kv \<Longrightarrow> userFields (map kvText kvs) m = foldl (\<lambda>m (k, v). fmupd k v m) m kvs"
  by (rule userFields_read) (blast intro: userPart_kvText)

text \<open>A cell of a line: trimmed text of any bytes, without tabs and newlines.\<close>

definition fieldText :: "string \<Rightarrow> bool" where
  "fieldText v \<longleftrightarrow> trimmed v \<and> TAB \<notin> set v \<and> NL \<notin> set v"

lemma fieldText_Nil [simp]: "fieldText []"
  by (simp add: fieldText_def trimmed_def dropRune_def spaceRunes_def)

lemma userPart_fieldValue:
  assumes "k \<noteq> []" "graphic (hd k)" "TrimSpace k = k" "CHR ''='' \<notin> set k" "fieldText v"
  shows "userPart (kvText (k, v)) = Some (k, v)"
proof -
  have "trimmed ((k @ [CHR ''='']) @ v)"
    using assms by (intro trimmed_behind) (simp_all add: fieldText_def)
  then have "TrimSpace (k @ CHR ''='' # v) = k @ CHR ''='' # v" by (simp add: TrimSpace_id)
  moreover have "TrimSpace v = v" using assms(5) by (simp add: fieldText_def TrimSpace_id)
  ultimately show ?thesis using assms(3,4) by (simp add: userPart_def kvText_def)
qed

lemma parseUserLine_userText:
  assumes "user_ok u"
  shows "parseUserLine (userText u) = Some u"
proof -
  have "userFields (map kvText (userPairs u)) fmempty = foldl (\<lambda>m (k, v). fmupd k v m) fmempty (userPairs u)"
    using userPairs_ok [OF assms] by (intro userFields_kvText [of _ TAB]) blast
  then show ?thesis
    using assms unfolding parseUserLine_def Split_userText [OF assms]
    by (simp add: userPairs_def fmget_def user_ok_def Atoi_def ParseInt_itoa)
qed

lemma userText_ok:
  assumes "user_ok u"
  shows "tidy (userText u) \<and> userText u \<noteq> [] \<and> NL \<notin> set (userText u)"
proof -
  have "map kvText (userPairs u) \<noteq> []" by (simp add: userPairs_def)
  then have "tidy (userText u) \<and> userText u \<noteq> []"
    unfolding userText_def using userText_parts [OF assms] tidy_Join by blast
  moreover have "NL \<notin> set (userText u)"
    using userText_parts [OF assms] set_Join [of TAB "map kvText (userPairs u)"]
    unfolding userText_def by blast
  ultimately show ?thesis by simp
qed

interpretation user_codec: line_codec userText parseUserLine user_ok NL
  by unfold_locales (auto simp: parseUserLine_userText dest: userText_ok)

definition userTable :: "UserRecord list \<Rightarrow> string" where
  "userTable us = concat (map (\<lambda>l. l @ [NL]) (map userText us))"

lemma parse_userTable:
  assumes "\<forall>u \<in> set us. user_ok u"
  shows "parseUserRecords (userTable us) = us"
proof -
  have "payloadLines (userTable us) = map userText us"
    unfolding userTable_def using assms userText_ok by (intro payloadLines_concat) auto
  moreover have "List.map_filter parseUserLine (map userText us) = map (\<lambda>u. u) us"
    using assms by (intro map_filter_all) (simp add: user_codec.dec_enc)
  ultimately show ?thesis by (simp add: parseUserRecords_eq)
qed

subsection \<open>Command confirmations\<close>

text \<open>
  A confirmation is three pairs and any further parts the parser passes over, joined by ampersands
  (the batched form) or newlines (the form of a shell command), and ended by a newline.
\<close>

definition inert :: "string \<Rightarrow> bool" where
  "inert part \<longleftrightarrow>
     (case Cut CHR ''='' (TrimSpace part) of
        None \<Rightarrow> True
      | Some (k, v) \<Rightarrow> ToUpper (TrimSpace k) \<notin> {''ID'', ''RETURN'', ''CMD''})"

record report =
  rp_delim :: char
  rp_result :: CommandResult
  rp_extra :: "string list"

definition reportParts :: "report \<Rightarrow> string list" where
  "reportParts r =
     [kvText (''ID'', itoa (sint (cr_ID (rp_result r)))),
      kvText (''Return'', itoa (ReturnCode (rp_result r))),
      kvText (''CMD'', cr_Command (rp_result r))] @ rp_extra r"

definition reportText :: "report \<Rightarrow> string" where
  "reportText r = Join (rp_delim r) (reportParts r) @ [NL]"

definition report_ok :: "string \<Rightarrow> report \<Rightarrow> bool" where
  "report_ok sn r \<longleftrightarrow>
     rp_delim r \<in> {CHR ''&'', NL} \<and> result_wf sn (rp_result r)
     \<and> tidy (cr_Command (rp_result r)) \<and> CHR ''&'' \<notin> set (cr_Command (rp_result r))
     \<and> NL \<notin> set (cr_Command (rp_result r))
     \<and> list_all (\<lambda>x. inert x \<and> CHR ''&'' \<notin> set x \<and> NL \<notin> set x) (rp_extra r)"

lemma cmdPart_inert: "inert part \<Longrightarrow> cmdPart sn part p = p"
  by (auto simp: inert_def cmdPart_def cmdPair_def Let_def split: option.splits)

lemma cmdLoop_append: "cmdLoop sn (xs @ ys) p = cmdLoop sn ys (cmdLoop sn xs p)"
  by (induction xs arbitrary: p) auto

lemma cmdLoop_inert: "list_all inert xs \<Longrightarrow> cmdLoop sn xs p = p"
  by (induction xs) (auto simp: cmdPart_inert)

lemma ToUpper_labels: "ToUpper ''ID'' = ''ID''" "ToUpper ''Return'' = ''RETURN''" "ToUpper ''CMD'' = ''CMD''"
  by code_simp+

lemma tidy_labels: "tidy ''ID''" "tidy ''Return''" "tidy ''CMD''"
  by (simp_all add: tidy_def graphic_def)

lemma cmdPart_kvText:
  assumes "tidy k" "k \<noteq> []" "CHR ''='' \<notin> set k" "tidy v"
  shows "cmdPart sn (kvText (k, v)) p = cmdPair sn k v p"
proof -
  have "tidy (k @ CHR ''='' # v)" using assms by (auto intro!: tidy_append tidy_Cons)
  then show ?thesis using assms by (simp add: cmdPart_def kvText_def TrimSpace_tidy Let_def)
qed

text \<open>Between two reports the parser holds either nothing or a finished result.\<close>

definition between :: "string \<Rightarrow> cmd_parse \<Rightarrow> bool" where
  "between sn p \<longleftrightarrow> cp_hasID p \<or> cp_current p = emptyResult sn"

lemma cmdLoop_report:
  assumes "report_ok sn r" "between sn p"
  shows "cmdLoop sn (reportParts r) p
    = \<lparr>cp_results = cmd_all p, cp_current = rp_result r, cp_hasID = True\<rparr>"
proof -
  have ok: "tidy (cr_Command (rp_result r))" "is_int64 (ReturnCode (rp_result r))"
      "cr_SerialNumber (rp_result r) = sn" "QueuedCommand (rp_result r) = []"
      "list_all inert (rp_extra r)"
    using assms(1) by (auto simp: report_ok_def result_wf_def list_all_iff)
  have id64: "is_int64 (sint (cr_ID (rp_result r)))"
    using sint_range_size [of "cr_ID (rp_result r)"]
    by (simp add: is_int64_def minInt64_def maxInt64_def word_size)
  have start: "(if cp_hasID p then cmdFlush sn p else p)
      = \<lparr>cp_results = cmd_all p, cp_current = emptyResult sn, cp_hasID = False\<rparr>"
    using assms(2) by (auto simp: between_def cmdFlush_def cmd_all_def)
  let ?p1 = "\<lparr>cp_results = cmd_all p, cp_current = (emptyResult sn)\<lparr>cr_ID := cr_ID (rp_result r)\<rparr>, cp_hasID = True\<rparr>"
  have 1: "cmdPart sn (kvText (''ID'', itoa (sint (cr_ID (rp_result r))))) p = ?p1"
    by (simp add: cmdPart_kvText tidy_labels tidy_itoa cmdPair_def TrimSpace_tidy ToUpper_labels
        ParseInt_itoa id64 start Let_def)
  have 2: "cmdPart sn (kvText (''Return'', itoa (ReturnCode (rp_result r)))) q
      = q\<lparr>cp_current := (cp_current q)\<lparr>ReturnCode := ReturnCode (rp_result r)\<rparr>\<rparr>" for q
    by (simp add: cmdPart_kvText tidy_labels tidy_itoa cmdPair_def TrimSpace_tidy ToUpper_labels
        ParseInt_itoa Atoi_def ok Let_def)
  have 3: "cmdPart sn (kvText (''CMD'', cr_Command (rp_result r))) q
      = q\<lparr>cp_current := (cp_current q)\<lparr>cr_Command := cr_Command (rp_result r)\<rparr>\<rparr>" for q
    by (simp add: cmdPart_kvText tidy_labels ok cmdPair_def TrimSpace_tidy ToUpper_labels Let_def)
  have "(emptyResult sn)\<lparr>cr_ID := cr_ID (rp_result r), ReturnCode := ReturnCode (rp_result r),
      cr_Command := cr_Command (rp_result r)\<rparr> = rp_result r"
    using ok by (simp add: emptyResult_def)
  then show ?thesis
    by (simp add: reportParts_def 1 2 3 cmdLoop_inert ok)
qed

lemma reportParts_free:
  assumes "report_ok sn r" "x \<in> set (reportParts r)"
  shows "CHR ''&'' \<notin> set x \<and> NL \<notin> set x"
  using assms itoa_no_blank
  by (auto simp: reportParts_def report_ok_def kvText_def list_all_iff)

lemma ReplaceAll_Join:
  assumes "d \<in> {c, e}" "\<forall>x \<in> set xs. e \<notin> set x" "xs \<noteq> []"
  shows "ReplaceAll (Join d xs @ [e]) e c = concat (map (\<lambda>x. x @ [c]) xs)"
  using assms by (induction d xs rule: Join.induct) (auto simp: ReplaceAll_id)

lemma cmdLoop_reports:
  assumes "\<forall>r \<in> set rs. report_ok sn r" "between sn p"
  shows "cmd_all (cmdLoop sn (concat (map reportParts rs)) p) = cmd_all p @ map rp_result rs"
  using assms
proof (induction rs arbitrary: p)
  case (Cons r rs)
  have "cmdLoop sn (concat (map reportParts (r # rs))) p
      = cmdLoop sn (concat (map reportParts rs)) (cmdLoop sn (reportParts r) p)"
    by (simp add: cmdLoop_append)
  also have "cmdLoop sn (reportParts r) p
      = \<lparr>cp_results = cmd_all p, cp_current = rp_result r, cp_hasID = True\<rparr>"
    using Cons.prems by (intro cmdLoop_report) auto
  finally show ?case
    using Cons by (simp add: between_def cmd_all_def [of "\<lparr>cp_results = _, cp_current = _, cp_hasID = _\<rparr>"])
qed (simp add: cmd_all_def)

lemma ReplaceAll_report:
  assumes "report_ok sn r"
  shows "ReplaceAll (reportText r) NL CHR ''&'' = concat (map (\<lambda>x. x @ [CHR ''&'']) (reportParts r))"
  unfolding reportText_def
proof (rule ReplaceAll_Join)
  show "rp_delim r \<in> {CHR ''&'', NL}" using assms by (simp add: report_ok_def)
  show "\<forall>x \<in> set (reportParts r). NL \<notin> set x" using reportParts_free [OF assms] by blast
  show "reportParts r \<noteq> []" by (simp add: reportParts_def)
qed

lemma cmdParts_reports:
  assumes "\<forall>r \<in> set rs. report_ok sn r"
  shows "cmdParts (concat (map reportText rs)) = concat (map reportParts rs) @ [[]]"
proof -
  have "ReplaceAll (concat (map reportText rs)) NL CHR ''&''
      = concat (map (\<lambda>x. x @ [CHR ''&'']) (concat (map reportParts rs)))"
    using assms by (induction rs) (simp_all add: ReplaceAll_report [of sn])
  moreover have "\<forall>x \<in> set (concat (map reportParts rs)). CHR ''&'' \<notin> set x"
    using assms reportParts_free by fastforce
  ultimately show ?thesis by (simp only: cmdParts_def Split_lines)
qed

lemma parse_reports:
  assumes "\<forall>r \<in> set rs. report_ok sn r"
  shows "parseCommandResults (concat (map reportText rs)) sn = map rp_result rs"
proof -
  have "inert []" by (simp add: inert_def)
  then show ?thesis
    using assms cmdLoop_reports [OF assms, of "cmd_start sn"]
    by (simp add: parseCommandResults_eq cmdParts_reports cmdLoop_append cmdPart_inert between_def
        cmd_start_def cmd_all_def)
qed

subsection \<open>Properties\<close>

text \<open>C17 An attendance log as a device writes it is read back exactly: one record per line, in order,
  with every field, the wall-clock stamp taken in the location passed.\<close>

theorem attendance_round_trip:
  assumes "list_all punch_ok ps"
  shows "parseAttendanceRecords s (punchLog ps) sn (Some loc) = map (punchRecord loc sn) ps"
  using assms by (intro parse_punchLog) (simp add: list_all_iff)

theorem attendance_round_trip_witness:
  "parseAttendanceRecords (newServer UTC)
     (punchLog [\<lparr>pu_user = ''7'', pu_stamp = \<lparr>st_year = 2024, st_month = 2, st_day = 29, st_hour = 23,
        st_min = 59, st_sec = 59, st_nsec = 0\<rparr>, pu_status = 1, pu_verify = 15, pu_work = ''3''\<rparr>]) ''S''
     (Some (FixedZone ''X'' 7200))
   = [punchRecord (FixedZone ''X'' 7200) ''S''
        \<lparr>pu_user = ''7'', pu_stamp = \<lparr>st_year = 2024, st_month = 2, st_day = 29, st_hour = 23,
         st_min = 59, st_sec = 59, st_nsec = 0\<rparr>, pu_status = 1, pu_verify = 15, pu_work = ''3''\<rparr>]"
proof -
  let ?p = "\<lparr>pu_user = ''7'', pu_stamp = \<lparr>st_year = 2024, st_month = 2, st_day = 29, st_hour = 23,
      st_min = 59, st_sec = 59, st_nsec = 0\<rparr>, pu_status = 1, pu_verify = 15, pu_work = ''3''\<rparr>"
  have "list_all punch_ok [?p]"
    by (simp add: punch_ok_def field_ok_def tidy_def graphic_def valid_stamp_def daysIn_def isLeap_def
        is_int64_def minInt64_def maxInt64_def)
  from attendance_round_trip [OF this] show ?thesis by simp
qed

text \<open>A table of user records as a device writes it is read back exactly.\<close>

lemma user_round_trip:
  assumes "list_all user_ok us"
  shows "parseUserRecords (userTable us) = us"
  using assms by (intro parse_userTable) (simp add: list_all_iff)

text \<open>The key-value payload joined from clean pairs gives each key the value of its last pair, for
  either separator and any transformation of keys.\<close>

lemma kv_round_trip:
  assumes "list_all (kv_ok sep) kvs" "sep \<noteq> CHR ''=''"
  shows "fmlookup (parseKVPairs (Join sep (map kvText kvs)) sep f) k = map_of (rev (keyed f kvs)) k"
  using assms by (intro parseKVPairs_Join) (simp_all add: list_all_iff)

text \<open>C18 Confirmations in the batched form, in the multi-line form of a shell command, or a mix of both
  are read back exactly, whatever further parts they carry that are not labelled ID, Return or CMD.\<close>

theorem confirmation_round_trip:
  assumes "list_all (report_ok sn) rs"
  shows "parseCommandResults (concat (map reportText rs)) sn = map rp_result rs"
  using assms by (intro parse_reports) (simp add: list_all_iff)

theorem confirmation_round_trip_witness:
  "parseCommandResults (concat (map reportText
      [\<lparr>rp_delim = CHR ''&'', rp_result = \<lparr>cr_SerialNumber = ''S'', cr_ID = 1, ReturnCode = 0,
          cr_Command = ''INFO'', QueuedCommand = []\<rparr>, rp_extra = []\<rparr>,
       \<lparr>rp_delim = NL, rp_result = \<lparr>cr_SerialNumber = ''S'', cr_ID = 2, ReturnCode = -5,
          cr_Command = ''Shell'', QueuedCommand = []\<rparr>, rp_extra = [''Content=a b'']\<rparr>])) ''S''
   = [\<lparr>cr_SerialNumber = ''S'', cr_ID = 1, ReturnCode = 0, cr_Command = ''INFO'', QueuedCommand = []\<rparr>,
      \<lparr>cr_SerialNumber = ''S'', cr_ID = 2, ReturnCode = -5, cr_Command = ''Shell'', QueuedCommand = []\<rparr>]"
    (is "parseCommandResults (concat (map reportText ?rs)) _ = _")
proof -
  have i: "inert ''Content=a b''" by code_simp
  have "list_all (report_ok ''S'') ?rs"
    by (simp add: report_ok_def result_wf_def tidy_def graphic_def i is_int64_def minInt64_def maxInt64_def)
  from confirmation_round_trip [OF this] show ?thesis by simp
qed

end
