(* ===== verification/Adms_Commands.thy ===== *)
theory Adms_Commands
  imports Adms_Devices Adms_Texts
begin

section \<open>Command queues (\<open>command.go\<close>)\<close>

text \<open>
  Commands are queued per device under an ID taken from a 64-bit counter, drained when the device
  polls, and pending until the device confirms the ID.  \<open>QueueCommand\<close> is split at its critical
  sections (the test under \<open>devicesMutex\<close>, the atomic addition, the append under
  \<open>queueMutex\<close>), which \<open>Adms_Races\<close> interleaves.  The locale \<open>mailbox\<close> is the contract of a queue
  per device; the lines on the wire are a codec.
\<close>

subsection \<open>Operations\<close>

definition validateCommandField :: "string \<Rightarrow> string \<Rightarrow> adms_error option" where
  "validateCommandField name value =
     (if ContainsAny value [CR, NL] then Some (ErrInvalidCommandField name) else None)"

definition queueOf :: "string \<Rightarrow> ADMSServer \<Rightarrow> CommandEntry list" where
  "queueOf sn s = (case fmlookup (commandQueue s) sn of None \<Rightarrow> [] | Some q \<Rightarrow> q)"

definition pendingCountLocked :: "string \<Rightarrow> ADMSServer \<Rightarrow> nat" where
  "pendingCountLocked sn s = fmcount (\<lambda>entry. pe_sn entry = sn) (pendingCommands s)"

text \<open>\<open>s.cmdID.Add(1)\<close>: the new value is the ID.\<close>

definition takeID :: "ADMSServer \<Rightarrow> 64 word \<times> ADMSServer" where
  "takeID s = (cmdID s + 1, s\<lparr>cmdID := cmdID s + 1\<rparr>)"

text \<open>The section under \<open>queueMutex\<close>.\<close>

definition enqueueLocked ::
    "string \<Rightarrow> string \<Rightarrow> 64 word \<Rightarrow> ADMSServer \<Rightarrow> 64 word \<times> adms_error option \<times> ADMSServer" where
  "enqueueLocked sn command i s =
     (if 0 < maxCommandsPerDevice s
         \<and> maxCommandsPerDevice s \<le> int (length (queueOf sn s) + pendingCountLocked sn s)
      then (0, Some ErrCommandQueueFull, s)
      else (i, None, s\<lparr>commandQueue :=
             fmupd sn (queueOf sn s @ [\<lparr>ce_ID = i, ce_Command = command\<rparr>]) (commandQueue s)\<rparr>))"

definition QueueCommand ::
    "string \<Rightarrow> string \<Rightarrow> ADMSServer \<Rightarrow> 64 word \<times> adms_error option \<times> ADMSServer" where
  "QueueCommand sn command s =
     (case validateCommandField ''command'' command of
        Some err \<Rightarrow> (0, Some err, s)
      | None \<Rightarrow>
          if fmlookup (devices s) sn = None then (0, Some ErrDeviceNotFound, s)
          else (case takeID s of (i, s') \<Rightarrow> enqueueLocked sn command i s'))"

text \<open>The loop that records drained commands as pending.\<close>

fun recordPending :: "string \<Rightarrow> CommandEntry list
    \<Rightarrow> (64 word, pendingEntry) fmap \<Rightarrow> (64 word, pendingEntry) fmap" where
  "recordPending sn [] m = m"
| "recordPending sn (cmd # cmds) m = recordPending sn cmds (fmupd (ce_ID cmd) (pending_of sn cmd) m)"

definition DrainCommands :: "string \<Rightarrow> ADMSServer \<Rightarrow> CommandEntry list \<times> ADMSServer" where
  "DrainCommands sn s =
     (let commands = queueOf sn s in
      (commands,
       s\<lparr>commandQueue := fmdrop sn (commandQueue s),
         pendingCommands := recordPending sn commands (pendingCommands s)\<rparr>))"

definition PendingCommandsCount :: "string \<Rightarrow> ADMSServer \<Rightarrow> nat" where
  "PendingCommandsCount sn s = length (queueOf sn s)"

subsection \<open>The commands of the protocol\<close>

type_synonym send_result = "64 word \<times> adms_error option \<times> ADMSServer"

definition SendInfoCommand :: "string \<Rightarrow> ADMSServer \<Rightarrow> send_result" where
  "SendInfoCommand sn s = QueueCommand sn ''INFO'' s"

text \<open>The text of a \<open>DATA UPDATE USERINFO\<close> command.\<close>

definition userAddText :: "string \<Rightarrow> string \<Rightarrow> int \<Rightarrow> string \<Rightarrow> string" where
  "userAddText pin name privilege cardno =
     ''DATA UPDATE USERINFO PIN='' @ pin @ [TAB] @ ''Name='' @ name @ [TAB]
     @ ''Privilege='' @ itoa privilege @ [TAB] @ ''Card='' @ cardno"

text \<open>The loop over the fields: the first one that is refused.\<close>

fun checkFields :: "(string \<times> string) list \<Rightarrow> adms_error option" where
  "checkFields [] = None"
| "checkFields ((name, value) # fs) =
     (case validateCommandField name value of Some err \<Rightarrow> Some err | None \<Rightarrow> checkFields fs)"

definition SendUserAddCommand ::
    "string \<Rightarrow> string \<Rightarrow> string \<Rightarrow> int \<Rightarrow> string \<Rightarrow> ADMSServer \<Rightarrow> send_result" where
  "SendUserAddCommand sn pin name privilege cardno s =
     (case checkFields [(''pin'', pin), (''name'', name), (''card'', cardno)] of
        Some err \<Rightarrow> (0, Some err, s)
      | None \<Rightarrow> QueueCommand sn (userAddText pin name privilege cardno) s)"

text \<open>A command with one checked field.\<close>

definition sendField :: "string \<Rightarrow> string \<Rightarrow> string \<Rightarrow> string \<Rightarrow> ADMSServer \<Rightarrow> send_result" where
  "sendField name verb sn value s =
     (case validateCommandField name value of
        Some err \<Rightarrow> (0, Some err, s)
      | None \<Rightarrow> QueueCommand sn (verb @ value) s)"

definition SendUserDeleteCommand :: "string \<Rightarrow> string \<Rightarrow> ADMSServer \<Rightarrow> send_result" where
  "SendUserDeleteCommand sn pin s = sendField ''pin'' ''DATA DELETE USERINFO PIN='' sn pin s"

definition SendCheckCommand :: "string \<Rightarrow> ADMSServer \<Rightarrow> send_result" where
  "SendCheckCommand sn s = QueueCommand sn ''CHECK'' s"

definition SendGetOptionCommand :: "string \<Rightarrow> string \<Rightarrow> ADMSServer \<Rightarrow> send_result" where
  "SendGetOptionCommand sn key s = sendField ''key'' ''GET OPTION FROM '' sn key s"

definition SendShellCommand :: "string \<Rightarrow> string \<Rightarrow> ADMSServer \<Rightarrow> send_result" where
  "SendShellCommand sn command s = sendField ''command'' ''Shell '' sn command s"

definition SendQueryUsersCommand :: "string \<Rightarrow> ADMSServer \<Rightarrow> send_result" where
  "SendQueryUsersCommand sn s = QueueCommand sn ''DATA QUERY USERINFO'' s"

definition SendLogCommand :: "string \<Rightarrow> ADMSServer \<Rightarrow> send_result" where
  "SendLogCommand sn s = QueueCommand sn ''LOG'' s"

lemmas command_defs [adms_defs] = QueueCommand_def takeID_def enqueueLocked_def DrainCommands_def

subsection \<open>Basic facts\<close>

lemma validateCommandField_None: "validateCommandField name v = None \<longleftrightarrow> CR \<notin> set v \<and> NL \<notin> set v"
  by (auto simp: validateCommandField_def ContainsAny_iff)

lemma queueOf_update [simp]:
  "queueOf sn (s\<lparr>commandQueue := fmupd k q m\<rparr>)
    = (if sn = k then q else queueOf sn (s\<lparr>commandQueue := m\<rparr>))"
  "queueOf sn (s\<lparr>commandQueue := fmdrop k m\<rparr>)
    = (if sn = k then [] else queueOf sn (s\<lparr>commandQueue := m\<rparr>))"
  "queueOf sn (s\<lparr>pendingCommands := p\<rparr>) = queueOf sn s"
  "queueOf sn (s\<lparr>cmdID := i\<rparr>) = queueOf sn s"
  "queueOf sn (s\<lparr>devices := d\<rparr>) = queueOf sn s"
  "queueOf sn (s\<lparr>commandQueue := commandQueue s\<rparr>) = queueOf sn s"
  by (simp_all add: queueOf_def)

lemma queueOf_cong: "commandQueue s = commandQueue t \<Longrightarrow> queueOf sn s = queueOf sn t"
  by (simp add: queueOf_def)

text \<open>The three outcomes of \<open>QueueCommand\<close>.\<close>

lemma QueueCommand_cases:
  obtains (refused) err where "QueueCommand sn c s = (0, Some err, s)"
      "validateCommandField ''command'' c = Some err
       \<or> validateCommandField ''command'' c = None \<and> fmlookup (devices s) sn = None \<and> err = ErrDeviceNotFound"
  | (full) "QueueCommand sn c s = (0, Some ErrCommandQueueFull, s\<lparr>cmdID := cmdID s + 1\<rparr>)"
      "0 < maxCommandsPerDevice s"
      "maxCommandsPerDevice s \<le> int (length (queueOf sn s) + pendingCountLocked sn s)"
      "fmlookup (devices s) sn \<noteq> None"
  | (queued) "QueueCommand sn c s = (cmdID s + 1, None, s\<lparr>cmdID := cmdID s + 1, commandQueue :=
        fmupd sn (queueOf sn s @ [\<lparr>ce_ID = cmdID s + 1, ce_Command = c\<rparr>]) (commandQueue s)\<rparr>)"
      "\<not> (0 < maxCommandsPerDevice s
        \<and> maxCommandsPerDevice s \<le> int (length (queueOf sn s) + pendingCountLocked sn s))"
      "fmlookup (devices s) sn \<noteq> None" "CR \<notin> set c" "NL \<notin> set c"
proof (cases "validateCommandField ''command'' c")
  case (Some err)
  then show ?thesis by (intro refused) (simp_all add: QueueCommand_def)
next
  case ok: None
  have cnt: "pendingCountLocked sn (s\<lparr>cmdID := cmdID s + 1\<rparr>) = pendingCountLocked sn s"
    by (simp add: pendingCountLocked_def)
  show ?thesis
  proof (cases "fmlookup (devices s) sn")
    case None
    with ok show ?thesis by (intro refused) (simp_all add: QueueCommand_def)
  next
    case (Some d)
    let ?limit = "0 < maxCommandsPerDevice s
        \<and> maxCommandsPerDevice s \<le> int (length (queueOf sn s) + pendingCountLocked sn s)"
    have q: "QueueCommand sn c s = enqueueLocked sn c (cmdID s + 1) (s\<lparr>cmdID := cmdID s + 1\<rparr>)"
      using ok Some by (simp add: QueueCommand_def takeID_def)
    show ?thesis
    proof (cases ?limit)
      case True
      with q Some show ?thesis by (intro full) (simp_all add: enqueueLocked_def cnt)
    next
      case False
      then have "QueueCommand sn c s = (cmdID s + 1, None, s\<lparr>cmdID := cmdID s + 1, commandQueue :=
          fmupd sn (queueOf sn s @ [\<lparr>ce_ID = cmdID s + 1, ce_Command = c\<rparr>]) (commandQueue s)\<rparr>)"
        unfolding q enqueueLocked_def cnt queueOf_update by auto
      with False Some ok show ?thesis by (intro queued) (simp_all add: validateCommandField_None)
    qed
  qed
qed

subsection \<open>The contract of a queue per device\<close>

locale mailbox =
  fixes put :: "string \<Rightarrow> string \<Rightarrow> 's \<Rightarrow> 64 word \<times> adms_error option \<times> 's"
    and take_all :: "string \<Rightarrow> 's \<Rightarrow> CommandEntry list \<times> 's"
    and box :: "string \<Rightarrow> 's \<Rightarrow> CommandEntry list"
  assumes put_ok: "put k c s = (i, None, t) \<Longrightarrow> box k t = box k s @ [\<lparr>ce_ID = i, ce_Command = c\<rparr>]"
    and put_err: "put k c s = (i, Some e, t) \<Longrightarrow> i = 0 \<and> box k t = box k s"
    and put_other: "k' \<noteq> k \<Longrightarrow> box k' (snd (snd (put k c s))) = box k' s"
    and take_box: "take_all k s = (q, t) \<Longrightarrow> q = box k s \<and> box k t = []"
    and take_other: "k' \<noteq> k \<Longrightarrow> box k' (snd (take_all k s)) = box k' s"
begin

text \<open>Queueing a list of commands: the entries that were accepted, and the final state.\<close>

fun puts :: "(string \<times> string) list \<Rightarrow> 's \<Rightarrow> (string \<times> CommandEntry) list \<times> 's" where
  "puts [] s = ([], s)"
| "puts ((k, c) # cs) s =
     (case put k c s of (i, e, t) \<Rightarrow>
        (case puts cs t of (es, u) \<Rightarrow>
           ((if e = None then [(k, \<lparr>ce_ID = i, ce_Command = c\<rparr>)] else []) @ es, u)))"

definition sent_to :: "string \<Rightarrow> (string \<times> CommandEntry) list \<Rightarrow> CommandEntry list" where
  "sent_to k es = map snd (filter (\<lambda>x. fst x = k) es)"

lemma box_put:
  "put k' c s = (i, e, t) \<Longrightarrow>
    box k t = box k s @ (if k = k' \<and> e = None then [\<lparr>ce_ID = i, ce_Command = c\<rparr>] else [])"
  using put_ok [of k' c s i t] put_err [of k' c s i _ t] put_other [of k k' c s]
  by (cases "k = k'"; cases e) auto

lemma box_puts: "puts cs s = (es, u) \<Longrightarrow> box k u = box k s @ sent_to k es"
proof (induction cs s arbitrary: es u rule: puts.induct)
  case (2 k' c cs s)
  obtain i e t where 1: "put k' c s = (i, e, t)" by (cases "put k' c s")
  obtain es' u' where r: "puts cs t = (es', u')" by (cases "puts cs t")
  have "box k u' = box k t @ sent_to k es'"
    using "2.IH" [OF 1 [symmetric]] r by auto
  then show ?case
    using "2.prems" 1 r box_put [OF 1, of k] by (auto simp: sent_to_def)
qed (simp add: sent_to_def)

text \<open>First in, first out, each device its own commands, and nothing twice.\<close>

lemma fifo:
  assumes "box k s = []" "puts cs s = (es, u)" "take_all k u = (q, v)"
  shows "q = sent_to k es \<and> fst (take_all k v) = []"
  using assms box_puts [OF assms(2), of k] take_box [OF assms(3)] take_box [of k v]
  by (cases "take_all k v") auto

end

interpretation mail: mailbox QueueCommand DrainCommands queueOf
proof unfold_locales
  fix k c s i t e k' q and t' :: ADMSServer
  show "QueueCommand k c s = (i, None, t) \<Longrightarrow> queueOf k t = queueOf k s @ [\<lparr>ce_ID = i, ce_Command = c\<rparr>]"
    by (cases rule: QueueCommand_cases [of k c s]) auto
  show "QueueCommand k c s = (i, Some e, t) \<Longrightarrow> i = 0 \<and> queueOf k t = queueOf k s"
    by (cases rule: QueueCommand_cases [of k c s]) auto
  show "k' \<noteq> k \<Longrightarrow> queueOf k' (snd (snd (QueueCommand k c s))) = queueOf k' s"
    by (cases rule: QueueCommand_cases [of k c s]) (auto simp: queueOf_def)
  show "DrainCommands k s = (q, t) \<Longrightarrow> q = queueOf k s \<and> queueOf k t = []"
    by (auto simp: DrainCommands_def Let_def)
  show "k' \<noteq> k \<Longrightarrow> queueOf k' (snd (DrainCommands k s)) = queueOf k' s"
    by (simp add: DrainCommands_def Let_def)
qed

subsection \<open>Lines on the wire\<close>

text \<open>\<open>cmdFormat\<close> without the newline that ends it, and how a device reads a line.\<close>

definition wireLine :: "CommandEntry \<Rightarrow> string" where
  "wireLine e = ''C:'' @ itoa (sint (ce_ID e)) @ '':'' @ ce_Command e"

definition readWire :: "string \<Rightarrow> CommandEntry option" where
  "readWire line =
     (if take 2 line \<noteq> ''C:'' then None
      else (case Cut CHR '':'' (drop 2 line) of
          None \<Rightarrow> None
        | Some (num, c) \<Rightarrow> map_option (\<lambda>i. \<lparr>ce_ID = word_of_int i, ce_Command = c\<rparr>) (intOf num)))"

definition entry_ok :: "CommandEntry \<Rightarrow> bool" where
  "entry_ok e \<longleftrightarrow> CR \<notin> set (ce_Command e) \<and> NL \<notin> set (ce_Command e)"

lemma sint_is_int64: "is_int64 (sint (w :: 64 word))"
  using sint_range_size [of w] by (simp add: is_int64_def minInt64_def maxInt64_def word_size)

interpretation wire: line_codec wireLine readWire entry_ok NL
proof unfold_locales
  fix e :: CommandEntry
  have colon: "CHR '':'' \<notin> set (itoa (sint (ce_ID e)))"
    by (rule itoa_avoids) (simp_all add: isDigit_def)
  have "intOf (itoa (sint (ce_ID e))) = Some (sint (ce_ID e))"
    by (rule int_codec.dec_enc) (rule sint_is_int64)
  then show "readWire (wireLine e) = Some e"
    by (simp add: readWire_def wireLine_def Cut_append [OF colon] numeral_2_eq_2)
  show "entry_ok e \<Longrightarrow> NL \<notin> set (wireLine e)"
    using itoa_avoids [of NL "sint (ce_ID e)"] by (simp add: wireLine_def entry_ok_def isDigit_def)
qed

subsection \<open>The invariant of queues and pending commands\<close>

text \<open>
  IDs: those of a queue increase, no ID is in two places, all have been taken from the counter.
  Ownership: a queue or a pending command belongs to a registered device.  No command can break its
  line on the wire.  A limit counts queued and pending commands together.
\<close>

definition ids_ok :: "ADMSServer \<Rightarrow> bool" where
  "ids_ok s \<longleftrightarrow>
     (\<forall>sn. sorted_wrt (<) (map ce_ID (queueOf sn s)))
     \<and> (\<forall>sn. \<forall>e \<in> set (queueOf sn s). 0 < ce_ID e \<and> ce_ID e \<le> cmdID s
          \<and> fmlookup (pendingCommands s) (ce_ID e) = None)
     \<and> (\<forall>sn sn'. \<forall>e \<in> set (queueOf sn s). \<forall>e' \<in> set (queueOf sn' s). ce_ID e = ce_ID e' \<longrightarrow> sn = sn')
     \<and> fmpred (\<lambda>i _. 0 < i \<and> i \<le> cmdID s) (pendingCommands s)"

definition owner_ok :: "ADMSServer \<Rightarrow> bool" where
  "owner_ok s \<longleftrightarrow>
     fmdom (commandQueue s) |\<subseteq>| fmdom (devices s)
     \<and> fmpred (\<lambda>_ entry. pe_sn entry |\<in>| fmdom (devices s)) (pendingCommands s)"

definition wire_ok :: "ADMSServer \<Rightarrow> bool" where
  "wire_ok s \<longleftrightarrow> (\<forall>sn. \<forall>e \<in> set (queueOf sn s). entry_ok e)"

definition outstanding :: "string \<Rightarrow> ADMSServer \<Rightarrow> nat" where
  "outstanding sn s = length (queueOf sn s) + pendingCountLocked sn s"

definition limit_ok :: "ADMSServer \<Rightarrow> bool" where
  "limit_ok s \<longleftrightarrow>
     (0 < maxCommandsPerDevice s \<longrightarrow> (\<forall>sn. int (outstanding sn s) \<le> maxCommandsPerDevice s))"

definition cmd_inv :: "ADMSServer \<Rightarrow> bool" where
  "cmd_inv s \<longleftrightarrow> ids_ok s \<and> owner_ok s \<and> wire_ok s \<and> limit_ok s"

lemma cmd_inv_pristine: "pristine s \<Longrightarrow> cmd_inv s"
  by (simp add: pristine_def cmd_inv_def ids_ok_def owner_ok_def wire_ok_def limit_ok_def
      outstanding_def pendingCountLocked_def queueOf_def)

text \<open>The invariant depends on these fields only.\<close>

lemma cmd_inv_cong:
  assumes "commandQueue s = commandQueue t" "pendingCommands s = pendingCommands t"
    "cmdID s = cmdID t" "fmdom (devices s) = fmdom (devices t)"
    "maxCommandsPerDevice s = maxCommandsPerDevice t"
  shows "cmd_inv s = cmd_inv t"
  using assms queueOf_cong [OF assms(1)]
  by (simp add: cmd_inv_def ids_ok_def owner_ok_def wire_ok_def limit_ok_def outstanding_def
      pendingCountLocked_def)

lemma cmd_inv_more_devices:
  assumes "cmd_inv s" "commandQueue t = commandQueue s" "pendingCommands t = pendingCommands s"
    "cmdID t = cmdID s" "fmdom (devices s) |\<subseteq>| fmdom (devices t)"
    "maxCommandsPerDevice t = maxCommandsPerDevice s"
  shows "cmd_inv t"
proof -
  have "queueOf sn t = queueOf sn s" for sn using assms by (simp add: queueOf_def)
  with assms show ?thesis
    by (auto simp: cmd_inv_def ids_ok_def owner_ok_def wire_ok_def limit_ok_def outstanding_def
        pendingCountLocked_def fmpred_iff)
qed

subsubsection \<open>Queueing\<close>

text \<open>The counter is far from its end: the next ID is larger than every other, and positive.\<close>

definition id_room :: "ADMSServer \<Rightarrow> bool" where
  "id_room s \<longleftrightarrow> unat (cmdID s) < 9223372036854775807"

lemma unat_add_1: "unat (w :: 64 word) < 9223372036854775807 \<Longrightarrow> unat (w + 1) = unat w + 1"
  by (simp add: unat_word_ariths)

lemma id_room_less: "id_room s \<Longrightarrow> i \<le> cmdID s \<Longrightarrow> i < cmdID s + 1"
  by (simp add: id_room_def word_less_nat_alt word_le_nat_alt unat_add_1)

lemma sint_small: "unat (w :: 64 word) < 9223372036854775808 \<Longrightarrow> sint w = int (unat w)"
  unfolding sint_uint uint_nat by (rule signed_take_bit_int_eq_self) (simp_all del: of_nat_unat)

lemma id_room_next:
  assumes "id_room s"
  shows "0 < cmdID s + 1 \<and> cmdID s < cmdID s + 1 \<and> 0 < sint (cmdID s + 1)"
proof -
  have "sint (cmdID s + 1) = int (unat (cmdID s) + 1)"
    using assms sint_small [of "cmdID s + 1"] unfolding id_room_def by (simp only: unat_add_1)
  then show ?thesis
    using assms id_room_less [OF assms, of "cmdID s"]
    by (simp add: id_room_def unat_add_1 word_less_nat_alt del: of_nat_unat)
qed

lemma ids_ok_skip:
  assumes "ids_ok s" "id_room s"
  shows "ids_ok (s\<lparr>cmdID := cmdID s + 1\<rparr>)"
  using assms id_room_less [OF assms(2)]
  by (fastforce simp: ids_ok_def fmpred_iff intro: less_imp_le)

text \<open>What \<^const>\<open>ids_ok\<close> says of single entries.\<close>

lemma ids_okD:
  assumes "ids_ok s"
  shows "sorted_wrt (<) (map ce_ID (queueOf sn s))"
    and "e \<in> set (queueOf sn s) \<Longrightarrow>
      0 < ce_ID e \<and> ce_ID e \<le> cmdID s \<and> fmlookup (pendingCommands s) (ce_ID e) = None"
    and "e \<in> set (queueOf sn s) \<Longrightarrow> e' \<in> set (queueOf sn' s) \<Longrightarrow> ce_ID e = ce_ID e' \<Longrightarrow> sn = sn'"
    and "fmlookup (pendingCommands s) i = Some p \<Longrightarrow> 0 < i \<and> i \<le> cmdID s"
  using assms unfolding ids_ok_def fmpred_iff by blast+

lemma ids_okI:
  assumes "\<And>sn. sorted_wrt (<) (map ce_ID (queueOf sn s))"
    and "\<And>sn e. e \<in> set (queueOf sn s) \<Longrightarrow>
      0 < ce_ID e \<and> ce_ID e \<le> cmdID s \<and> fmlookup (pendingCommands s) (ce_ID e) = None"
    and "\<And>sn sn' e e'. e \<in> set (queueOf sn s) \<Longrightarrow> e' \<in> set (queueOf sn' s) \<Longrightarrow> ce_ID e = ce_ID e'
      \<Longrightarrow> sn = sn'"
    and "\<And>i p. fmlookup (pendingCommands s) i = Some p \<Longrightarrow> 0 < i \<and> i \<le> cmdID s"
  shows "ids_ok s"
  using assms unfolding ids_ok_def fmpred_iff by blast

lemma ids_ok_queue:
  assumes ids: "ids_ok s" and room: "id_room s"
  shows "ids_ok (s\<lparr>cmdID := cmdID s + 1, commandQueue :=
      fmupd sn (queueOf sn s @ [\<lparr>ce_ID = cmdID s + 1, ce_Command = c\<rparr>]) (commandQueue s)\<rparr>)"
    (is "ids_ok ?t")
proof (rule ids_okI)
  let ?e = "\<lparr>ce_ID = cmdID s + 1, ce_Command = c\<rparr>"
  have q: "queueOf sn' ?t = (if sn' = sn then queueOf sn s @ [?e] else queueOf sn' s)" for sn'
    by (simp add: queueOf_def)
  have mem: "e \<in> set (queueOf sn' s) \<or> sn' = sn \<and> e = ?e" if "e \<in> set (queueOf sn' ?t)" for sn' e
    using that by (auto simp: q split: if_splits)
  have old: "ce_ID e < cmdID s + 1" if "e \<in> set (queueOf sn' s)" for e sn'
    using ids_okD(2) [OF ids that] id_room_less [OF room] by blast
  have fresh: "fmlookup (pendingCommands s) (cmdID s + 1) = None"
    using ids_okD(4) [OF ids] id_room_less [OF room] by (metis less_irrefl not_Some_eq)
  fix sn' sn'' e e' i p
  show "sorted_wrt (<) (map ce_ID (queueOf sn' ?t))"
    using ids_okD(1) [OF ids] old by (simp add: q sorted_wrt_append)
  show "0 < ce_ID e \<and> ce_ID e \<le> cmdID ?t \<and> fmlookup (pendingCommands ?t) (ce_ID e) = None"
    if "e \<in> set (queueOf sn' ?t)"
    using mem [OF that]
  proof
    assume "e \<in> set (queueOf sn' s)"
    then show ?thesis using ids_okD(2) [OF ids] old by (simp add: less_imp_le)
  next
    assume "sn' = sn \<and> e = ?e"
    then show ?thesis using fresh id_room_next [OF room] by simp
  qed
  show "sn' = sn''"
    if "e \<in> set (queueOf sn' ?t)" "e' \<in> set (queueOf sn'' ?t)" "ce_ID e = ce_ID e'"
    using mem [OF that(1)] mem [OF that(2)] that(3) ids_okD(3) [OF ids] old [of e sn'] old [of e' sn'']
    by auto
  show "0 < i \<and> i \<le> cmdID ?t" if "fmlookup (pendingCommands ?t) i = Some p"
    using that ids_okD(4) [OF ids, of i p] id_room_less [OF room, of i] by (simp add: less_imp_le)
qed

lemma cmd_inv_QueueCommand [inv_intros]:
  assumes "cmd_inv s" "id_room s"
  shows "cmd_inv (snd (snd (QueueCommand sn c s)))"
proof (cases rule: QueueCommand_cases [of sn c s])
  case full
  then show ?thesis
    using assms ids_ok_skip [of s]
    by (simp add: cmd_inv_def owner_ok_def wire_ok_def limit_ok_def outstanding_def pendingCountLocked_def)
next
  case queued
  let ?t = "s\<lparr>cmdID := cmdID s + 1, commandQueue :=
      fmupd sn (queueOf sn s @ [\<lparr>ce_ID = cmdID s + 1, ce_Command = c\<rparr>]) (commandQueue s)\<rparr>"
  have q: "queueOf sn' ?t = (if sn' = sn then queueOf sn s @ [\<lparr>ce_ID = cmdID s + 1, ce_Command = c\<rparr>] else queueOf sn' s)" for sn'
    by (simp add: queueOf_def)
  have "owner_ok ?t"
    using assms(1) queued by (auto simp: cmd_inv_def owner_ok_def fmlookup_dom_iff)
  moreover have "wire_ok ?t"
    using assms(1) queued by (auto simp: cmd_inv_def wire_ok_def q entry_ok_def)
  moreover have "limit_ok ?t"
    using assms(1) queued by (auto simp: cmd_inv_def limit_ok_def outstanding_def q pendingCountLocked_def)
  ultimately show ?thesis
    using assms queued ids_ok_queue [of s sn c] by (simp add: cmd_inv_def)
qed (use assms in simp)

subsubsection \<open>Draining and confirming\<close>

lemma recordPending_other: "i \<notin> ce_ID ` set cmds \<Longrightarrow> fmlookup (recordPending sn cmds m) i = fmlookup m i"
  by (induction cmds arbitrary: m) auto

lemma recordPending_entry:
  "distinct (map ce_ID cmds) \<Longrightarrow> e \<in> set cmds \<Longrightarrow>
    fmlookup (recordPending sn cmds m) (ce_ID e) = Some (pending_of sn e)"
  by (induction cmds arbitrary: m) (auto simp: recordPending_other)

lemma recordPending_Some:
  "fmlookup (recordPending sn cmds m) i = Some p \<Longrightarrow>
    fmlookup m i = Some p \<or> (\<exists>e \<in> set cmds. i = ce_ID e \<and> p = pending_of sn e)"
  by (induction cmds arbitrary: m) (fastforce split: if_splits)+

lemma fmcount_recordPending:
  "distinct (map ce_ID cmds) \<Longrightarrow> \<forall>e \<in> set cmds. fmlookup m (ce_ID e) = None \<Longrightarrow>
    fmcount (\<lambda>p. pe_sn p = k) (recordPending sn cmds m)
      = fmcount (\<lambda>p. pe_sn p = k) m + (if sn = k then length cmds else 0)"
proof (induction cmds arbitrary: m)
  case (Cons c cmds)
  have "fmcount (\<lambda>p. pe_sn p = k) (fmupd (ce_ID c) (pending_of sn c) m)
      = fmcount (\<lambda>p. pe_sn p = k) m + (if sn = k then 1 else 0)"
    using Cons.prems by (simp add: fmcount_upd_new pending_of_def)
  moreover have "\<forall>e \<in> set cmds. fmlookup (fmupd (ce_ID c) (pending_of sn c) m) (ce_ID e) = None"
    using Cons.prems by (auto simp: image_iff)
  ultimately show ?case using Cons by simp
qed simp

lemma ids_ok_distinct: "ids_ok s \<Longrightarrow> distinct (map ce_ID (queueOf sn s))"
  using ids_okD(1) strict_sorted_iff by blast

lemma queueOf_Drain:
  "queueOf k (snd (DrainCommands sn s)) = (if k = sn then [] else queueOf k s)"
  by (simp add: DrainCommands_def Let_def)

text \<open>Draining moves the queue of a device into the pending map: what is outstanding is unchanged.\<close>

lemma outstanding_Drain:
  assumes "ids_ok s"
  shows "outstanding k (snd (DrainCommands sn s)) = outstanding k s"
proof -
  have "fmcount (\<lambda>p. pe_sn p = k) (recordPending sn (queueOf sn s) (pendingCommands s))
      = fmcount (\<lambda>p. pe_sn p = k) (pendingCommands s) + (if sn = k then length (queueOf sn s) else 0)"
    using ids_ok_distinct [OF assms] ids_okD(2) [OF assms] by (intro fmcount_recordPending) auto
  then show ?thesis
    by (simp add: outstanding_def pendingCountLocked_def DrainCommands_def Let_def)
qed

text \<open>What is handed over, and what becomes pending.\<close>

lemma drain_facts:
  assumes "cmd_inv s" "DrainCommands sn s = (q, t)"
  shows "q = queueOf sn s" "queueOf sn t = []"
    "list_all (\<lambda>e. fmlookup (pendingCommands t) (ce_ID e) = Some (pending_of sn e)) q"
proof -
  have ids: "ids_ok s" using assms(1) by (simp add: cmd_inv_def)
  have t: "t = snd (DrainCommands sn s)" and q: "q = queueOf sn s"
    using assms(2) by (auto simp: DrainCommands_def Let_def)
  then show "q = queueOf sn s" "queueOf sn t = []"
    using queueOf_Drain [of sn sn s] by simp_all
  show "list_all (\<lambda>e. fmlookup (pendingCommands t) (ce_ID e) = Some (pending_of sn e)) q"
    using recordPending_entry [OF ids_ok_distinct [OF ids]]
    unfolding t q DrainCommands_def Let_def by (simp add: list_all_iff)
qed

lemma ids_ok_Drain:
  assumes ids: "ids_ok s"
  shows "ids_ok (snd (DrainCommands sn s))" (is "ids_ok ?t")
proof (rule ids_okI)
  have mem: "sn' \<noteq> sn \<and> e \<in> set (queueOf sn' s)" if "e \<in> set (queueOf sn' ?t)" for e sn'
    using that by (simp add: queueOf_Drain split: if_splits)
  have t: "cmdID ?t = cmdID s"
      "pendingCommands ?t = recordPending sn (queueOf sn s) (pendingCommands s)"
    by (simp_all add: DrainCommands_def Let_def)
  fix sn' sn'' e e' i p
  show "sorted_wrt (<) (map ce_ID (queueOf sn' ?t))"
    using ids_okD(1) [OF ids] by (simp add: queueOf_Drain)
  show "0 < ce_ID e \<and> ce_ID e \<le> cmdID ?t \<and> fmlookup (pendingCommands ?t) (ce_ID e) = None"
    if "e \<in> set (queueOf sn' ?t)"
  proof -
    have "ce_ID e \<notin> ce_ID ` set (queueOf sn s)"
      using mem [OF that] ids_okD(3) [OF ids, of e sn' _ sn] by blast
    then show ?thesis
      using mem [OF that] ids_okD(2) [OF ids, of e sn'] by (simp add: t recordPending_other)
  qed
  show "sn' = sn''"
    if "e \<in> set (queueOf sn' ?t)" "e' \<in> set (queueOf sn'' ?t)" "ce_ID e = ce_ID e'"
    using mem [OF that(1)] mem [OF that(2)] that(3) ids_okD(3) [OF ids] by blast
  show "0 < i \<and> i \<le> cmdID ?t" if "fmlookup (pendingCommands ?t) i = Some p"
    using recordPending_Some [OF that [unfolded t]] ids_okD(2,4) [OF ids] by (auto simp: t)
qed

lemma cmd_inv_Drain [inv_intros]:
  assumes "cmd_inv s"
  shows "cmd_inv (snd (DrainCommands sn s))"
proof -
  let ?t = "snd (DrainCommands sn s)"
  have t: "devices ?t = devices s" "maxCommandsPerDevice ?t = maxCommandsPerDevice s"
      "commandQueue ?t = fmdrop sn (commandQueue s)"
      "pendingCommands ?t = recordPending sn (queueOf sn s) (pendingCommands s)"
    by (simp_all add: DrainCommands_def Let_def)
  have known: "sn |\<in>| fmdom (devices s)" if "e \<in> set (queueOf sn s)" for e
  proof -
    have "sn |\<in>| fmdom (commandQueue s)"
      using that by (cases "fmlookup (commandQueue s) sn") (auto simp: queueOf_def intro: fmdomI)
    then show ?thesis using assms by (auto simp: cmd_inv_def owner_ok_def)
  qed
  have "owner_ok ?t"
    using assms known unfolding cmd_inv_def owner_ok_def t fmpred_iff
    by (auto simp: pending_of_def dest!: recordPending_Some)
  moreover have "wire_ok ?t" "limit_ok ?t" "ids_ok ?t"
    using assms by (auto simp: cmd_inv_def wire_ok_def limit_ok_def queueOf_Drain outstanding_Drain
        ids_ok_Drain t)
  ultimately show ?thesis by (simp add: cmd_inv_def)
qed

text \<open>Dropping whole queues and pending entries keeps the invariant, as long as the owners stay.\<close>

lemma cmd_inv_shrink:
  assumes inv: "cmd_inv s"
    and q: "\<And>sn. queueOf sn t = queueOf sn s \<or> queueOf sn t = []"
    and p: "\<And>i e. fmlookup (pendingCommands t) i = Some e \<Longrightarrow> fmlookup (pendingCommands s) i = Some e"
    and same: "cmdID t = cmdID s" "maxCommandsPerDevice t = maxCommandsPerDevice s"
    and owner: "owner_ok t"
  shows "cmd_inv t"
proof -
  have ids: "ids_ok s" using inv by (simp add: cmd_inv_def)
  have mem: "e \<in> set (queueOf sn s)" if "e \<in> set (queueOf sn t)" for e sn
    using that q [of sn] by auto
  have none: "fmlookup (pendingCommands t) i = None" if "fmlookup (pendingCommands s) i = None" for i
    using that p by (metis option.distinct(1) option.exhaust)
  have "ids_ok t"
  proof (rule ids_okI)
    show "sorted_wrt (<) (map ce_ID (queueOf sn t))" for sn
      using q [of sn] ids_okD(1) [OF ids, of sn] by auto
  next
    fix sn e assume "e \<in> set (queueOf sn t)"
    then show "0 < ce_ID e \<and> ce_ID e \<le> cmdID t \<and> fmlookup (pendingCommands t) (ce_ID e) = None"
      using ids_okD(2) [OF ids mem] none same by simp
  next
    fix sn sn' e e' assume "e \<in> set (queueOf sn t)" "e' \<in> set (queueOf sn' t)" "ce_ID e = ce_ID e'"
    then show "sn = sn'" using ids_okD(3) [OF ids mem mem] by blast
  next
    fix i e assume "fmlookup (pendingCommands t) i = Some e"
    then show "0 < i \<and> i \<le> cmdID t" using ids_okD(4) [OF ids p] same by simp
  qed
  moreover have "limit_ok t"
    unfolding limit_ok_def
  proof (intro impI allI)
    fix sn assume "0 < maxCommandsPerDevice t"
    then have "int (outstanding sn s) \<le> maxCommandsPerDevice s"
      using inv same by (simp add: cmd_inv_def limit_ok_def)
    moreover have "pendingCountLocked sn t \<le> pendingCountLocked sn s"
      unfolding pendingCountLocked_def by (rule fmcount_mono) (rule p)
    moreover have "length (queueOf sn t) \<le> length (queueOf sn s)"
      using q [of sn] by auto
    ultimately show "int (outstanding sn t) \<le> maxCommandsPerDevice t"
      using same by (simp add: outstanding_def)
  qed
  moreover have "wire_ok t"
    using inv mem by (auto simp: cmd_inv_def wire_ok_def)
  ultimately show ?thesis using owner by (simp add: cmd_inv_def)
qed

lemma cmd_inv_confirm [inv_intros]:
  "cmd_inv s \<Longrightarrow> cmd_inv (s\<lparr>pendingCommands := fmdrop i (pendingCommands s)\<rparr>)"
  by (rule cmd_inv_shrink [of s]) (auto simp: cmd_inv_def owner_ok_def fmpred_iff split: if_splits)

subsection \<open>Properties\<close>

text \<open>A small server with one registered device, for the examples.\<close>

definition demoServer :: "string \<Rightarrow> ADMSServer" where
  "demoServer sn = snd (RegisterDevice 0 sn [] (newServer UTC))"

lemma valid_demo: "validateSerialNumber ''A'' = None"
  by code_simp

lemma demoServer_A:
  "demoServer ''A'' = (newServer UTC)\<lparr>devices := fmupd ''A''
     \<lparr>SerialNumber = ''A'', LastActivity = 0, Options = fmempty, Timezone = None\<rparr> fmempty\<rparr>"
  by (simp add: demoServer_def RegisterDevice_def valid_demo newServer_def defaultMaxDevices_def)

lemma demo_fields:
  "cmdID (demoServer ''A'') = 0" "queueOf sn (demoServer ''A'') = []"
  "pendingCommands (demoServer ''A'') = fmempty" "maxCommandsPerDevice (demoServer ''A'') = 0"
  "fmdom (devices (demoServer ''A'')) = {|''A''|}" "onCommandResult (demoServer ''A'') = None"
  by (simp_all add: demoServer_A newServer_def queueOf_def)

lemma demo_queue:
  "validateCommandField ''command'' c = None \<Longrightarrow> QueueCommand ''A'' c (demoServer ''A'') =
    (1, None, (demoServer ''A'')\<lparr>cmdID := 1, commandQueue := fmupd ''A'' [\<lparr>ce_ID = 1, ce_Command = c\<rparr>] fmempty\<rparr>)"
  by (simp add: QueueCommand_def takeID_def enqueueLocked_def demoServer_A newServer_def queueOf_def)

lemma demo_inv: "cmd_inv (demoServer ''A'')"
  by (rule cmd_inv_more_devices [OF cmd_inv_pristine [OF pristine_newServer, of UTC]])
    (simp_all add: demoServer_A newServer_def)

text \<open>The commands accepted for a device are handed to it exactly once, in the order in which they
  were queued, whatever was queued for other devices in between.\<close>

lemma commands_fifo:
  assumes "queueOf sn s = []" "mail.puts cs s = (es, u)" "DrainCommands sn u = (q, v)"
  shows "q = mail.sent_to sn es \<and> fst (DrainCommands sn v) = []"
  by (rule mail.fifo [OF assms])

text \<open>C26 \<open>QueueCommand\<close> accepts a command exactly when it has no line break, the device is registered
  and the device's queued and pending commands together are below the limit; the invariant of queues,
  IDs, owners and limits is kept in every case.\<close>

theorem queue_accepts:
  assumes "cmd_inv s" "id_room s"
  shows "(fst (snd (QueueCommand sn c s)) = None) =
      (CR \<notin> set c \<and> NL \<notin> set c \<and> sn |\<in>| fmdom (devices s)
       \<and> (maxCommandsPerDevice s \<le> 0 \<or> int (outstanding sn s) < maxCommandsPerDevice s))
    \<and> cmd_inv (snd (snd (QueueCommand sn c s)))"
proof
  show "cmd_inv (snd (snd (QueueCommand sn c s)))" by (rule cmd_inv_QueueCommand [OF assms])
  show "(fst (snd (QueueCommand sn c s)) = None) =
      (CR \<notin> set c \<and> NL \<notin> set c \<and> sn |\<in>| fmdom (devices s)
       \<and> (maxCommandsPerDevice s \<le> 0 \<or> int (outstanding sn s) < maxCommandsPerDevice s))"
    by (cases rule: QueueCommand_cases [of sn c s])
      (auto simp: outstanding_def validateCommandField_def ContainsAny_iff fmlookup_dom_iff split: if_splits)
qed

theorem queue_accepts_witness:
  "(fst (snd (QueueCommand ''A'' ''INFO'' (demoServer ''A''))) = None) = True
   \<and> cmd_inv (snd (snd (QueueCommand ''A'' ''INFO'' (demoServer ''A''))))"
proof -
  have "id_room (demoServer ''A'')" by (simp add: id_room_def demo_fields)
  from queue_accepts [OF demo_inv this, of "''A''" "''INFO''"] show ?thesis
    by (simp add: demo_fields)
qed

text \<open>Draining hands over the whole queue, whose IDs increase, and records every command as pending
  for the device; nothing is lost or counted twice, so the number of outstanding commands of every
  device is unchanged.\<close>

lemma drain_to_pending:
  assumes "cmd_inv s" "DrainCommands sn s = (q, t)"
  shows "q = queueOf sn s \<and> queueOf sn t = [] \<and> sorted_wrt (<) (map ce_ID q)
    \<and> list_all (\<lambda>e. fmlookup (pendingCommands t) (ce_ID e) = Some (pending_of sn e)) q
    \<and> outstanding k t = outstanding k s"
proof -
  have ids: "ids_ok s" using assms(1) by (simp add: cmd_inv_def)
  show ?thesis
    using drain_facts [OF assms] ids_okD(1) [OF ids] outstanding_Drain [OF ids, of k sn] assms(2) by simp
qed

text \<open>The device reads the fields of a user command after its verb.\<close>

definition userAddPairs :: "string \<Rightarrow> string \<Rightarrow> int \<Rightarrow> string \<Rightarrow> (string \<times> string) list" where
  "userAddPairs pin nm priv cd =
     [(''PIN'', pin), (''Name'', nm), (''Privilege'', itoa priv), (''Card'', cd)]"

lemma userAddText_Join:
  "drop 21 (userAddText pin nm priv cd) = Join TAB (map kvText (userAddPairs pin nm priv cd))"
  by (simp add: userAddText_def userAddPairs_def kvText_def numeral_eq_Suc)

lemma userAddPairs_read:
  assumes "list_all fieldText [pin, nm, cd]"
  shows "\<forall>kv \<in> set (userAddPairs pin nm priv cd). userPart (kvText kv) = Some kv \<and> TAB \<notin> set (kvText kv)"
proof -
  have "fieldText (itoa priv)"
    using TrimSpace_tidy [OF tidy_itoa, of priv] trimmed_TrimSpace [of "itoa priv"]
    by (simp add: fieldText_def itoa_no_blank)
  moreover have "TrimSpace k = k \<and> k \<noteq> [] \<and> graphic (hd k) \<and> CHR ''='' \<notin> set k \<and> TAB \<notin> set k"
    if "k \<in> {''PIN'', ''Name'', ''Privilege'', ''Card''}" for k
    using that by (elim insertE emptyE) (simp_all add: TrimSpace_tidy tidy_def graphic_def)
  ultimately have "userPart (kvText (k, v)) = Some (k, v) \<and> TAB \<notin> set (kvText (k, v))"
    if "k \<in> {''PIN'', ''Name'', ''Privilege'', ''Card''}" "v \<in> {pin, nm, itoa priv, cd}" for k v
    using that assms userPart_fieldValue [of k v] by (auto simp: kvText_def fieldText_def)
  then show ?thesis by (simp add: userAddPairs_def)
qed

text \<open>C34 The text of a user command denotes exactly the user passed, when the PIN is not empty and PIN, name
  and card have no tabs or newlines and no white space at their ends, Unicode's included; what bytes they
  consist of does not matter otherwise.\<close>

theorem user_command_round_trip:
  assumes "pin \<noteq> []" "list_all fieldText [pin, nm, cd]" "is_int64 priv"
  shows "parseUserLine (drop 21 (userAddText pin nm priv cd))
    = Some \<lparr>PIN = pin, Name = nm, Privilege = priv, Card = cd, Password = []\<rparr>"
proof -
  let ?kvs = "userAddPairs pin nm priv cd"
  note read = userAddPairs_read [OF assms(2), of priv]
  have "Split TAB (Join TAB (map kvText ?kvs)) = map kvText ?kvs"
  proof (rule Split_Join)
    show "\<forall>x \<in> set (map kvText ?kvs). TAB \<notin> set x" using read by auto
  qed (simp add: userAddPairs_def)
  moreover have "userFields (map kvText ?kvs) fmempty = foldl (\<lambda>m (k, v). fmupd k v m) fmempty ?kvs"
    using read by (intro userFields_read) blast
  ultimately show ?thesis
    using assms(1,3) by (simp add: parseUserLine_def userAddText_Join userAddPairs_def fmget_def Atoi_def ParseInt_itoa)
qed

text \<open>The name ends with a letter that is not ASCII.\<close>

theorem user_command_round_trip_witness:
  "parseUserLine (drop 21 (userAddText ''7'' (''Ann L'' @ [CHR 0xC3, CHR 0xA9]) 14 ''0012''))
    = Some \<lparr>PIN = ''7'', Name = ''Ann L'' @ [CHR 0xC3, CHR 0xA9], Privilege = 14, Card = ''0012'', Password = []\<rparr>"
proof (rule user_command_round_trip)
  show "list_all fieldText [''7'', ''Ann L'' @ [CHR 0xC3, CHR 0xA9], ''0012'']"
    by (simp add: fieldText_def trimmed_def) (simp add: dropRune_None_iff spaceRunes_def)
qed (simp_all add: is_int64_def minInt64_def maxInt64_def)

text \<open>Tabs are not refused: a card number can carry further fields, so that a call for a normal user
  (privilege 0) is accepted and its command reads as one for an administrator (privilege 14).\<close>

lemma tab_injection:
  "fst (snd (SendUserAddCommand ''A'' ''7'' ''Eve'' 0 (''1'' @ [TAB] @ ''Privilege=14'') (demoServer ''A''))) = None
   \<and> map_option Privilege (parseUserLine (drop 21 (userAddText ''7'' ''Eve'' 0 (''1'' @ [TAB] @ ''Privilege=14''))))
      = Some 14"
proof
  show "fst (snd (SendUserAddCommand ''A'' ''7'' ''Eve'' 0 (''1'' @ [TAB] @ ''Privilege=14'') (demoServer ''A''))) = None"
    using itoa_avoids [of CR 0] itoa_avoids [of NL 0]
    by (simp add: SendUserAddCommand_def QueueCommand_def takeID_def enqueueLocked_def validateCommandField_def
        ContainsAny_iff userAddText_def isDigit_def demoServer_A newServer_def)
  show "map_option Privilege (parseUserLine (drop 21 (userAddText ''7'' ''Eve'' 0 (''1'' @ [TAB] @ ''Privilege=14''))))
      = Some 14"
    by code_simp
qed

end
