(* ===== verification/Adms_Eviction.thy ===== *)
theory Adms_Eviction
  imports Adms_Commands
begin

section \<open>Eviction of stale devices (\<open>adms.go\<close>)\<close>

text \<open>
  \<open>evictStaleDevices\<close> with its loops over maps, in whatever order the runtime ranges over them,
  and the worker that runs it at every tick until the server closes.  The result does not depend on
  the orders: it is the map without the stale devices, their queues and their pending commands.
\<close>

subsection \<open>Operations\<close>

text \<open>Phase 1: the stale serial numbers in the order met, and the devices that remain.  A key
  deleted while ranging is not met again.\<close>

fun evictLoop :: "int \<Rightarrow> int \<Rightarrow> string list \<Rightarrow> string list \<times> (string, Device) fmap
    \<Rightarrow> string list \<times> (string, Device) fmap" where
  "evictLoop now timeout [] acc = acc"
| "evictLoop now timeout (sn # order) (stale, devs) =
     (case fmlookup devs sn of
        None \<Rightarrow> evictLoop now timeout order (stale, devs)
      | Some d \<Rightarrow>
          if timeout < Sub now (LastActivity d)
          then evictLoop now timeout order (stale @ [sn], fmdrop sn devs)
          else evictLoop now timeout order (stale, devs))"

text \<open>Phase 2: the queues of the stale devices, then the pending commands.\<close>

fun dropQueues :: "string list \<Rightarrow> (string, CommandEntry list) fmap \<Rightarrow> (string, CommandEntry list) fmap" where
  "dropQueues [] m = m"
| "dropQueues (sn # stale) m = dropQueues stale (fmdrop sn m)"

fun dropPending :: "string list \<Rightarrow> 64 word list
    \<Rightarrow> (64 word, pendingEntry) fmap \<Rightarrow> (64 word, pendingEntry) fmap" where
  "dropPending stale [] m = m"
| "dropPending stale (i # ids) m =
     (case fmlookup m i of
        None \<Rightarrow> dropPending stale ids m
      | Some entry \<Rightarrow>
          dropPending stale ids (if pe_sn entry \<in> set stale then fmdrop i m else m))"

definition evictPhase1 :: "int \<Rightarrow> string list \<Rightarrow> ADMSServer \<Rightarrow> string list \<times> ADMSServer" where
  "evictPhase1 now order s =
     (case evictLoop now (deviceEvictionTimeout s) order ([], devices s) of
        (stale, devs) \<Rightarrow> (stale, s\<lparr>devices := devs\<rparr>))"

definition evictPhase2 :: "string list \<Rightarrow> 64 word list \<Rightarrow> ADMSServer \<Rightarrow> ADMSServer" where
  "evictPhase2 stale ids s =
     s\<lparr>commandQueue := dropQueues stale (commandQueue s),
       pendingCommands := dropPending stale ids (pendingCommands s)\<rparr>"

definition evictStaleDevices :: "int \<Rightarrow> string list \<Rightarrow> 64 word list \<Rightarrow> ADMSServer \<Rightarrow> ADMSServer" where
  "evictStaleDevices now order ids s =
     (case evictPhase1 now order s of
        (stale, s') \<Rightarrow> if stale = [] then s' else evictPhase2 stale ids s')"

text \<open>The worker's \<open>select\<close>: a tick runs the eviction, the close signal ends the loop.\<close>

datatype evict_event = Tick int "string list" "64 word list" | CloseSignal

fun evictionWorker :: "evict_event list \<Rightarrow> ADMSServer \<Rightarrow> ADMSServer" where
  "evictionWorker [] s = s"
| "evictionWorker (CloseSignal # evs) s = s"
| "evictionWorker (Tick now order ids # evs) s = evictionWorker evs (evictStaleDevices now order ids s)"

subsection \<open>The specification\<close>

definition tooOld :: "int \<Rightarrow> int \<Rightarrow> Device option \<Rightarrow> bool" where
  "tooOld now timeout dev = (case dev of None \<Rightarrow> False | Some d \<Rightarrow> timeout < Sub now (LastActivity d))"

definition isStale :: "int \<Rightarrow> ADMSServer \<Rightarrow> string \<Rightarrow> bool" where
  "isStale now s sn \<longleftrightarrow> tooOld now (deviceEvictionTimeout s) (fmlookup (devices s) sn)"

definition evicted :: "int \<Rightarrow> ADMSServer \<Rightarrow> ADMSServer" where
  "evicted now s =
     s\<lparr>devices := fmfilter (\<lambda>sn. \<not> isStale now s sn) (devices s),
       commandQueue := fmfilter (\<lambda>sn. \<not> isStale now s sn) (commandQueue s),
       pendingCommands := fmfilter (\<lambda>i. case fmlookup (pendingCommands s) i of
           None \<Rightarrow> True | Some entry \<Rightarrow> \<not> isStale now s (pe_sn entry)) (pendingCommands s)\<rparr>"

lemma tooOld_simps [simp]:
  "\<not> tooOld now timeout None"
  "tooOld now timeout (Some d) \<longleftrightarrow> timeout < Sub now (LastActivity d)"
  by (simp_all add: tooOld_def)

lemma evictLoop_stale:
  "distinct order \<Longrightarrow> fst (evictLoop now timeout order (acc, m))
      = acc @ filter (\<lambda>sn. tooOld now timeout (fmlookup m sn)) order"
proof (induction order arbitrary: acc m)
  case (Cons sn order)
  have "filter (\<lambda>k. tooOld now timeout (fmlookup (fmdrop sn m) k)) order
      = filter (\<lambda>k. tooOld now timeout (fmlookup m k)) order"
    using Cons.prems by (intro filter_cong) auto
  with Cons show ?case by (cases "fmlookup m sn") simp_all
qed simp

lemma evictLoop_devices:
  "fmlookup (snd (evictLoop now timeout order (acc, m))) k
      = (if k \<in> set order \<and> tooOld now timeout (fmlookup m k) then None else fmlookup m k)"
proof (induction order arbitrary: acc m)
  case (Cons sn order)
  then show ?case
    by (cases "fmlookup m sn"; cases "sn = k") auto
qed simp

lemma fmlookup_dropQueues:
  "fmlookup (dropQueues stale m) k = (if k \<in> set stale then None else fmlookup m k)"
  by (induction stale arbitrary: m) auto

lemma fmlookup_dropPending:
  "fmlookup (dropPending stale ids m) i =
     (if i \<in> set ids \<and> (case fmlookup m i of None \<Rightarrow> False | Some e \<Rightarrow> pe_sn e \<in> set stale)
      then None else fmlookup m i)"
  by (induction ids arbitrary: m) (auto split: option.splits if_splits)

text \<open>Whatever the orders, eviction is the specification.\<close>

lemma evictStaleDevices_eq:
  assumes "iteration order (devices s)" "iteration ids (pendingCommands s)"
  shows "evictStaleDevices now order ids s = evicted now s"
proof -
  obtain st devs where p: "evictLoop now (deviceEvictionTimeout s) order ([], devices s) = (st, devs)"
    by (cases "evictLoop now (deviceEvictionTimeout s) order ([], devices s)")
  have d: "distinct order" and o: "set order = fset (fmdom (devices s))"
    and i: "set ids = fset (fmdom (pendingCommands s))"
    using assms by (auto simp: iteration_def)
  have known: "sn \<in> set order" if "isStale now s sn" for sn
    using that by (cases "fmlookup (devices s) sn") (auto simp: o isStale_def intro: fmdomI)
  have iff: "sn \<in> set st \<longleftrightarrow> isStale now s sn" for sn
    using evictLoop_stale [OF d, of now "deviceEvictionTimeout s" "[]" "devices s"] p known
    by (auto simp: isStale_def)
  have devs: "devs = fmfilter (\<lambda>sn. \<not> isStale now s sn) (devices s)"
  proof (rule fmap_ext)
    fix k
    show "fmlookup devs k = fmlookup (fmfilter (\<lambda>sn. \<not> isStale now s sn) (devices s)) k"
      using evictLoop_devices [of now "deviceEvictionTimeout s" order "[]" "devices s" k] p known [of k]
      by (auto simp: isStale_def)
  qed
  have q: "dropQueues st (commandQueue s) = fmfilter (\<lambda>sn. \<not> isStale now s sn) (commandQueue s)"
    by (rule fmap_ext) (simp add: fmlookup_dropQueues iff)
  have pe: "dropPending st ids (pendingCommands s) = fmfilter (\<lambda>i. case fmlookup (pendingCommands s) i of
      None \<Rightarrow> True | Some entry \<Rightarrow> \<not> isStale now s (pe_sn entry)) (pendingCommands s)"
    by (rule fmap_ext) (auto simp: fmlookup_dropPending iff i fmlookup_dom_iff split: option.splits)
  have "commandQueue s = dropQueues st (commandQueue s)" "pendingCommands s = dropPending st ids (pendingCommands s)"
    if "st = []"
    using that by (auto intro!: fmap_ext simp: fmlookup_dropPending split: option.split)
  with p devs q pe show ?thesis
    by (auto simp: evictStaleDevices_def evictPhase1_def evictPhase2_def evicted_def)
qed

subsection \<open>Eviction keeps the invariants\<close>

lemma evicted_fields [simp]:
  "cmdID (evicted now s) = cmdID s" "maxCommandsPerDevice (evicted now s) = maxCommandsPerDevice s"
  "maxDevices (evicted now s) = maxDevices s" "callbackCh (evicted now s) = callbackCh s"
  "callbackBufferSize (evicted now s) = callbackBufferSize s" "cbLog (evicted now s) = cbLog s"
  "closing (evicted now s) = closing s"
  by (simp_all add: evicted_def)

lemma lookup_evicted:
  "fmlookup (devices (evicted now s)) sn = (if isStale now s sn then None else fmlookup (devices s) sn)"
  "queueOf sn (evicted now s) = (if isStale now s sn then [] else queueOf sn s)"
  "fmlookup (pendingCommands (evicted now s)) i =
    (case fmlookup (pendingCommands s) i of
       None \<Rightarrow> None | Some e \<Rightarrow> if isStale now s (pe_sn e) then None else Some e)"
  by (auto simp: evicted_def queueOf_def split: option.split)

lemma dev_inv_evicted [inv_intros]: "dev_inv s \<Longrightarrow> dev_inv (evicted now s)"
  using fmsize_filter_le [of "\<lambda>sn. \<not> isStale now s sn" "devices s"]
  by (auto simp: dev_inv_def fmpred_iff evicted_def)

lemma owner_ok_evicted:
  assumes "owner_ok s"
  shows "owner_ok (evicted now s)"
proof -
  have "fmpred (\<lambda>_ e. pe_sn e |\<in>| fmdom (devices (evicted now s))) (pendingCommands (evicted now s))"
    using assms by (auto simp: owner_ok_def fmpred_iff lookup_evicted fmlookup_dom_iff
        split: option.splits if_splits)
  moreover have "fmdom (commandQueue (evicted now s)) |\<subseteq>| fmdom (devices (evicted now s))"
    using assms by (auto simp: owner_ok_def evicted_def)
  ultimately show ?thesis by (simp add: owner_ok_def)
qed

lemma cmd_inv_evicted [inv_intros]:
  assumes "cmd_inv s"
  shows "cmd_inv (evicted now s)"
  by (rule cmd_inv_shrink [OF assms])
    (use assms in \<open>auto simp: lookup_evicted cmd_inv_def intro: owner_ok_evicted split: option.splits if_splits\<close>)

subsection \<open>Properties\<close>

text \<open>C22 Whatever order the runtime ranges over the maps in, one eviction removes exactly the stale
  devices, with their queues and all their pending commands, and nothing else.\<close>

theorem eviction_refines_spec:
  assumes "iteration order (devices s)" "iteration ids (pendingCommands s)"
  shows "evictStaleDevices now order ids s = evicted now s"
  by (rule evictStaleDevices_eq [OF assms])

theorem eviction_refines_spec_witness:
  "fmlookup (devices (evictStaleDevices 86400000000001 [''A''] [] (demoServer ''A''))) ''A'' = None"
proof -
  let ?s = "demoServer ''A''"
  have it: "iteration [''A''] (devices ?s)" "iteration [] (pendingCommands ?s)"
    by (simp_all add: iteration_def demo_fields)
  have "isStale 86400000000001 ?s ''A''"
    by (simp add: isStale_def demoServer_A newServer_def defaultDeviceEvictionTimeout_def second_def
        Sub_def minInt64_def maxInt64_def)
  then show ?thesis
    unfolding eviction_refines_spec [OF it] by (simp add: lookup_evicted)
qed

text \<open>A device whose last request is no older than the eviction timeout keeps its registration, its
  queue and its pending commands.\<close>

lemma active_device_kept:
  assumes "iteration order (devices s)" "iteration ids (pendingCommands s)"
    "fmlookup (devices s) sn = Some d" "now - LastActivity d \<le> deviceEvictionTimeout s"
    "0 < deviceEvictionTimeout s" "deviceEvictionTimeout s < maxInt64"
  shows "fmlookup (devices (evictStaleDevices now order ids s)) sn = Some d
    \<and> queueOf sn (evictStaleDevices now order ids s) = queueOf sn s
    \<and> pendingCountLocked sn (evictStaleDevices now order ids s) = pendingCountLocked sn s"
proof -
  have "is_int64 (deviceEvictionTimeout s)" using assms(5,6) by (simp add: is_int64_def minInt64_def)
  then have "\<not> isStale now s sn"
    using assms(3,4,6) Sub_le_iff [of "deviceEvictionTimeout s" now "LastActivity d"]
    by (simp add: isStale_def)
  moreover from this have "pendingCountLocked sn (evicted now s) = pendingCountLocked sn s"
    unfolding pendingCountLocked_def by (intro fmcount_cong) (auto simp: lookup_evicted split: option.split)
  ultimately show ?thesis
    by (simp add: evictStaleDevices_eq [OF assms(1,2)] lookup_evicted assms(3))
qed

end
