(* ===== verification/Adms_Handlers.thy ===== *)
theory Adms_Handlers
  imports Adms_Eviction Adms_Texts
begin

section \<open>The HTTP handlers (\<open>handler.go\<close>)\<close>

text \<open>
  Each handler maps a request to a response and the server afterwards.  What the surroundings
  decide during one request is its environment: the clock at the registration and at the activity
  update, the scheduler at each dispatch, the order a listing ranges in, and the clock when it looks at
  each device.  A helper that writes an
  error response and reports failure returns that response (\<open>Inl\<close>).  Logging is left out.
\<close>

record env =
  ev_register :: int
  ev_activity :: int
  ev_sched :: "nat \<Rightarrow> sched"
  ev_order :: "string list"
  ev_seen :: "string \<Rightarrow> int"

type_synonym handler = "env \<Rightarrow> request \<Rightarrow> ADMSServer \<Rightarrow> response \<times> ADMSServer"

subsection \<open>Helpers\<close>

definition okText :: "string \<Rightarrow> response" where
  "okText t = \<lparr>rs_status = 200, rs_text = t\<rparr>"

definition readBody :: "request \<Rightarrow> ADMSServer \<Rightarrow> response + string" where
  "readBody r s =
     (case readAll (maxBodySize s) (rq_body r) of
        Inl TooLarge \<Rightarrow> Inl (httpError ''Request body too large'' 413)
      | Inl ReadFailed \<Rightarrow> Inl (httpError ''Failed to read body'' 400)
      | Inr body \<Rightarrow> Inr body)"

definition requireMethod :: "request \<Rightarrow> string list \<Rightarrow> response option" where
  "requireMethod r methods =
     (if rq_method r \<in> set methods then None else Some (httpError respMethodNotAllowed 405))"

definition requireSerialNumber :: "request \<Rightarrow> response + string" where
  "requireSerialNumber r =
     (let sn = queryGet paramSN (ParseQuery (rq_query r)) in
      if sn = [] then Inl (httpError respMissingSN 400)
      else if validateSerialNumber sn \<noteq> None then Inl (httpError respInvalidSN 400)
      else Inr sn)"

definition registerOrReject :: "int \<Rightarrow> string \<Rightarrow> ADMSServer \<Rightarrow> response option \<times> ADMSServer" where
  "registerOrReject now sn s =
     (case RegisterDevice now sn [] s of
        (None, s') \<Rightarrow> (None, s')
      | (Some err, s') \<Rightarrow>
          (Some (if err = ErrMaxDevicesReached then httpError respDeviceLimitMsg 503
                 else httpError respInvalidSN 400), s'))"

definition requireDevice :: "env \<Rightarrow> request \<Rightarrow> ADMSServer \<Rightarrow> (response + string) \<times> ADMSServer" where
  "requireDevice e r s =
     (case requireSerialNumber r of
        Inl rs \<Rightarrow> (Inl rs, s)
      | Inr sn \<Rightarrow>
          (case registerOrReject (ev_register e) sn s of
             (Some rs, s') \<Rightarrow> (Inl rs, s')
           | (None, s') \<Rightarrow> (Inr sn, updateDeviceActivity (ev_activity e) sn s')))"

definition writeCommandsOrOK :: "string \<Rightarrow> ADMSServer \<Rightarrow> response \<times> ADMSServer" where
  "writeCommandsOrOK sn s =
     (case DrainCommands sn s of
        (commands, s') \<Rightarrow>
          (okText (if commands \<noteq> [] then concat (map (\<lambda>c. wireLine c @ [NL]) commands) else respOK), s'))"

text \<open>The methods and the registration a handler starts with, then its body.\<close>

definition guarded :: "string list \<Rightarrow> (env \<Rightarrow> request \<Rightarrow> string \<Rightarrow> ADMSServer \<Rightarrow> response \<times> ADMSServer) \<Rightarrow> handler" where
  "guarded methods body e r s =
     (case requireMethod r methods of
        Some rs \<Rightarrow> (rs, s)
      | None \<Rightarrow>
          (case requireDevice e r s of
             (Inl rs, s') \<Rightarrow> (rs, s')
           | (Inr sn, s') \<Rightarrow> body e r sn s'))"

subsection \<open>\<open>HandleCData\<close>\<close>

definition queueFull :: "string \<Rightarrow> response" where
  "queueFull what = httpError (''FAIL: callback queue full, '' @ what) 503"

definition cdataAttlog :: "env \<Rightarrow> request \<Rightarrow> string \<Rightarrow> ADMSServer \<Rightarrow> response \<times> ADMSServer" where
  "cdataAttlog e r sn s =
     (case readBody r s of
        Inl rs \<Rightarrow> (rs, s)
      | Inr body \<Rightarrow>
          (let records = parseAttendanceRecords s body sn (Some (deviceLocationLocked sn s));
               count = itoa (int (length records))
           in (case dispatchAttendance (ev_sched e 0) records s of
                 (False, s') \<Rightarrow> (queueFull (count @ '' records not processed''), s')
               | (True, s') \<Rightarrow> (okText (''OK: '' @ count), s'))))"

definition cdataUserinfo :: "env \<Rightarrow> request \<Rightarrow> string \<Rightarrow> ADMSServer \<Rightarrow> response \<times> ADMSServer" where
  "cdataUserinfo e r sn s =
     (case readBody r s of
        Inl rs \<Rightarrow> (rs, s)
      | Inr body \<Rightarrow>
          if body = [] then (okText respOK, s)
          else (let users = parseUserRecords body in
                case dispatchQueryUsers (ev_sched e 0) sn users s of
                  (False, s') \<Rightarrow>
                    (queueFull (itoa (int (length users)) @ '' user records not processed''), s')
                | (True, s') \<Rightarrow> (okText respOK, s')))"

definition cdataInfo :: "env \<Rightarrow> request \<Rightarrow> string \<Rightarrow> ADMSServer \<Rightarrow> response \<times> ADMSServer" where
  "cdataInfo e r sn s =
     (if rq_method r = ''POST'' then
        (case readBody r s of
           Inl rs \<Rightarrow> (rs, s)
         | Inr body \<Rightarrow>
             if body = [] then writeCommandsOrOK sn s
             else (case dispatchDeviceInfo (ev_sched e 0) sn (parseKVPairs body NL None) s of
                     (False, s') \<Rightarrow> (queueFull ''device info not processed'', s')
                   | (True, s') \<Rightarrow> writeCommandsOrOK sn s'))
      else writeCommandsOrOK sn s)"

definition cdataBody :: "env \<Rightarrow> request \<Rightarrow> string \<Rightarrow> ADMSServer \<Rightarrow> response \<times> ADMSServer" where
  "cdataBody e r sn s =
     (let table = queryGet paramTable (ParseQuery (rq_query r)) in
      if table = tableATTLOG then cdataAttlog e r sn s
      else if table = tableOPERLOG then (okText respOK, s)
      else if table = tableUSERINFO then cdataUserinfo e r sn s
      else cdataInfo e r sn s)"

definition HandleCData :: handler where
  "HandleCData = guarded [''GET'', ''POST''] cdataBody"

subsection \<open>\<open>HandleGetRequest\<close>\<close>

definition HandleGetRequest :: handler where
  "HandleGetRequest = guarded [''GET''] (\<lambda>e r sn s. writeCommandsOrOK sn s)"

subsection \<open>\<open>HandleDeviceCmd\<close>\<close>

text \<open>The result with the queued command of its ID, if one is pending.\<close>

definition withQueued :: "CommandResult \<Rightarrow> ADMSServer \<Rightarrow> CommandResult" where
  "withQueued r s =
     (case fmlookup (pendingCommands s) (cr_ID r) of
        None \<Rightarrow> r
      | Some entry \<Rightarrow> r\<lparr>QueuedCommand := pe_cmd entry\<rparr>)"

text \<open>The loop over the results: the ID at which it gave up, if it did.\<close>

fun confirmLoop :: "(nat \<Rightarrow> sched) \<Rightarrow> nat \<Rightarrow> CommandResult list \<Rightarrow> ADMSServer
    \<Rightarrow> 64 word option \<times> ADMSServer" where
  "confirmLoop sch k [] s = (None, s)"
| "confirmLoop sch k (r # rs) s =
     (case dispatchCommandResult (sch k) (withQueued r s) s of
        (False, s') \<Rightarrow> (Some (cr_ID r), s')
      | (True, s') \<Rightarrow>
          confirmLoop sch (Suc k) rs (s'\<lparr>pendingCommands := fmdrop (cr_ID r) (pendingCommands s')\<rparr>))"

definition deviceCmdBody :: "env \<Rightarrow> request \<Rightarrow> string \<Rightarrow> ADMSServer \<Rightarrow> response \<times> ADMSServer" where
  "deviceCmdBody e r sn s =
     (case readBody r s of
        Inl rs \<Rightarrow> (rs, s)
      | Inr body \<Rightarrow>
          (case confirmLoop (ev_sched e) 0 (parseCommandResults body sn) s of
             (Some i, s') \<Rightarrow>
               (queueFull (''command result '' @ itoa (sint i) @ '' not processed''), s')
           | (None, s') \<Rightarrow> (okText respOK, s')))"

definition HandleDeviceCmd :: handler where
  "HandleDeviceCmd = guarded [''POST''] deviceCmdBody"

subsection \<open>\<open>HandleRegistry\<close>\<close>

text \<open>\<open>maps.Copy(dev.Options, info)\<close>, when the device is there.\<close>

definition copyOptions :: "string \<Rightarrow> info \<Rightarrow> ADMSServer \<Rightarrow> ADMSServer" where
  "copyOptions sn info s =
     (case fmlookup (devices s) sn of
        None \<Rightarrow> s
      | Some dev \<Rightarrow> s\<lparr>devices := fmupd sn (dev\<lparr>Options := Options dev ++\<^sub>f info\<rparr>) (devices s)\<rparr>)"

definition registryBody :: "env \<Rightarrow> request \<Rightarrow> string \<Rightarrow> ADMSServer \<Rightarrow> response \<times> ADMSServer" where
  "registryBody e r sn s =
     (case readBody r s of
        Inl rs \<Rightarrow> (rs, s)
      | Inr body \<Rightarrow>
          if body = [] then (okText respOK, s)
          else (let info = parseKVPairs body CHR '','' (Some trimTildePrefix) in
                case dispatchRegistry (ev_sched e 0) sn info (copyOptions sn info s) of
                  (False, s') \<Rightarrow> (queueFull ''registry info not processed'', s')
                | (True, s') \<Rightarrow> (okText respOK, s')))"

definition HandleRegistry :: handler where
  "HandleRegistry = guarded [''GET'', ''POST''] registryBody"

subsection \<open>\<open>HandleInspect\<close> and routing\<close>

definition snapshotOf :: "int \<Rightarrow> ADMSServer \<Rightarrow> Device \<Rightarrow> DeviceSnapshot" where
  "snapshotOf now s d =
     (let dc = Device_copy d in
      \<lparr>snap_Serial = SerialNumber dc, snap_LastActivity = LastActivity dc,
       snap_Online = isDeviceOnline now (Some d) s, snap_Options = Options dc,
       snap_Timezone = loc_name (deviceLocationLocked (SerialNumber dc) s)\<rparr>)"

definition inspectSnapshots :: "(string \<Rightarrow> int) \<Rightarrow> string list \<Rightarrow> ADMSServer \<Rightarrow> DeviceSnapshot list" where
  "inspectSnapshots seen order s =
     List.map_filter (\<lambda>sn. map_option (snapshotOf (seen sn) s) (fmlookup (devices s) sn)) order"

text \<open>\<open>json.Marshal\<close> is an argument: it prints the snapshots, their number and the time.\<close>

type_synonym marshal = "DeviceSnapshot list \<Rightarrow> int \<Rightarrow> int \<Rightarrow> string option"

definition HandleInspect :: "marshal \<Rightarrow> handler" where
  "HandleInspect marshal e r s =
     (case requireMethod r [''GET''] of
        Some rs \<Rightarrow> (rs, s)
      | None \<Rightarrow>
          (let snaps = inspectSnapshots (ev_seen e) (ev_order e) s in
           case marshal snaps (int (length snaps)) (ev_register e) of
             None \<Rightarrow> (httpError ''failed to encode response'' 500, s)
           | Some data \<Rightarrow> (okText (data @ [NL]), s)))"

definition ServeHTTP :: "marshal \<Rightarrow> handler" where
  "ServeHTTP marshal e r s =
     (let path = rq_path r in
      if HasSuffix path routeCData then HandleCData e r s
      else if HasSuffix path routeGetRequest then HandleGetRequest e r s
      else if HasSuffix path routeDeviceCmd then HandleDeviceCmd e r s
      else if HasSuffix path routeRegistry then HandleRegistry e r s
      else if HasSuffix path routeInspect then
        (if \<not> enableInspect s then (httpNotFound, s) else HandleInspect marshal e r s)
      else (httpNotFound, s))"

subsection \<open>The invariant of the server\<close>

definition sys_inv :: "ADMSServer \<Rightarrow> bool" where
  "sys_inv s \<longleftrightarrow> dev_inv s \<and> cmd_inv s \<and> chan_ok s"

lemma sys_inv_registry:
  assumes "sys_inv s" "rest_of t = rest_of s" "fmdom (devices s) |\<subseteq>| fmdom (devices t)" "dev_inv t"
  shows "sys_inv t"
proof -
  note eq = rest_of_eqD [OF assms(2)]
  have inv: "cmd_inv s" "chan_ok s" using assms(1) by (simp_all add: sys_inv_def)
  have "cmd_inv t"
    by (rule cmd_inv_more_devices [OF inv(1) eq(1,2,3) assms(3) eq(8)])
  moreover have "chan_ok t"
    using inv(2) unfolding chan_ok_def eq(4) eq(11) .
  ultimately show ?thesis using assms(4) by (simp add: sys_inv_def)
qed

lemma sys_inv_core:
  assumes "sys_inv s" "core t = core s" "chan_ok t"
  shows "sys_inv t"
proof -
  note eq = core_eqD [OF assms(2)]
  have "dev_inv t" using assms(1) eq dev_inv_cong [of t s] by (simp add: sys_inv_def)
  moreover have "cmd_inv t" using assms(1) eq cmd_inv_cong [of t s] by (simp add: sys_inv_def)
  ultimately show ?thesis using assms(3) by (simp add: sys_inv_def)
qed

lemma sys_inv_RegisterDevice [inv_intros]:
  assumes "sys_inv s" "keeps_serial opts"
  shows "sys_inv (snd (RegisterDevice now sn opts s))"
  using assms
  by (intro sys_inv_registry [OF assms(1)])
    (auto simp: rest_of_RegisterDevice fmdom_RegisterDevice sys_inv_def intro: dev_inv_RegisterDevice)

lemma sys_inv_SetDeviceTimezone [inv_intros]: "sys_inv s \<Longrightarrow> sys_inv (snd (SetDeviceTimezone sn loc s))"
  by (rule sys_inv_registry [of s])
    (auto simp: rest_of_SetDeviceTimezone fmdom_SetDeviceTimezone sys_inv_def intro: dev_inv_SetDeviceTimezone)

lemma sys_inv_updateDeviceActivity [inv_intros]: "sys_inv s \<Longrightarrow> sys_inv (updateDeviceActivity now sn s)"
  by (rule sys_inv_registry [of s])
    (auto simp: rest_of_updateDeviceActivity fmdom_updateDeviceActivity sys_inv_def
      intro: dev_inv_updateDeviceActivity)

lemma sys_inv_copyOptions [inv_intros]: "sys_inv s \<Longrightarrow> sys_inv (copyOptions sn info s)"
  by (rule sys_inv_registry [of s])
    (auto simp: copyOptions_def sys_inv_def split: option.split intro: dev_inv_upd_old)

lemma sys_inv_workerTake [inv_intros]: "sys_inv s \<Longrightarrow> sys_inv (workerTake s)"
  by (rule sys_inv_core [of s]) (auto simp: sys_inv_def intro: chan_ok_workerTake)

lemma sys_inv_dispatchCallback [inv_intros]: "sys_inv s \<Longrightarrow> sys_inv (snd (dispatchCallback e q s))"
  by (rule sys_inv_core [of s]) (auto simp: sys_inv_def core_dispatchCallback intro: chan_ok_dispatchCallback)

lemmas dispatch_defs = dispatchAttendance_def dispatchMapCallback_def dispatchDeviceInfo_def
  dispatchRegistry_def dispatchCommandResult_def dispatchQueryUsers_def

lemma sys_inv_DrainCommands [inv_intros]:
  assumes "sys_inv s"
  shows "sys_inv (snd (DrainCommands sn s))"
proof -
  have "dev_inv (snd (DrainCommands sn s)) = dev_inv s"
    by (rule dev_inv_cong) (simp_all add: DrainCommands_def Let_def)
  then show ?thesis
    using assms by (simp add: sys_inv_def cmd_inv_Drain)
      (simp add: chan_ok_def DrainCommands_def Let_def)
qed

lemma sys_inv_confirm [inv_intros]:
  "sys_inv s \<Longrightarrow> sys_inv (s\<lparr>pendingCommands := fmdrop i (pendingCommands s)\<rparr>)"
  by (simp add: sys_inv_def cmd_inv_confirm) (simp add: dev_inv_def chan_ok_def)

subsection \<open>What every handler keeps\<close>

text \<open>The closures the handlers build for a serial number, at the state they send them from: each from
  what a parser read in the body of the request.\<close>

inductive built :: "ADMSServer \<Rightarrow> string \<Rightarrow> closure \<Rightarrow> bool" where
  built_attendance: "built s sn (AttendanceBatch (parseAttendanceRecords s body sn loc))"
| built_info: "built s sn (DeviceInfoCall sn (parseKVPairs body NL None))"
| built_registry: "built s sn (RegistryCall sn (parseKVPairs body CHR '','' (Some trimTildePrefix)))"
| built_result: "r \<in> set (parseCommandResults body sn) \<Longrightarrow> built s sn (CommandResultCall (withQueued r s))"
| built_users: "parseUserRecords body \<noteq> [] \<Longrightarrow> built s sn (QueryUsersCall sn (parseUserRecords body))"

text \<open>
  A handler changes the server by six kinds of parts, each for the serial number of the request: it
  registers and touches the device, copies options, sends a closure, drains the queue, or runs one
  iteration of the loop over the confirmations.  A property that the parts keep for the serial numbers
  in \<open>only\<close> is kept by every handler, whatever else the request holds.
\<close>

locale handler_steps =
  fixes P :: "ADMSServer \<Rightarrow> bool"
    and only :: "string \<Rightarrow> bool"
  assumes step_register: "only sn \<Longrightarrow> P s \<Longrightarrow> P (snd (RegisterDevice now sn [] s))"
    and step_touch: "only sn \<Longrightarrow> P s \<Longrightarrow> P (updateDeviceActivity now sn s)"
    and step_copy: "only sn \<Longrightarrow> P s \<Longrightarrow> P (copyOptions sn info s)"
    and step_send: "only sn \<Longrightarrow> built s sn q \<Longrightarrow> \<nexists>r. q = CommandResultCall r \<Longrightarrow> P s
      \<Longrightarrow> P (snd (dispatchCallback e q s))"
    and step_drain: "only sn \<Longrightarrow> P s \<Longrightarrow> P (snd (DrainCommands sn s))"
    and step_result: "only sn \<Longrightarrow> r \<in> set (parseCommandResults body sn) \<Longrightarrow> P s
      \<Longrightarrow> P (snd (confirmLoop sch k [r] s))"
begin

lemma P_dispatch:
  assumes "only sn" "P s"
  shows "P (snd (dispatchAttendance e (parseAttendanceRecords s body sn loc) s))"
    "P (snd (dispatchDeviceInfo e sn (parseKVPairs body NL None) s))"
    "P (snd (dispatchRegistry e sn (parseKVPairs body CHR '','' (Some trimTildePrefix)) s))"
    "P (snd (dispatchQueryUsers e sn (parseUserRecords body) s))"
  using assms by (auto simp: dispatch_defs intro: step_send built.intros)

text \<open>Case distinctions on a result whose state keeps the property.\<close>

lemma P_case_bool:
  "P (snd p) \<Longrightarrow> (\<And>t. P t \<Longrightarrow> P (snd (f t))) \<Longrightarrow> (\<And>t. P t \<Longrightarrow> P (snd (g t))) \<Longrightarrow>
    P (snd (case p of (False, t) \<Rightarrow> f t | (True, t) \<Rightarrow> g t))"
  by (cases p; cases "fst p") auto

lemma P_case_option:
  "P (snd p) \<Longrightarrow> (\<And>i t. P t \<Longrightarrow> P (snd (f i t))) \<Longrightarrow> (\<And>t. P t \<Longrightarrow> P (snd (g t))) \<Longrightarrow>
    P (snd (case p of (Some i, t) \<Rightarrow> f i t | (None, t) \<Rightarrow> g t))"
  by (cases p; cases "fst p") auto

lemma P_case_read:
  "(\<And>rs. p = Inl rs \<Longrightarrow> P (snd (f rs))) \<Longrightarrow> (\<And>b. p = Inr b \<Longrightarrow> P (snd (g b))) \<Longrightarrow>
    P (snd (case p of Inl rs \<Rightarrow> f rs | Inr b \<Rightarrow> g b))"
  by (cases p) auto

lemmas P_cases = P_case_bool P_case_option P_case_read

lemma P_requireDevice:
  assumes "P s" "\<And>sn. requireSerialNumber r = Inr sn \<Longrightarrow> only sn"
  shows "P (snd (requireDevice e r s))"
proof (cases "requireSerialNumber r")
  case (Inr sn)
  have "P (snd (registerOrReject (ev_register e) sn s))"
    using step_register [OF assms(2) [OF Inr] assms(1), of "ev_register e"]
    by (auto simp: registerOrReject_def split: prod.splits option.splits)
  with Inr show ?thesis
    by (auto simp: requireDevice_def split: prod.splits option.splits intro: step_touch assms(2))
qed (simp add: requireDevice_def assms(1))

lemma P_guarded:
  assumes "P s" "\<And>sn. requireSerialNumber r = Inr sn \<Longrightarrow> only sn"
    "\<And>sn t. only sn \<Longrightarrow> P t \<Longrightarrow> P (snd (body e r sn t))"
  shows "P (snd (guarded methods body e r s))"
proof -
  have "only sn" if "requireDevice e r s = (Inr sn, t)" for sn t
    using that assms(2) by (auto simp: requireDevice_def split: sum.splits prod.splits option.splits)
  moreover have "P (snd (requireDevice e r s))"
    by (rule P_requireDevice [OF assms(1,2)])
  ultimately show ?thesis
    using assms(1,3)
    by (auto simp: guarded_def split: option.split prod.splits sum.split)
qed

lemma P_writeCommandsOrOK: "only sn \<Longrightarrow> P s \<Longrightarrow> P (snd (writeCommandsOrOK sn s))"
  using step_drain [of sn s] by (auto simp: writeCommandsOrOK_def split: prod.splits)

lemma P_confirmLoop:
  "only sn \<Longrightarrow> set rs \<subseteq> set (parseCommandResults body sn) \<Longrightarrow> P s \<Longrightarrow> P (snd (confirmLoop sch k rs s))"
proof (induction rs arbitrary: k s)
  case (Cons r rs)
  have "P (snd (confirmLoop sch k [r] s))"
    using Cons.prems by (intro step_result) auto
  then show ?case
    using Cons.prems by (auto simp: Cons.IH split: prod.splits bool.splits)
qed simp

lemma P_cdata:
  assumes "only sn" "P s"
  shows "P (snd (cdataAttlog e r sn s))" "P (snd (cdataUserinfo e r sn s))" "P (snd (cdataInfo e r sn s))"
  unfolding cdataAttlog_def cdataUserinfo_def cdataInfo_def Let_def
  using assms by (auto intro!: P_cases P_dispatch P_writeCommandsOrOK)

lemma P_bodies:
  assumes "only sn" "P s"
  shows "P (snd (cdataBody e r sn s))" "P (snd (deviceCmdBody e r sn s))" "P (snd (registryBody e r sn s))"
  unfolding cdataBody_def deviceCmdBody_def registryBody_def Let_def
  using assms by (auto intro!: P_cases P_dispatch P_confirmLoop step_copy simp: P_cdata)

lemma P_ServeHTTP:
  assumes "P s" "\<And>sn. requireSerialNumber r = Inr sn \<Longrightarrow> only sn"
  shows "P (snd (ServeHTTP marshal e r s))"
  using assms
  by (auto simp: ServeHTTP_def HandleCData_def HandleGetRequest_def HandleDeviceCmd_def
      HandleRegistry_def HandleInspect_def Let_def split: option.split
      intro!: P_guarded P_bodies P_writeCommandsOrOK)

end

text \<open>In most properties the loop needs no attention: sending any closure and forgetting an ID keep them.\<close>

locale handler_parts =
  fixes P :: "ADMSServer \<Rightarrow> bool"
    and only :: "string \<Rightarrow> bool"
  assumes P_register: "only sn \<Longrightarrow> P s \<Longrightarrow> P (snd (RegisterDevice now sn [] s))"
    and P_touch: "only sn \<Longrightarrow> P s \<Longrightarrow> P (updateDeviceActivity now sn s)"
    and P_copy: "only sn \<Longrightarrow> P s \<Longrightarrow> P (copyOptions sn info s)"
    and P_send: "only sn \<Longrightarrow> built s sn q \<Longrightarrow> P s \<Longrightarrow> P (snd (dispatchCallback e q s))"
    and P_drain: "only sn \<Longrightarrow> P s \<Longrightarrow> P (snd (DrainCommands sn s))"
    and P_confirm: "P s \<Longrightarrow> P (s\<lparr>pendingCommands := fmdrop i (pendingCommands s)\<rparr>)"
begin

lemma P_iteration:
  assumes "only sn" "r \<in> set (parseCommandResults body sn)" "P s"
  shows "P (snd (confirmLoop sch k [r] s))"
proof -
  have "P (snd (dispatchCommandResult (sch k) (withQueued r s) s))"
    unfolding dispatchCommandResult_def using assms by (auto intro: P_send built_result)
  then show ?thesis by (auto simp: P_confirm split: prod.splits bool.splits)
qed

end

sublocale handler_parts \<subseteq> handler_steps
  by unfold_locales (blast intro: P_register P_touch P_copy P_send P_drain P_iteration)+

interpretation inv: handler_parts sys_inv "\<lambda>_. True"
  by unfold_locales
    (simp_all add: sys_inv_RegisterDevice sys_inv_updateDeviceActivity sys_inv_copyOptions
      sys_inv_dispatchCallback sys_inv_DrainCommands sys_inv_confirm)

text \<open>No handler takes a command ID, or changes the configuration.\<close>

definition settings :: "ADMSServer \<Rightarrow> ADMSServer" where
  "settings s = (core s)\<lparr>devices := fmempty, commandQueue := fmempty, pendingCommands := fmempty\<rparr>"

lemma settings_update [simp]:
  "settings (s\<lparr>devices := d\<rparr>) = settings s" "settings (s\<lparr>commandQueue := q\<rparr>) = settings s"
  "settings (s\<lparr>pendingCommands := p\<rparr>) = settings s"
  by (simp_all add: settings_def core_def)

lemma settings_core: "core s = core t \<Longrightarrow> settings s = settings t"
  by (simp add: settings_def)

interpretation conf: handler_parts "\<lambda>s. settings s = c" "\<lambda>_. True" for c
proof unfold_locales
  show "settings (snd (RegisterDevice now sn [] s)) = c" if "settings s = c" for s now sn
    using that by (simp add: RegisterDevice_def split: option.split)
  show "settings (updateDeviceActivity now sn s) = c" if "settings s = c" for s now sn
    using that by (simp add: updateDeviceActivity_def split: option.split)
  show "settings (copyOptions sn info s) = c" if "settings s = c" for s sn info
    using that by (simp add: copyOptions_def split: option.split)
  show "settings (snd (dispatchCallback e q s)) = c" if "settings s = c" for s e q
    using that settings_core [OF core_dispatchCallback] by simp
  show "settings (snd (DrainCommands sn s)) = c" if "settings s = c" for s sn
    using that by (simp add: DrainCommands_def Let_def)
  show "settings (s\<lparr>pendingCommands := fmdrop i (pendingCommands s)\<rparr>) = c" if "settings s = c" for s i
    using that by simp
qed

text \<open>No handler loses or reorders an event the server has committed to.\<close>

lemma committed_update [simp]:
  "committed (s\<lparr>devices := d\<rparr>) = committed s" "committed (s\<lparr>commandQueue := q\<rparr>) = committed s"
  "committed (s\<lparr>pendingCommands := p\<rparr>) = committed s"
proof -
  have "eventsOf (s\<lparr>devices := d\<rparr>) = eventsOf s" "eventsOf (s\<lparr>commandQueue := q\<rparr>) = eventsOf s"
    "eventsOf (s\<lparr>pendingCommands := p\<rparr>) = eventsOf s"
    by (rule ext, rename_tac q', case_tac q', simp_all)+
  then show "committed (s\<lparr>devices := d\<rparr>) = committed s" "committed (s\<lparr>commandQueue := q\<rparr>) = committed s"
    "committed (s\<lparr>pendingCommands := p\<rparr>) = committed s"
    by (simp_all add: committed_def)
qed

interpretation sent: handler_parts "\<lambda>s. prefix evs (committed s)" "\<lambda>_. True" for evs
proof unfold_locales
  show "prefix evs (committed (snd (RegisterDevice now sn [] s)))" if "prefix evs (committed s)" for s now sn
    using that by (simp add: RegisterDevice_def split: option.split)
  show "prefix evs (committed (updateDeviceActivity now sn s))" if "prefix evs (committed s)" for s now sn
    using that by (simp add: updateDeviceActivity_def split: option.split)
  show "prefix evs (committed (copyOptions sn info s))" if "prefix evs (committed s)" for s sn info
    using that by (simp add: copyOptions_def split: option.split)
  show "prefix evs (committed (snd (dispatchCallback e q s)))" if "prefix evs (committed s)" for s e q
    using that cbq.send_prefix [of s e q] prefix_order.trans by blast
  show "prefix evs (committed (snd (DrainCommands sn s)))" if "prefix evs (committed s)" for s sn
    using that by (simp add: DrainCommands_def Let_def)
  show "prefix evs (committed (s\<lparr>pendingCommands := fmdrop i (pendingCommands s)\<rparr>))"
    if "prefix evs (committed s)" for s i
    using that by simp
qed

text \<open>A request of one device leaves the registration and the queue of every other alone.\<close>

interpretation other: handler_parts
    "\<lambda>s. fmlookup (devices s) k = d \<and> queueOf k s = q" "\<lambda>sn. sn \<noteq> k" for k d q
proof unfold_locales
  show "fmlookup (devices (snd (RegisterDevice now sn [] s))) k = d \<and> queueOf k (snd (RegisterDevice now sn [] s)) = q"
    if "sn \<noteq> k" "fmlookup (devices s) k = d \<and> queueOf k s = q" for s now sn
    using that by (simp add: RegisterDevice_def split: option.split)
  show "fmlookup (devices (updateDeviceActivity now sn s)) k = d \<and> queueOf k (updateDeviceActivity now sn s) = q"
    if "sn \<noteq> k" "fmlookup (devices s) k = d \<and> queueOf k s = q" for s now sn
    using that by (simp add: updateDeviceActivity_def split: option.split)
  show "fmlookup (devices (copyOptions sn info s)) k = d \<and> queueOf k (copyOptions sn info s) = q"
    if "sn \<noteq> k" "fmlookup (devices s) k = d \<and> queueOf k s = q" for s sn info
    using that by (simp add: copyOptions_def split: option.split)
  show "fmlookup (devices (snd (dispatchCallback e f s))) k = d \<and> queueOf k (snd (dispatchCallback e f s)) = q"
    if "fmlookup (devices s) k = d \<and> queueOf k s = q" for s e f
    using that core_eqD(1,2) [OF core_dispatchCallback, of e f s] by (simp add: queueOf_def)
  show "fmlookup (devices (snd (DrainCommands sn s))) k = d \<and> queueOf k (snd (DrainCommands sn s)) = q"
    if "sn \<noteq> k" "fmlookup (devices s) k = d \<and> queueOf k s = q" for s sn
    using that by (simp add: DrainCommands_def Let_def)
  show "fmlookup (devices (s\<lparr>pendingCommands := fmdrop i (pendingCommands s)\<rparr>)) k = d
      \<and> queueOf k (s\<lparr>pendingCommands := fmdrop i (pendingCommands s)\<rparr>) = q"
    if "fmlookup (devices s) k = d \<and> queueOf k s = q" for s i
    using that by simp
qed

subsection \<open>Admission\<close>

lemma requireSerialNumber_Inr:
  "requireSerialNumber r = Inr sn \<Longrightarrow> sn = queryGet paramSN (ParseQuery (rq_query r)) \<and> valid_sn sn"
  by (auto simp: requireSerialNumber_def valid_sn_def Let_def split: if_splits)

lemma requireSerialNumber_Inl:
  "requireSerialNumber r = Inl rs \<Longrightarrow> rs_status rs = 400"
  by (auto simp: requireSerialNumber_def httpError_def Let_def split: if_splits)

text \<open>The first part of a handler is the registry's \<open>admit\<close>.\<close>

lemma requireDevice_admit:
  "requireSerialNumber r = Inr sn \<Longrightarrow>
    requireDevice e r s =
      (case reg.admit (ev_register e) (ev_activity e) sn s of
         (None, t) \<Rightarrow> (Inr sn, t)
       | (Some err, t) \<Rightarrow>
           (Inl (if err = ErrMaxDevicesReached then httpError respDeviceLimitMsg 503
                 else httpError respInvalidSN 400), t))"
  by (simp add: requireDevice_def registerOrReject_def reg.admit_def split: prod.splits option.splits)

lemma requireDevice_Inl:
  assumes "requireDevice e r s = (Inl rs, t)"
  shows "t = s \<and> rs_status rs \<in> {400, 503}"
proof (cases "requireSerialNumber r")
  case (Inl rs')
  with assms show ?thesis
    using requireSerialNumber_Inl [OF Inl] by (simp add: requireDevice_def)
next
  case (Inr sn)
  show ?thesis
    using assms reg.admit_err [of "ev_register e" "ev_activity e" sn s]
    unfolding requireDevice_admit [OF Inr]
    by (auto simp: httpError_def split: prod.splits option.splits)
qed

lemma rest_of_requireDevice: "rest_of (snd (requireDevice e r s)) = rest_of s"
  using rest_of_RegisterDevice [of "ev_register e" _ "[]" s]
  by (auto simp: requireDevice_def registerOrReject_def rest_of_updateDeviceActivity
      split: sum.split prod.splits option.splits) (metis snd_conv)+

lemma requireDevice_Inr:
  assumes "requireDevice e r s = (Inr sn, t)"
  shows "requireSerialNumber r = Inr sn"
    and "\<exists>d. fmlookup (devices t) sn = Some d \<and> LastActivity d = ev_activity e"
    and "sn' \<noteq> sn \<Longrightarrow> fmlookup (devices t) sn' = fmlookup (devices s) sn'"
    and "rest_of t = rest_of s"
proof -
  show sn: "requireSerialNumber r = Inr sn"
    using assms by (auto simp: requireDevice_def split: sum.splits prod.splits option.splits)
  have adm: "reg.admit (ev_register e) (ev_activity e) sn s = (None, t)"
    using assms unfolding requireDevice_admit [OF sn] by (auto split: prod.splits option.splits)
  show "\<exists>d. fmlookup (devices t) sn = Some d \<and> LastActivity d = ev_activity e"
    using reg.admit_ok [OF adm] by blast
  show "sn' \<noteq> sn \<Longrightarrow> fmlookup (devices t) sn' = fmlookup (devices s) sn'"
    using reg.admit_other [of sn' sn "ev_register e" "ev_activity e" s] adm by simp
  show "rest_of t = rest_of s"
    using rest_of_requireDevice [of e r s] assms by simp
qed

text \<open>A request that passes the guards is handled by the body, one that does not changes nothing.\<close>

lemma guarded_pass:
  "rq_method r \<in> set methods \<Longrightarrow> requireDevice e r s = (Inr sn, t) \<Longrightarrow>
    guarded methods body e r s = body e r sn t"
  by (simp add: guarded_def requireMethod_def)

lemma guarded_reject:
  assumes "rq_method r \<notin> set methods \<or> requireSerialNumber r = Inl rs
    \<or> requireDevice e r s = (Inl rs, t)"
  shows "snd (guarded methods body e r s) = s \<and> rs_status (fst (guarded methods body e r s)) \<in> {400, 405, 503}"
proof (cases "rq_method r \<in> set methods")
  case True
  with assms have "\<exists>rs t. requireDevice e r s = (Inl rs, t)"
    by (auto simp: requireDevice_def)
  then obtain rs t where "requireDevice e r s = (Inl rs, t)" by blast
  with requireDevice_Inl [OF this] True show ?thesis
    by (auto simp: guarded_def requireMethod_def)
qed (simp add: guarded_def requireMethod_def httpError_def)

subsection \<open>Answering a poll\<close>

lemma writeCommands_text:
  assumes "wire_ok s"
  shows "map readWire (butlast (Split NL (rs_text (fst (writeCommandsOrOK sn s)))))
    = (if queueOf sn s = [] then [] else map Some (queueOf sn s))"
proof (cases "queueOf sn s = []")
  case True
  have "butlast (Split NL respOK) = []" by (simp add: respOK_def)
  with True show ?thesis by (simp add: writeCommandsOrOK_def DrainCommands_def okText_def Let_def)
next
  case False
  have "map readWire (butlast (Split NL (concat (map (\<lambda>c. wireLine c @ [NL]) (queueOf sn s)))))
      = map Some (queueOf sn s)"
    using assms by (intro wire.split_lines_enc) (auto simp: wire_ok_def)
  with False show ?thesis by (simp add: writeCommandsOrOK_def DrainCommands_def okText_def Let_def)
qed

lemma writeCommands_state:
  "snd (writeCommandsOrOK sn s) = snd (DrainCommands sn s)"
  "rs_status (fst (writeCommandsOrOK sn s)) = 200"
  by (simp_all add: writeCommandsOrOK_def okText_def split: prod.split)

subsection \<open>Confirming commands\<close>

text \<open>The results as the callback should see them: each with the command pending under its ID, an
  ID being consumed by its first result.\<close>

fun annotated :: "CommandResult list \<Rightarrow> (64 word, pendingEntry) fmap \<Rightarrow> CommandResult list" where
  "annotated [] m = []"
| "annotated (r # rs) m =
     (case fmlookup m (cr_ID r) of None \<Rightarrow> r | Some p \<Rightarrow> r\<lparr>QueuedCommand := pe_cmd p\<rparr>)
     # annotated rs (fmdrop (cr_ID r) m)"

definition forget :: "64 word list \<Rightarrow> (64 word, pendingEntry) fmap \<Rightarrow> (64 word, pendingEntry) fmap" where
  "forget ids m = fmfilter (\<lambda>i. i \<notin> set ids) m"

text \<open>What the loop leaves alone.\<close>

definition confirm_rest :: "ADMSServer \<Rightarrow> ADMSServer" where
  "confirm_rest s = (core s)\<lparr>pendingCommands := fmempty\<rparr>"

lemma forget_simps [simp]:
  "forget [] m = m"
  "forget (i # ids) m = forget ids (fmdrop i m)"
  by (auto simp: forget_def intro!: fmap_ext)

lemma confirm_rest_simps [simp]:
  "confirm_rest (s\<lparr>pendingCommands := m\<rparr>) = confirm_rest s"
  by (simp add: confirm_rest_def core_def)

lemma confirm_rest_core: "core s = core t \<Longrightarrow> confirm_rest s = confirm_rest t"
  by (simp add: confirm_rest_def)

definition resultEvents :: "ADMSServer \<Rightarrow> CommandResult list \<Rightarrow> event list" where
  "resultEvents s rs = (if onCommandResult s = None then [] else map CommandResultEv rs)"

lemma dispatchCommandResult_spec:
  assumes "dispatchCommandResult e r s = (ok, t)"
  shows "committed t = committed s @ (if ok then resultEvents s [r] else [])" "core t = core s"
  using assms committed_dispatchCallback [of e "CommandResultCall r" s]
    core_dispatchCallback [of e "CommandResultCall r" s]
  by (auto simp: dispatchCommandResult_def resultEvents_def split: if_splits)

lemma withQueued_annotated: "annotated (r # rs) (pendingCommands s)
    = withQueued r s # annotated rs (fmdrop (cr_ID r) (pendingCommands s))"
  by (simp add: withQueued_def split: option.split)

text \<open>The loop delivers a prefix of the annotated results, in order, and forgets exactly their IDs;
  it stops short only at a result it names.\<close>

lemma confirmLoop_spec:
  assumes "confirmLoop sch k rs s = (failed, t)"
  shows "\<exists>n \<le> length rs.
      failed = (if n = length rs then None else Some (cr_ID (rs ! n)))
      \<and> committed t = committed s @ resultEvents s (take n (annotated rs (pendingCommands s)))
      \<and> pendingCommands t = forget (map cr_ID (take n rs)) (pendingCommands s)
      \<and> confirm_rest t = confirm_rest s"
  using assms
proof (induction rs arbitrary: k s)
  case Nil
  then show ?case by (simp add: resultEvents_def)
next
  case (Cons r rs)
  obtain ok s1 where d: "dispatchCommandResult (sch k) (withQueued r s) s = (ok, s1)"
    by (cases "dispatchCommandResult (sch k) (withQueued r s) s")
  note spec = dispatchCommandResult_spec [OF d]
  note same = core_eqD [OF spec(2)]
  show ?case
  proof (cases ok)
    case False
    with Cons.prems d have "failed = Some (cr_ID r)" "t = s1" by auto
    with False spec same show ?thesis
      by (intro exI [of _ 0]) (simp add: resultEvents_def confirm_rest_core [OF spec(2)])
  next
    case True
    let ?s2 = "s1\<lparr>pendingCommands := fmdrop (cr_ID r) (pendingCommands s1)\<rparr>"
    have "confirmLoop sch (Suc k) rs ?s2 = (failed, t)"
      using Cons.prems d True by simp
    then obtain n where n: "n \<le> length rs"
      "failed = (if n = length rs then None else Some (cr_ID (rs ! n)))"
      "committed t = committed ?s2 @ resultEvents ?s2 (take n (annotated rs (pendingCommands ?s2)))"
      "pendingCommands t = forget (map cr_ID (take n rs)) (pendingCommands ?s2)"
      "confirm_rest t = confirm_rest ?s2"
      using Cons.IH by blast
    have "committed t = committed s @ resultEvents s (take (Suc n) (annotated (r # rs) (pendingCommands s)))"
      using n(3) spec(1) same True unfolding withQueued_annotated by (simp add: resultEvents_def)
    moreover have "pendingCommands t = forget (map cr_ID (take (Suc n) (r # rs))) (pendingCommands s)"
      using n(4) same by simp
    moreover have "confirm_rest t = confirm_rest s"
      using n(5) confirm_rest_core [OF spec(2)] by simp
    ultimately show ?thesis
      using n(1,2) by (intro exI [of _ "Suc n"]) simp
  qed
qed

text \<open>What was not delivered is annotated by the remaining map as it would have been: a retry of the
  rest correlates.\<close>

lemma annotated_drop:
  "n \<le> length rs \<Longrightarrow>
    annotated (drop n rs) (forget (map cr_ID (take n rs)) m) = drop n (annotated rs m)"
proof (induction n arbitrary: rs m)
  case (Suc n)
  then show ?case by (cases rs) simp_all
qed simp

lemma length_annotated [simp]: "length (annotated rs m) = length rs"
  by (induction rs arbitrary: m) auto

text \<open>A result whose ID has been forgotten is delivered without its command.\<close>

lemma annotated_forgotten:
  "\<forall>r \<in> set rs. fmlookup m (cr_ID r) = None \<Longrightarrow> annotated rs m = rs"
  by (induction rs arbitrary: m) auto

lemma annotated_append:
  "annotated (xs @ ys) m = annotated xs m @ annotated ys (forget (map cr_ID xs) m)"
  by (induction xs arbitrary: m) auto

lemma forget_idem: "forget ids (forget ids m) = forget ids m"
  by (auto simp: forget_def intro!: fmap_ext)

subsection \<open>Properties\<close>

text \<open>A request for the examples: a device with serial number A and its environment.\<close>

definition demoRequest :: "string \<Rightarrow> string \<Rightarrow> string \<Rightarrow> request" where
  "demoRequest meth query body = \<lparr>rq_method = meth, rq_path = routeDeviceCmd, rq_query = query, rq_body = Body body\<rparr>"

definition demoEnv :: env where
  "demoEnv = \<lparr>ev_register = 1, ev_activity = 2, ev_sched = (\<lambda>_. \<lparr>sch_runs = 0, sch_slow = TimerExpired\<rparr>),
     ev_order = [''A''], ev_seen = (\<lambda>_. 2)\<rparr>"

definition demoTouched :: ADMSServer where
  "demoTouched = (demoServer ''A'')\<lparr>devices := fmupd ''A'' \<lparr>SerialNumber = ''A'', LastActivity = 2,
     Options = fmempty, Timezone = None\<rparr> (devices (demoServer ''A''))\<rparr>"

lemma demo_query: "queryGet paramSN (ParseQuery ''SN=A'') = ''A''"
  by code_simp

lemma demo_admit: "requireDevice demoEnv (demoRequest meth ''SN=A'' body) (demoServer ''A'') = (Inr ''A'', demoTouched)"
  by (simp add: requireDevice_def requireSerialNumber_def demoRequest_def demo_query valid_demo
      registerOrReject_def RegisterDevice_def updateDeviceActivity_def demoEnv_def demoTouched_def
      demoServer_A Let_def)

lemma demo_sys_inv: "sys_inv (demoServer ''A'')"
proof -
  have "sys_inv (newServer UTC)"
    by (simp add: sys_inv_def dev_inv_pristine cmd_inv_pristine pristine_newServer)
      (simp add: chan_ok_def newServer_def defaultCallbackBufferSize_def)
  then show ?thesis unfolding demoServer_def by (rule sys_inv_RegisterDevice) simp
qed

text \<open>The path of the inspection page is on none of the other routes.\<close>

lemma inspect_only:
  assumes "HasSuffix path routeInspect"
  shows "\<not> HasSuffix path routeCData" "\<not> HasSuffix path routeGetRequest"
    "\<not> HasSuffix path routeDeviceCmd" "\<not> HasSuffix path routeRegistry"
proof -
  have "\<not> HasSuffix path route" if "\<not> suffix route routeInspect" "\<not> suffix routeInspect route" for route
    using assms that suffix_same_cases unfolding HasSuffix_def by blast
  moreover have "\<not> suffix routeCData routeInspect \<and> \<not> suffix routeInspect routeCData
      \<and> \<not> suffix routeGetRequest routeInspect \<and> \<not> suffix routeInspect routeGetRequest
      \<and> \<not> suffix routeDeviceCmd routeInspect \<and> \<not> suffix routeInspect routeDeviceCmd
      \<and> \<not> suffix routeRegistry routeInspect \<and> \<not> suffix routeInspect routeRegistry"
    by code_simp
  ultimately show "\<not> HasSuffix path routeCData" "\<not> HasSuffix path routeGetRequest"
    "\<not> HasSuffix path routeDeviceCmd" "\<not> HasSuffix path routeRegistry" by blast+
qed

text \<open>C23 A request with a method other than GET and POST, or without a valid serial number, changes
  nothing, whatever the route.  It is answered with 400, 404 or 405, unless it is a GET of the inspection page
  when that is enabled: this takes no serial number, and is answered with 200, or with 500 when its
  snapshots cannot be encoded.\<close>

theorem rejected_without_effect:
  assumes "rq_method r \<notin> {''GET'', ''POST''} \<or> requireSerialNumber r = Inl rs"
  shows "snd (ServeHTTP mj e r s) = s
    \<and> (if HasSuffix (rq_path r) routeInspect \<and> enableInspect s \<and> rq_method r = ''GET''
       then rs_status (fst (ServeHTTP mj e r s)) \<in> {200, 500}
       else rs_status (fst (ServeHTTP mj e r s)) \<in> {400, 404, 405})"
proof (cases "HasSuffix (rq_path r) routeInspect")
  case True
  then show ?thesis
    using inspect_only [OF True]
    by (simp add: ServeHTTP_def Let_def HandleInspect_def requireMethod_def httpNotFound_def httpError_def
        okText_def split: option.split)
next
  case False
  have g: "snd (guarded methods body e r s) = s \<and> rs_status (fst (guarded methods body e r s)) \<in> {400, 405}"
    if "set methods \<subseteq> {''GET'', ''POST''}" for methods body
    using assms that requireSerialNumber_Inl [of r]
    by (auto simp: guarded_def requireMethod_def requireDevice_def httpError_def)
  have "HandleCData e r s = guarded [''GET'', ''POST''] cdataBody e r s"
    "HandleRegistry e r s = guarded [''GET'', ''POST''] registryBody e r s"
    "HandleDeviceCmd e r s = guarded [''POST''] deviceCmdBody e r s"
    "HandleGetRequest e r s = guarded [''GET''] (\<lambda>e r sn s. writeCommandsOrOK sn s) e r s"
    by (simp_all only: HandleCData_def HandleRegistry_def HandleDeviceCmd_def HandleGetRequest_def)
  then show ?thesis
    using False g [of "[''GET'', ''POST'']" cdataBody] g [of "[''GET'', ''POST'']" registryBody]
      g [of "[''POST'']" deviceCmdBody] g [of "[''GET'']" "\<lambda>e r sn s. writeCommandsOrOK sn s"]
    unfolding ServeHTTP_def Let_def
    by (simp add: httpNotFound_def httpError_def) blast
qed

theorem rejected_without_effect_witness:
  "snd (ServeHTTP (\<lambda>_ _ _. None) demoEnv (demoRequest ''PUT'' ''SN=A'' []) (demoServer ''A'')) = demoServer ''A''
   \<and> rs_status (fst (ServeHTTP (\<lambda>_ _ _. None) demoEnv (demoRequest ''PUT'' ''SN=A'' []) (demoServer ''A''))) \<in> {400, 404, 405}"
proof -
  have "rq_method (demoRequest ''PUT'' ''SN=A'' []) \<notin> {''GET'', ''POST''}
      \<or> requireSerialNumber (demoRequest ''PUT'' ''SN=A'' []) = Inl (httpError [] 400)"
    by (simp add: demoRequest_def)
  moreover have "rq_method (demoRequest ''PUT'' ''SN=A'' []) \<noteq> ''GET''" by (simp add: demoRequest_def)
  ultimately show ?thesis
    using rejected_without_effect [of "demoRequest ''PUT'' ''SN=A'' []" "httpError [] 400" "\<lambda>_ _ _. None" demoEnv]
    by presburger
qed

text \<open>A poll, from the request to the answer.\<close>

lemma poll_answer:
  assumes "sys_inv s" "rq_method r = ''GET''" "requireDevice e r s = (Inr sn, t)"
    "HandleGetRequest e r s = (resp, u)"
  shows "rs_status resp = 200
    \<and> (if queueOf sn s = [] then rs_text resp = ''OK''
       else map readWire (butlast (Split NL (rs_text resp))) = map Some (queueOf sn s))
    \<and> queueOf sn u = []
    \<and> list_all (\<lambda>c. fmlookup (pendingCommands u) (ce_ID c) = Some (pending_of sn c)) (queueOf sn s)"
proof -
  have inv: "sys_inv t"
    using inv.P_requireDevice [OF assms(1), of r e] assms(3) by simp
  have q: "queueOf sn t = queueOf sn s"
    using rest_of_eqD(1) [OF requireDevice_Inr(4) [OF assms(3)]] by (simp add: queueOf_def)
  have h: "writeCommandsOrOK sn t = (resp, u)"
    using assms(2,3,4) by (simp add: HandleGetRequest_def guarded_pass)
  have "DrainCommands sn t = (queueOf sn t, u)"
    using writeCommands_state(1) [of sn t] h by (simp add: DrainCommands_def Let_def)
  from drain_facts [OF _ this] inv
  have d: "queueOf sn u = []"
    "list_all (\<lambda>c. fmlookup (pendingCommands u) (ce_ID c) = Some (pending_of sn c)) (queueOf sn s)"
    by (simp_all add: sys_inv_def q)
  have "rs_text resp = ''OK''" if "queueOf sn s = []"
    using h that by (auto simp: writeCommandsOrOK_def DrainCommands_def okText_def respOK_def q Let_def)
  then show ?thesis
    using d h writeCommands_text [of t sn] writeCommands_state(2) [of sn t] inv
    by (simp add: sys_inv_def cmd_inv_def q)
qed

text \<open>C6 A poll is answered with one line per queued command, and the lines read back as exactly the
  queue; the queue is then empty and every command handed over is pending under its ID.  With an empty
  queue the answer is OK.\<close>

theorem poll_hands_over_queue:
  assumes "sys_inv s" "rq_method r = ''GET''" "requireDevice e r s = (Inr sn, t)"
    "HandleGetRequest e r s = (resp, u)"
  shows "rs_status resp = 200
    \<and> (if queueOf sn s = [] then rs_text resp = ''OK''
       else map readWire (butlast (Split NL (rs_text resp))) = map Some (queueOf sn s))
    \<and> queueOf sn u = []
    \<and> list_all (\<lambda>c. fmlookup (pendingCommands u) (ce_ID c) = Some (pending_of sn c)) (queueOf sn s)"
  by (rule poll_answer [OF assms])

theorem poll_hands_over_queue_witness:
  "rs_text (fst (HandleGetRequest demoEnv (demoRequest ''GET'' ''SN=A'' []) (demoServer ''A''))) = ''OK''"
proof -
  obtain resp u where h: "HandleGetRequest demoEnv (demoRequest ''GET'' ''SN=A'' []) (demoServer ''A'') = (resp, u)"
    by (cases "HandleGetRequest demoEnv (demoRequest ''GET'' ''SN=A'' []) (demoServer ''A'')")
  from poll_hands_over_queue [OF demo_sys_inv _ demo_admit h] h show ?thesis
    by (simp add: demoRequest_def demo_fields)
qed

text \<open>Facts on the attendance route shared below.\<close>

lemma committed_rest:
  assumes "rest_of s = rest_of t"
  shows "committed s = committed t"
proof -
  have "committed (rest_of u) = committed u" for u by (simp add: rest_of_def)
  then show ?thesis using assms by metis
qed

definition attendanceEvents :: "ADMSServer \<Rightarrow> AttendanceRecord list \<Rightarrow> event list" where
  "attendanceEvents s records = (if onAttendance s = None then [] else map AttendanceEv records)"

lemma dispatchAttendance_spec:
  assumes "dispatchAttendance e records s = (ok, t)"
  shows "committed t = committed s @ (if ok then attendanceEvents s records else [])" "core t = core s"
  using assms committed_dispatchCallback [of e "AttendanceBatch records" s]
    core_dispatchCallback [of e "AttendanceBatch records" s]
  by (auto simp: dispatchAttendance_def attendanceEvents_def split: if_splits)

text \<open>An attendance upload, from the request to the answer.\<close>

lemma attlog_answer:
  assumes "rq_method r \<in> {''GET'', ''POST''}" "requireDevice e r s = (Inr sn, t)"
    "queryGet paramTable (ParseQuery (rq_query r)) = tableATTLOG" "readBody r t = Inr body"
    "parseAttendanceRecords t body sn (Some (deviceLocationLocked sn t)) = records"
    "HandleCData e r s = (resp, u)"
  shows "core u = core t
    \<and> (if rs_status resp = 503 then committed u = committed s
       else resp = okText (''OK: '' @ itoa (int (length records)))
         \<and> committed u = committed s @ attendanceEvents s records)"
proof -
  obtain ok v where d: "dispatchAttendance (ev_sched e 0) records t = (ok, v)"
    by (cases "dispatchAttendance (ev_sched e 0) records t")
  have h: "HandleCData e r s = cdataAttlog e r sn t"
    using assms(1-3) by (simp add: HandleCData_def guarded_pass cdataBody_def tableATTLOG_def Let_def)
  have "rest_of t = rest_of s" by (rule requireDevice_Inr(4) [OF assms(2)])
  then have s: "committed t = committed s" "onAttendance t = onAttendance s"
    by (rule committed_rest)
      (metis (no_types) ADMSServer.select_convs(4) ADMSServer.surjective ADMSServer.update_convs(1)
        \<open>rest_of t = rest_of s\<close> rest_of_def)
  show ?thesis
    using dispatchAttendance_spec [OF d] d assms(4-6) s
    by (cases ok) (auto simp: h cdataAttlog_def queueFull_def httpError_def okText_def attendanceEvents_def Let_def)
qed

text \<open>C8 An attendance upload is all or nothing: either the answer counts the parsed records and exactly
  these are committed to the callback, in order, or the answer is 503 and none is.  Devices, queues and
  pending commands are untouched beyond the registration of the request.\<close>

theorem attlog_all_or_nothing:
  assumes "rq_method r \<in> {''GET'', ''POST''}" "requireDevice e r s = (Inr sn, t)"
    "queryGet paramTable (ParseQuery (rq_query r)) = tableATTLOG" "readBody r t = Inr body"
    "parseAttendanceRecords t body sn (Some (deviceLocationLocked sn t)) = records"
    "HandleCData e r s = (resp, u)"
  shows "core u = core t
    \<and> (if rs_status resp = 503 then committed u = committed s
       else resp = okText (''OK: '' @ itoa (int (length records)))
         \<and> committed u = committed s @ attendanceEvents s records)"
  by (rule attlog_answer [OF assms])

theorem attlog_all_or_nothing_witness:
  "rs_text (fst (HandleCData demoEnv (demoRequest ''POST'' ''SN=A&table=ATTLOG'' []) (demoServer ''A''))) = ''OK: 0''"
proof -
  let ?r = "demoRequest ''POST'' ''SN=A&table=ATTLOG'' []"
  have q: "queryGet paramSN (ParseQuery ''SN=A&table=ATTLOG'') = ''A''"
    "queryGet paramTable (ParseQuery ''SN=A&table=ATTLOG'') = tableATTLOG"
    by code_simp+
  have a: "requireDevice demoEnv ?r (demoServer ''A'') = (Inr ''A'', demoTouched)"
    by (simp add: requireDevice_def requireSerialNumber_def demoRequest_def q valid_demo registerOrReject_def
        RegisterDevice_def updateDeviceActivity_def demoEnv_def demoTouched_def demoServer_A Let_def)
  have b: "readBody ?r demoTouched = Inr []"
    by (simp add: readBody_def readAll_def demoRequest_def demoTouched_def demoServer_A newServer_def
        defaultMaxBodySize_def)
  have p: "parseAttendanceRecords demoTouched [] ''A'' (Some (deviceLocationLocked ''A'' demoTouched)) = []"
    by (simp add: parseAttendanceRecords_eq payloadLines_def TrimRightCR_def)
  obtain resp u where h: "HandleCData demoEnv ?r (demoServer ''A'') = (resp, u)"
    by (cases "HandleCData demoEnv ?r (demoServer ''A'')")
  have i: "itoa 0 = ''0''" by code_simp
  have m: "rq_method ?r \<in> {''GET'', ''POST''}" and tb: "queryGet paramTable (ParseQuery (rq_query ?r)) = tableATTLOG"
    by (simp_all add: demoRequest_def q)
  have "HandleCData demoEnv ?r (demoServer ''A'') = cdataAttlog demoEnv ?r ''A'' demoTouched"
    using m by (simp add: HandleCData_def guarded_pass [OF _ a] cdataBody_def tb Let_def)
  then have n: "rs_status resp \<noteq> 503"
    using h by (auto simp: cdataAttlog_def b p dispatchAttendance_def okText_def)
  from attlog_all_or_nothing [OF m a tb b p h] n h show ?thesis
    by (simp add: okText_def i)
qed

text \<open>C7 A confirmation request commits its results to the callback in order, each with the command
  pending under its ID, and forgets exactly the IDs it has committed.  It stops early only when the
  callback queue refuses a result, and then answers 503.\<close>

theorem confirmations_committed:
  assumes "rq_method r = ''POST''" "requireDevice e r s = (Inr sn, t)" "readBody r t = Inr body"
    "HandleDeviceCmd e r s = (resp, u)"
  shows "\<exists>n \<le> length (parseCommandResults body sn).
      rs_status resp = (if n = length (parseCommandResults body sn) then 200 else 503)
      \<and> committed u = committed t
          @ resultEvents t (take n (annotated (parseCommandResults body sn) (pendingCommands t)))
      \<and> pendingCommands u = forget (map cr_ID (take n (parseCommandResults body sn))) (pendingCommands t)
      \<and> confirm_rest u = confirm_rest t"
proof -
  obtain failed v where c: "confirmLoop (ev_sched e) 0 (parseCommandResults body sn) t = (failed, v)"
    by (cases "confirmLoop (ev_sched e) 0 (parseCommandResults body sn) t")
  have h: "HandleDeviceCmd e r s = deviceCmdBody e r sn t"
    using assms(1,2) by (simp add: HandleDeviceCmd_def guarded_pass)
  have "u = v \<and> rs_status resp = (if failed = None then 200 else 503)"
    using assms(3,4) c by (cases failed) (auto simp: h deviceCmdBody_def queueFull_def httpError_def okText_def)
  with confirmLoop_spec [OF c] show ?thesis
    by (auto split: if_splits)
qed

theorem confirmations_committed_witness:
  "rs_status (fst (HandleDeviceCmd demoEnv (demoRequest ''POST'' ''SN=A'' ''ID=1&Return=0'') (demoServer ''A''))) \<in> {200, 503}"
proof -
  let ?r = "demoRequest ''POST'' ''SN=A'' ''ID=1&Return=0''"
  have b: "readBody ?r demoTouched = Inr ''ID=1&Return=0''"
    by (simp add: readBody_def readAll_def demoRequest_def demoTouched_def demoServer_A newServer_def
        defaultMaxBodySize_def)
  obtain resp u where h: "HandleDeviceCmd demoEnv ?r (demoServer ''A'') = (resp, u)"
    by (cases "HandleDeviceCmd demoEnv ?r (demoServer ''A'')")
  have "rq_method ?r = ''POST''" by (simp add: demoRequest_def)
  from confirmations_committed [OF this demo_admit b h] h show ?thesis by (auto split: if_splits)
qed

text \<open>When a device repeats its confirmations after a 503, the results that were not processed the
  first time reach the callback with their queued commands; those that were processed reach it a second
  time, now without.\<close>

lemma retry_after_503:
  assumes "confirmLoop sch k rs s = (Some i, t)" "confirmLoop sch' k' rs t = (None, u)"
    "onCommandResult s \<noteq> None"
  shows "\<exists>n < length rs. committed u = committed s
    @ map CommandResultEv (take n (annotated rs (pendingCommands s)) @ take n rs
        @ drop n (annotated rs (pendingCommands s)))"
proof -
  from confirmLoop_spec [OF assms(1)] obtain n where n: "n \<le> length rs"
      "Some i = (if n = length rs then None else Some (cr_ID (rs ! n)))"
      "committed t = committed s @ resultEvents s (take n (annotated rs (pendingCommands s)))"
      "pendingCommands t = forget (map cr_ID (take n rs)) (pendingCommands s)"
      "confirm_rest t = confirm_rest s"
    by blast
  then have less: "n < length rs" by (auto split: if_splits)
  from confirmLoop_spec [OF assms(2)] have u: "committed u = committed t @ resultEvents t (annotated rs (pendingCommands t))"
    by (auto split: if_splits)
  have "onCommandResult (confirm_rest v) = onCommandResult v" for v by (simp add: confirm_rest_def core_def)
  then have cb: "onCommandResult t \<noteq> None" using n(5) assms(3) by metis
  have gone: "annotated (take n rs) (pendingCommands t) = take n rs"
    unfolding n(4) by (rule annotated_forgotten) (simp add: forget_def)
  have "annotated (take n rs @ drop n rs) (pendingCommands t)
      = take n rs @ annotated (drop n rs) (forget (map cr_ID (take n rs)) (pendingCommands t))"
    unfolding annotated_append gone ..
  also have "\<dots> = take n rs @ drop n (annotated rs (pendingCommands s))"
    unfolding n(4) forget_idem annotated_drop [OF n(1)] ..
  finally have "annotated rs (pendingCommands t) = take n rs @ drop n (annotated rs (pendingCommands s))"
    by simp
  then show ?thesis
    using less u n(3) assms(3) cb by (auto simp: resultEvents_def)
qed

text \<open>A server whose channel holds one closure, with one pending command; the first schedule lets the
  second result time out, the second one drains the channel before every dispatch.\<close>

definition tightServer :: ADMSServer where
  "tightServer = (newServer UTC)\<lparr>onCommandResult := Some (\<lambda>_ _. Returned), callbackBufferSize := 1,
     pendingCommands := fmupd 1 \<lparr>pe_sn = ''A'', pe_cmd = ''INFO''\<rparr> fmempty\<rparr>"

definition twoResults :: "CommandResult list" where
  "twoResults =
     [\<lparr>cr_SerialNumber = ''A'', cr_ID = 1, ReturnCode = 0, cr_Command = ''INFO'', QueuedCommand = []\<rparr>,
      \<lparr>cr_SerialNumber = ''A'', cr_ID = 2, ReturnCode = 0, cr_Command = ''LOG'', QueuedCommand = []\<rparr>]"

text \<open>C20 No request, whatever it holds, makes the server lose or reorder a callback it has committed
  to: the committed calls only grow at the end.  Nor does it take a command ID or change the
  configuration.\<close>

theorem requests_keep_commitments:
  "prefix (committed s) (committed (snd (ServeHTTP mj e r s)))
   \<and> settings (snd (ServeHTTP mj e r s)) = settings s"
  using sent.P_ServeHTTP [of "committed s" s r mj e] conf.P_ServeHTTP [of s "settings s" r mj e] by simp

text \<open>C21 A request leaves the registration and the command queue of every device but its own exactly as
  they were.\<close>

theorem requests_isolated:
  assumes "requireSerialNumber r \<noteq> Inr k"
  shows "fmlookup (devices (snd (ServeHTTP mj e r s))) k = fmlookup (devices s) k
    \<and> queueOf k (snd (ServeHTTP mj e r s)) = queueOf k s"
  by (rule other.P_ServeHTTP) (use assms in auto)

theorem requests_isolated_witness:
  "queueOf ''B'' (snd (ServeHTTP (\<lambda>_ _ _. None) demoEnv (demoRequest ''GET'' ''SN=A'' []) (demoServer ''A'')))
    = queueOf ''B'' (demoServer ''A'')"
proof -
  have "requireSerialNumber (demoRequest ''GET'' ''SN=A'' []) \<noteq> Inr ''B''"
    by (simp add: requireSerialNumber_def demoRequest_def demo_query Let_def)
  from requests_isolated [OF this] show ?thesis by blast
qed

text \<open>The pending map is not isolated: a confirmation from one device consumes the command another
  device was sent, and reaches the callback with that command and the confirming device's serial
  number.\<close>

lemma foreign_confirmation:
  "annotated (parseCommandResults ''ID=1&Return=0'' ''B'') (pendingCommands tightServer)
     = [\<lparr>cr_SerialNumber = ''B'', cr_ID = 1, ReturnCode = 0, cr_Command = [], QueuedCommand = ''INFO''\<rparr>]
   \<and> pendingCommands (snd (confirmLoop (\<lambda>_. \<lparr>sch_runs = 0, sch_slow = TimerExpired\<rparr>) 0
        (parseCommandResults ''ID=1&Return=0'' ''B'') tightServer)) = fmempty
   \<and> map_option pe_sn (fmlookup (pendingCommands tightServer) 1) = Some ''A''"
proof -
  have p: "parseCommandResults ''ID=1&Return=0'' ''B''
      = [\<lparr>cr_SerialNumber = ''B'', cr_ID = 1, ReturnCode = 0, cr_Command = [], QueuedCommand = []\<rparr>]"
    by code_simp
  show ?thesis
    unfolding p
    by (simp add: tightServer_def dispatchCommandResult_def dispatchCallback_def newServer_def Let_def fmdrop_fmupd_same)
qed

text \<open>The requests whose body is read: an upload of attendance or users, a POST of device information, a
  confirmation, a registration.  Operation logs, polls and the inspection page are answered without it.\<close>

definition readsBody :: "request \<Rightarrow> bool" where
  "readsBody r \<longleftrightarrow>
     (let path = rq_path r; table = queryGet paramTable (ParseQuery (rq_query r)); post = rq_method r = ''POST'';
          getOrPost = rq_method r \<in> {''GET'', ''POST''}
      in if HasSuffix path routeCData then
           (if table \<in> {tableATTLOG, tableUSERINFO} then getOrPost else table \<noteq> tableOPERLOG \<and> post)
         else if HasSuffix path routeGetRequest then False
         else if HasSuffix path routeDeviceCmd then post
         else HasSuffix path routeRegistry \<and> getOrPost)"

text \<open>C35 A body over the limit, whether or not it could be read to its end, is refused with 413 on every
  route that reads one and with every method it reads one for, once the device is admitted: no callback
  is called or queued, and queues and pending commands stay as they were.\<close>

theorem oversize_refused:
  assumes "requireDevice e r s = (Inr sn, t)" "rq_body r \<in> {Body body, BodyErr body}"
    "maxBodySize s < int (length body)" "readsBody r"
  shows "rs_status (fst (ServeHTTP mj e r s)) = 413 \<and> snd (ServeHTTP mj e r s) = t
    \<and> commandQueue t = commandQueue s \<and> pendingCommands t = pendingCommands s \<and> committed t = committed s"
proof -
  note same = requireDevice_Inr(4) [OF assms(1)]
  have b: "readBody r t = Inl (httpError ''Request body too large'' 413)"
    using assms(2,3) rest_of_eqD(10) [OF same] by (auto simp: readBody_def readAll_def)
  have "tableUSERINFO \<noteq> tableOPERLOG" by (simp add: tableUSERINFO_def tableOPERLOG_def)
  then have "ServeHTTP mj e r s = (httpError ''Request body too large'' 413, t)"
    using assms(4) unfolding readsBody_def ServeHTTP_def Let_def
    by (auto simp: HandleCData_def HandleDeviceCmd_def HandleRegistry_def guarded_pass [OF _ assms(1)]
        cdataBody_def cdataAttlog_def cdataUserinfo_def cdataInfo_def deviceCmdBody_def registryBody_def b Let_def
        split: if_splits)
  then show ?thesis
    using rest_of_eqD(1,2) [OF same] committed_rest [OF same] by (simp add: httpError_def)
qed

theorem oversize_refused_witness:
  "rs_status (fst (ServeHTTP (\<lambda>_ _ _. None) demoEnv (demoRequest ''POST'' ''SN=A'' ''ID=1'')
     ((demoServer ''A'')\<lparr>maxBodySize := 3\<rparr>))) = 413"
proof -
  have "requireDevice demoEnv (demoRequest ''POST'' ''SN=A'' ''ID=1'') ((demoServer ''A'')\<lparr>maxBodySize := 3\<rparr>)
      = (Inr ''A'', demoTouched\<lparr>maxBodySize := 3\<rparr>)"
    by (simp add: requireDevice_def requireSerialNumber_def demoRequest_def demo_query valid_demo
        registerOrReject_def RegisterDevice_def updateDeviceActivity_def demoEnv_def demoTouched_def
        demoServer_A newServer_def Let_def)
  moreover have "readsBody (demoRequest ''POST'' ''SN=A'' ''ID=1'')" by code_simp
  ultimately show ?thesis
    using oversize_refused [of demoEnv _ _ "''A''" _ "''ID=1''"] by (simp add: demoRequest_def)
qed

text \<open>Exactly the valid serial numbers are accepted from a query string that carries one, and the
  one accepted is the one sent.\<close>

lemma serial_number_accepted:
  "(requireSerialNumber (demoRequest meth (''SN='' @ sn) body) = Inr sn) = valid_sn sn"
proof
  assume "requireSerialNumber (demoRequest meth (''SN='' @ sn) body) = Inr sn"
  then show "valid_sn sn" by (auto dest: requireSerialNumber_Inr)
next
  assume v: "valid_sn sn"
  then have "\<forall>c \<in> set sn. plainChar c"
    by (auto simp: valid_sn_def validateSerialNumber_None list_all_iff plainChar_def)
      (auto simp: serialChar_def)
  then have "ParseQuery (Join CHR ''&'' (map (\<lambda>(k, v). k @ CHR ''='' # v) [(''SN'', sn)])) = [(''SN'', sn)]"
    by (intro ParseQuery_plain) (auto simp: plainChar_def)
  then have "queryGet paramSN (ParseQuery (''SN='' @ sn)) = sn"
    by (simp add: queryGet_def paramSN_def)
  moreover have "sn \<noteq> []" "validateSerialNumber sn = None"
    using v by (simp_all add: valid_sn_def validateSerialNumber_None)
  ultimately show "requireSerialNumber (demoRequest meth (''SN='' @ sn) body) = Inr sn"
    by (simp add: requireSerialNumber_def demoRequest_def Let_def)
qed

end
