(* ===== verification/Adms_System.thy ===== *)
theory Adms_System
  imports Adms_Handlers
begin

section \<open>The server under any sequence of operations\<close>

text \<open>
  Every operation of the package's interface that changes state, the eviction ticks, the callback
  worker's iterations and the closing of \<open>closeCh\<close>, as one datatype and one step function.  Each
  operation is taken as a whole (\<open>Adms_Races\<close> looks inside).  The invariants of devices, queues and
  the callback channel hold after every run, up to the 2^63 - 1 command IDs of the counter.
\<close>

datatype op =
    OpRegister int string "location option list"
  | OpSetTimezone string "location option"
  | OpQueue string string
  | OpInfo string
  | OpUserAdd string string string int string
  | OpUserDelete string string
  | OpCheck string
  | OpGetOption string string
  | OpShell string string
  | OpQueryUsers string
  | OpLog string
  | OpDrain string
  | OpHttp env request
  | OpEvict int "string list" "64 word list"
  | OpWorker
  | OpCloseSignal

text \<open>A range over a map meets each key once; an operation whose order is no such order does not
  occur, and is the identity here.\<close>

fun step :: "marshal \<Rightarrow> op \<Rightarrow> ADMSServer \<Rightarrow> ADMSServer" where
  "step mj (OpRegister now sn zones) s = snd (RegisterDevice now sn (map WithDeviceTimezone zones) s)"
| "step mj (OpSetTimezone sn loc) s = snd (SetDeviceTimezone sn loc s)"
| "step mj (OpQueue sn c) s = snd (snd (QueueCommand sn c s))"
| "step mj (OpInfo sn) s = snd (snd (SendInfoCommand sn s))"
| "step mj (OpUserAdd sn pin nm priv cd) s = snd (snd (SendUserAddCommand sn pin nm priv cd s))"
| "step mj (OpUserDelete sn pin) s = snd (snd (SendUserDeleteCommand sn pin s))"
| "step mj (OpCheck sn) s = snd (snd (SendCheckCommand sn s))"
| "step mj (OpGetOption sn k) s = snd (snd (SendGetOptionCommand sn k s))"
| "step mj (OpShell sn c) s = snd (snd (SendShellCommand sn c s))"
| "step mj (OpQueryUsers sn) s = snd (snd (SendQueryUsersCommand sn s))"
| "step mj (OpLog sn) s = snd (snd (SendLogCommand sn s))"
| "step mj (OpDrain sn) s = snd (DrainCommands sn s)"
| "step mj (OpHttp e r) s = snd (ServeHTTP mj e r s)"
| "step mj (OpEvict now order ids) s =
     (if iteration order (devices s) \<and> iteration ids (pendingCommands s)
      then evictStaleDevices now order ids s else s)"
| "step mj OpWorker s = workerTake s"
| "step mj OpCloseSignal s = s\<lparr>closing := True\<rparr>"

subsection \<open>Every sender is a \<open>QueueCommand\<close> or a refusal\<close>

definition sends_of :: "string \<Rightarrow> send_result \<Rightarrow> ADMSServer \<Rightarrow> bool" where
  "sends_of sn res s \<longleftrightarrow> (\<exists>err. res = (0, Some err, s)) \<or> (\<exists>c. res = QueueCommand sn c s)"

lemma senders:
  "sends_of sn (SendInfoCommand sn s) s"
  "sends_of sn (SendUserAddCommand sn pin nm priv cd s) s"
  "sends_of sn (SendUserDeleteCommand sn pin s) s"
  "sends_of sn (SendCheckCommand sn s) s"
  "sends_of sn (SendGetOptionCommand sn k s) s"
  "sends_of sn (SendShellCommand sn c s) s"
  "sends_of sn (SendQueryUsersCommand sn s) s"
  "sends_of sn (SendLogCommand sn s) s"
  by (auto simp: sends_of_def SendInfoCommand_def SendUserAddCommand_def SendUserDeleteCommand_def
      SendCheckCommand_def SendGetOptionCommand_def SendShellCommand_def SendQueryUsersCommand_def
      SendLogCommand_def sendField_def split: option.splits)

lemma sys_inv_QueueCommand:
  assumes "sys_inv s" "id_room s"
  shows "sys_inv (snd (snd (QueueCommand sn c s)))"
proof -
  have "cmd_inv (snd (snd (QueueCommand sn c s)))"
    using assms by (intro cmd_inv_QueueCommand) (simp_all add: sys_inv_def)
  moreover have "dev_inv (snd (snd (QueueCommand sn c s))) = dev_inv s"
    "chan_ok (snd (snd (QueueCommand sn c s))) = chan_ok s"
    by (cases rule: QueueCommand_cases [of sn c s]; simp add: dev_inv_def chan_ok_def)+
  ultimately show ?thesis using assms(1) by (simp add: sys_inv_def)
qed

lemma sys_inv_sends:
  "sends_of sn res s \<Longrightarrow> sys_inv s \<Longrightarrow> id_room s \<Longrightarrow> sys_inv (snd (snd res))"
  by (auto simp: sends_of_def sys_inv_QueueCommand)

lemma sys_inv_closing: "sys_inv s \<Longrightarrow> sys_inv (s\<lparr>closing := True\<rparr>)"
  by (rule sys_inv_core [of s]) (auto simp: sys_inv_def chan_ok_def)

lemma sys_inv_evicted: "sys_inv s \<Longrightarrow> sys_inv (evicted now s)"
  by (simp add: sys_inv_def dev_inv_evicted cmd_inv_evicted chan_ok_def)

lemma sys_inv_step:
  assumes "sys_inv s" "id_room s"
  shows "sys_inv (step mj x s)"
  using assms
  by (cases x)
    (auto simp: evictStaleDevices_eq sys_inv_evicted sys_inv_closing sys_inv_QueueCommand
      sys_inv_RegisterDevice sys_inv_SetDeviceTimezone sys_inv_DrainCommands inv.P_ServeHTTP
      sys_inv_workerTake keeps_serial_timezone
      intro: sys_inv_sends [OF senders(1)] sys_inv_sends [OF senders(2)] sys_inv_sends [OF senders(3)]
        sys_inv_sends [OF senders(4)] sys_inv_sends [OF senders(5)] sys_inv_sends [OF senders(6)]
        sys_inv_sends [OF senders(7)] sys_inv_sends [OF senders(8)])

subsection \<open>The configuration and the counter\<close>

lemma settings_eqD:
  assumes "settings s = settings t"
  shows "cmdID s = cmdID t" "maxDevices s = maxDevices t" "maxCommandsPerDevice s = maxCommandsPerDevice t"
    "maxBodySize s = maxBodySize t" "onlineThreshold s = onlineThreshold t"
    "defaultTimezone s = defaultTimezone t" "enableInspect s = enableInspect t"
    "deviceEvictionTimeout s = deviceEvictionTimeout t" "callbackBufferSize s = callbackBufferSize t"
proof -
  have sel: "cmdID (settings u) = cmdID u" "maxDevices (settings u) = maxDevices u"
    "maxCommandsPerDevice (settings u) = maxCommandsPerDevice u" "maxBodySize (settings u) = maxBodySize u"
    "onlineThreshold (settings u) = onlineThreshold u" "defaultTimezone (settings u) = defaultTimezone u"
    "enableInspect (settings u) = enableInspect u"
    "deviceEvictionTimeout (settings u) = deviceEvictionTimeout u"
    "callbackBufferSize (settings u) = callbackBufferSize u" for u
    by (simp_all add: settings_def core_def)
  show "cmdID s = cmdID t" "maxDevices s = maxDevices t" "maxCommandsPerDevice s = maxCommandsPerDevice t"
    "maxBodySize s = maxBodySize t" "onlineThreshold s = onlineThreshold t"
    "defaultTimezone s = defaultTimezone t" "enableInspect s = enableInspect t"
    "deviceEvictionTimeout s = deviceEvictionTimeout t" "callbackBufferSize s = callbackBufferSize t"
    using sel [of s] sel [of t] assms by simp_all
qed

lemma cmdID_QueueCommand:
  "cmdID (snd (snd (QueueCommand sn c s))) \<in> {cmdID s, cmdID s + 1}"
  by (cases rule: QueueCommand_cases [of sn c s]) auto

lemma cmdID_sends: "sends_of sn res s \<Longrightarrow> cmdID (snd (snd res)) \<in> {cmdID s, cmdID s + 1}"
  using cmdID_QueueCommand unfolding sends_of_def by fastforce

lemma cmdID_step: "cmdID (step mj x s) \<in> {cmdID s, cmdID s + 1}"
proof (cases x)
  case (OpRegister now sn zones)
  show ?thesis using rest_of_eqD(3) [OF rest_of_RegisterDevice] by (simp add: OpRegister)
next
  case (OpSetTimezone sn loc)
  show ?thesis using rest_of_eqD(3) [OF rest_of_SetDeviceTimezone] by (simp add: OpSetTimezone)
next
  case (OpHttp e r)
  have "settings (snd (ServeHTTP mj e r s)) = settings s" by (rule conf.P_ServeHTTP) simp_all
  from settings_eqD(1) [OF this] show ?thesis by (simp add: OpHttp)
next
  case OpWorker
  show ?thesis using core_eqD(4) [OF core_workerTake] by (simp add: OpWorker)
next
  case (OpEvict now order ids)
  then show ?thesis by (simp add: evictStaleDevices_eq)
next
  case (OpDrain sn)
  then show ?thesis by (simp add: DrainCommands_def Let_def)
qed (use cmdID_QueueCommand cmdID_sends [OF senders(1)] cmdID_sends [OF senders(2)]
  cmdID_sends [OF senders(3)] cmdID_sends [OF senders(4)] cmdID_sends [OF senders(5)]
  cmdID_sends [OF senders(6)] cmdID_sends [OF senders(7)] cmdID_sends [OF senders(8)] in simp_all)

text \<open>A machine whose operations keep the invariant and take at most one ID each: the invariant lasts as
  long as the counter has room for all of them.\<close>

locale counted_machine =
  fixes exec :: "'x \<Rightarrow> ADMSServer \<Rightarrow> ADMSServer"
  assumes exec_inv: "sys_inv s \<Longrightarrow> id_room s \<Longrightarrow> sys_inv (exec x s)"
    and exec_id: "cmdID (exec x s) \<in> {cmdID s, cmdID s + 1}"
begin

lemma exec_room:
  assumes "id_room s"
  shows "unat (cmdID (exec x s)) \<le> Suc (unat (cmdID s))"
  using exec_id [of x s] unat_add_1 [of "cmdID s"] assms by (auto simp: id_room_def)

lemma run_room:
  "sys_inv s \<Longrightarrow> unat (cmdID s) + length xs < 9223372036854775808 \<Longrightarrow>
    sys_inv (fold exec xs s) \<and> unat (cmdID (fold exec xs s)) \<le> unat (cmdID s) + length xs"
proof (induction xs arbitrary: s)
  case (Cons x xs)
  have room: "id_room s" using Cons.prems by (simp add: id_room_def)
  have "sys_inv (exec x s)" "unat (cmdID (exec x s)) \<le> Suc (unat (cmdID s))"
    using exec_inv [OF Cons.prems(1) room] exec_room [OF room] by blast+
  with Cons.IH [of "exec x s"] Cons.prems(2) show ?case by simp
qed simp

end

interpretation runs: counted_machine "step mj" for mj
  by unfold_locales (rule sys_inv_step, assumption+, rule cmdID_step)

fun run_ops :: "marshal \<Rightarrow> op list \<Rightarrow> ADMSServer \<Rightarrow> ADMSServer" where
  "run_ops mj [] s = s"
| "run_ops mj (x # xs) s = run_ops mj xs (step mj x s)"

lemma run_ops_fold: "run_ops mj xs s = fold (step mj) xs s"
  by (induction xs arbitrary: s) simp_all

lemma sys_inv_New: "sys_inv (NewADMSServer l opts)"
proof -
  have "config_ok (NewADMSServer l opts)"
    unfolding NewADMSServer_def by (rule config.run_inv) (rule config_ok_newServer)
  moreover have "pristine (NewADMSServer l opts)" by (rule pristine_New)
  ultimately show ?thesis
    by (simp add: sys_inv_def dev_inv_pristine cmd_inv_pristine chan_ok_def)
      (simp add: config_ok_def pristine_def)
qed

lemma sys_inv_run:
  assumes "length xs < 9223372036854775808"
  shows "sys_inv (run_ops mj xs (NewADMSServer l opts))"
    and "unat (cmdID (run_ops mj xs (NewADMSServer l opts))) \<le> length xs"
proof -
  have "cmdID (NewADMSServer l opts) = 0" using pristine_New by (simp add: pristine_def)
  with runs.run_room [OF sys_inv_New [of l opts], of xs mj] assms
  show "sys_inv (run_ops mj xs (NewADMSServer l opts))"
    and "unat (cmdID (run_ops mj xs (NewADMSServer l opts))) \<le> length xs"
    by (simp_all add: run_ops_fold)
qed

subsection \<open>Properties\<close>

text \<open>C1 After any sequence of API calls, requests, evictions, worker steps and the start of closing, on a
  server made with any options: every device is stored under its own valid serial number within the
  limit; every queue and every pending command belongs to a registered device; IDs are distinct,
  increasing in each queue and at most the counter; no queued command can break its wire line; no
  device has more outstanding commands than its limit; and the callback channel is within its
  capacity.\<close>

theorem invariant_after_any_run:
  assumes "length ops < 9223372036854775808"
  shows "dev_inv (run_ops mj ops (NewADMSServer l opts)) \<and> ids_ok (run_ops mj ops (NewADMSServer l opts))
    \<and> owner_ok (run_ops mj ops (NewADMSServer l opts)) \<and> wire_ok (run_ops mj ops (NewADMSServer l opts))
    \<and> limit_ok (run_ops mj ops (NewADMSServer l opts)) \<and> chan_ok (run_ops mj ops (NewADMSServer l opts))"
  using sys_inv_run(1) [OF assms] by (simp add: sys_inv_def cmd_inv_def)

theorem invariant_after_any_run_witness:
  "dev_inv (run_ops (\<lambda>_ _ _. None) [OpRegister 0 ''A'' [], OpQueue ''A'' ''INFO'', OpDrain ''A'', OpWorker]
     (NewADMSServer UTC [OptMaxDevices 1]))"
  using invariant_after_any_run [of "[OpRegister 0 ''A'' [], OpQueue ''A'' ''INFO'', OpDrain ''A'', OpWorker]"
      "\<lambda>_ _ _. None" UTC "[OptMaxDevices 1]"] by simp

text \<open>C5 The ID of an accepted command is positive and larger than the ID of every command that is queued
  or pending anywhere, after any run of fewer than 2^63 - 1 operations: a confirmation cannot be taken
  for another command's.\<close>

theorem fresh_positive_ids:
  assumes "length ops < 9223372036854775807" "s = run_ops mj ops (NewADMSServer l opts)"
    "QueueCommand sn c s = (i, None, t)"
  shows "0 < sint i \<and> fmlookup (pendingCommands s) i = None \<and> i \<notin> ce_ID ` set (queueOf k s)
    \<and> list_all (\<lambda>e. ce_ID e < i) (queueOf k s) \<and> (fmlookup (pendingCommands s) j \<noteq> None) \<le> (j < i)"
proof -
  have "length ops < 9223372036854775808" using assms(1) by simp
  note run = sys_inv_run [OF this, of mj l opts, folded assms(2)]
  have room: "id_room s" using run(2) assms(1) by (simp add: id_room_def)
  have ids: "ids_ok s" using run(1) by (simp add: sys_inv_def cmd_inv_def)
  have i: "i = cmdID s + 1"
    by (cases rule: QueueCommand_cases [of sn c s]) (use assms(3) in auto)
  have less: "ce_ID e < i" if "e \<in> set (queueOf k s)" for e
    using ids_okD(2) [OF ids that] id_room_less [OF room] i by blast
  have pend: "j < i" if "fmlookup (pendingCommands s) j \<noteq> None" for j
    using that ids_okD(4) [OF ids] id_room_less [OF room] i by blast
  have "fmlookup (pendingCommands s) i = None" using pend by blast
  moreover have "i \<notin> ce_ID ` set (queueOf k s)" using less by blast
  ultimately show ?thesis
    using id_room_next [OF room] i less pend by (auto simp: list_all_iff)
qed

definition demoBusy :: ADMSServer where
  "demoBusy = run_ops (\<lambda>_ _ _. None) [OpRegister 0 ''A'' [], OpQueue ''A'' ''LOG''] (NewADMSServer UTC [])"

theorem fresh_positive_ids_witness:
  "\<exists>i t. QueueCommand ''A'' ''INFO'' demoBusy = (i, None, t) \<and> 0 < sint i
     \<and> queueOf ''A'' demoBusy \<noteq> [] \<and> list_all (\<lambda>e. ce_ID e < i) (queueOf ''A'' demoBusy)"
proof -
  have "fst (QueueCommand ''A'' ''INFO'' demoBusy) = 2 \<and> fst (snd (QueueCommand ''A'' ''INFO'' demoBusy)) = None
      \<and> queueOf ''A'' demoBusy \<noteq> []"
    by code_simp
  then obtain t where q: "QueueCommand ''A'' ''INFO'' demoBusy = (2, None, t)" "queueOf ''A'' demoBusy \<noteq> []"
    by (cases "QueueCommand ''A'' ''INFO'' demoBusy") auto
  from fresh_positive_ids [OF _ demoBusy_def q(1), of "''A''"] have "0 < sint (2 :: 64 word)
      \<and> list_all (\<lambda>e. ce_ID e < 2) (queueOf ''A'' demoBusy)"
    by simp
  with q show ?thesis by blast
qed

end
