(* ===== verification/Adms_Delivery.thy ===== *)
theory Adms_Delivery
  imports Adms_System
begin

section \<open>Delivery of commands over a whole run\<close>

text \<open>
  What callers of the package were promised and what devices have read, over any run of the server: the
  commands accepted by \<open>QueueCommand\<close> and its senders, with the IDs they returned, and the commands
  that devices read from the answers they get.  A device reads the complete lines of a 200 answer on the
  two routes that carry commands; a caller of \<open>DrainCommands\<close> takes the commands as they are.
\<close>

subsection \<open>Accepted and handed over\<close>

text \<open>The device an operation sends a command to.\<close>

fun sendTarget :: "op \<Rightarrow> string option" where
  "sendTarget (OpQueue sn _) = Some sn"
| "sendTarget (OpInfo sn) = Some sn"
| "sendTarget (OpUserAdd sn _ _ _ _) = Some sn"
| "sendTarget (OpUserDelete sn _) = Some sn"
| "sendTarget (OpCheck sn) = Some sn"
| "sendTarget (OpGetOption sn _) = Some sn"
| "sendTarget (OpShell sn _) = Some sn"
| "sendTarget (OpQueryUsers sn) = Some sn"
| "sendTarget (OpLog sn) = Some sn"
| "sendTarget _ = None"

text \<open>What the operation appends to that device's queue.\<close>

definition acceptedBy :: "marshal \<Rightarrow> op \<Rightarrow> ADMSServer \<Rightarrow> (string \<times> CommandEntry) list" where
  "acceptedBy mj x s =
     (case sendTarget x of
        None \<Rightarrow> []
      | Some sn \<Rightarrow> map (Pair sn) (drop (length (queueOf sn s)) (queueOf sn (step mj x s))))"

text \<open>What a device reads from an answer.\<close>

definition commandsRead :: "request \<Rightarrow> response \<Rightarrow> CommandEntry list" where
  "commandsRead r rs =
     (if (HasSuffix (rq_path r) routeCData \<or> HasSuffix (rq_path r) routeGetRequest) \<and> rs_status rs = 200
      then List.map_filter readWire (butlast (Split NL (rs_text rs))) else [])"

fun handedBy :: "marshal \<Rightarrow> op \<Rightarrow> ADMSServer \<Rightarrow> (string \<times> CommandEntry) list" where
  "handedBy mj (OpHttp e r) s =
     map (Pair (queryGet paramSN (ParseQuery (rq_query r)))) (commandsRead r (fst (ServeHTTP mj e r s)))"
| "handedBy mj (OpDrain sn) s = map (Pair sn) (fst (DrainCommands sn s))"
| "handedBy mj _ s = []"

text \<open>Both, over a run.\<close>

fun acceptedIn :: "marshal \<Rightarrow> op list \<Rightarrow> ADMSServer \<Rightarrow> (string \<times> CommandEntry) list" where
  "acceptedIn mj [] s = []"
| "acceptedIn mj (x # xs) s = acceptedBy mj x s @ acceptedIn mj xs (step mj x s)"

fun handedIn :: "marshal \<Rightarrow> op list \<Rightarrow> ADMSServer \<Rightarrow> (string \<times> CommandEntry) list" where
  "handedIn mj [] s = []"
| "handedIn mj (x # xs) s = handedBy mj x s @ handedIn mj xs (step mj x s)"

text \<open>The part of a device.\<close>

definition ofDevice :: "string \<Rightarrow> (string \<times> CommandEntry) list \<Rightarrow> CommandEntry list" where
  "ofDevice sn ps = map snd (filter (\<lambda>p. fst p = sn) ps)"

lemma ofDevice_simps [simp]:
  "ofDevice sn [] = []" "ofDevice sn (ps @ qs) = ofDevice sn ps @ ofDevice sn qs"
  "ofDevice sn (map (Pair k) es) = (if sn = k then es else [])"
  by (simp_all add: ofDevice_def filter_map comp_def)

subsection \<open>What one answer hands over\<close>

lemma map_filter_readWire: "map readWire ls = map Some es \<Longrightarrow> List.map_filter readWire ls = es"
  by (induction ls arbitrary: es) (auto simp: List.map_filter_simps split: option.split)

lemma read_writeCommands:
  assumes "wire_ok s"
  shows "List.map_filter readWire (butlast (Split NL (rs_text (fst (writeCommandsOrOK sn s))))) = queueOf sn s"
  using writeCommands_text [OF assms, of sn] by (intro map_filter_readWire) (simp split: if_splits)

lemma single_line: "NL \<notin> set t \<Longrightarrow> List.map_filter readWire (butlast (Split NL t)) = []"
  by (simp add: List.map_filter_simps)

text \<open>An answer that is not 200, or has no complete line, hands nothing over; the others are those of
  \<open>writeCommandsOrOK\<close>.\<close>

definition reads :: "response \<Rightarrow> CommandEntry list" where
  "reads rs = (if rs_status rs = 200 then List.map_filter readWire (butlast (Split NL (rs_text rs))) else [])"

lemma reads_simps [simp]:
  "reads (httpError msg 400) = []" "reads (httpError msg 405) = []" "reads (httpError msg 413) = []"
  "reads (httpError msg 503) = []" "reads (queueFull what) = []"
  "NL \<notin> set t \<Longrightarrow> reads (okText t) = []"
  by (simp_all add: reads_def httpError_def queueFull_def okText_def single_line)

lemma plain_answers [simp]: "NL \<notin> set respOK" "NL \<notin> set (itoa n)"
  by (simp_all add: respOK_def itoa_no_blank)

text \<open>Nothing handed over, with the queues as they were and no new pending command; or the whole queue of
  the device, which is then gone and pending.\<close>

definition kept :: "ADMSServer \<Rightarrow> ADMSServer \<Rightarrow> bool" where
  "kept s t \<longleftrightarrow> commandQueue t = commandQueue s \<and> pendingCommands t \<subseteq>\<^sub>f pendingCommands s"

definition drained_to :: "string \<Rightarrow> ADMSServer \<Rightarrow> ADMSServer \<Rightarrow> bool" where
  "drained_to sn s t \<longleftrightarrow> commandQueue t = fmdrop sn (commandQueue s)
     \<and> pendingCommands t = recordPending sn (queueOf sn s) (pendingCommands s)"

definition handsQueue :: "string \<Rightarrow> ADMSServer \<Rightarrow> response \<times> ADMSServer \<Rightarrow> bool" where
  "handsQueue sn s p \<longleftrightarrow> reads (fst p) = [] \<and> kept s (snd p)
     \<or> reads (fst p) = queueOf sn s \<and> drained_to sn s (snd p)"

lemma fmsubset_refl [simp]: "m \<subseteq>\<^sub>f m"
  by (simp add: fmsubset_alt_def fmpred_iff)

lemma forget_subset: "forget ids m \<subseteq>\<^sub>f m"
  by (auto simp: forget_def fmsubset_alt_def fmpred_iff)

lemma kept_refl [simp]: "kept s s"
  by (simp add: kept_def)

lemma kept_rest: "rest_of t = rest_of s \<Longrightarrow> kept s t"
  using rest_of_eqD(1,2) [of t s] by (simp add: kept_def)

lemma kept_core: "core t = core s \<Longrightarrow> kept s t"
  using core_eqD(2,3) [of t s] by (simp add: kept_def)

lemma kept_none: "reads rs = [] \<Longrightarrow> kept s t \<Longrightarrow> handsQueue sn s (rs, t)"
  by (simp add: handsQueue_def)

lemma DrainCommands_drained: "drained_to sn s (snd (DrainCommands sn s))"
  by (simp add: drained_to_def DrainCommands_def Let_def)

lemma handsQueue_write: "wire_ok s \<Longrightarrow> handsQueue sn s (writeCommandsOrOK sn s)"
  using read_writeCommands [of s sn] DrainCommands_drained [of sn s]
  by (simp add: handsQueue_def reads_def writeCommands_state)

text \<open>It depends on queues and pending commands only.\<close>

lemma handsQueue_cong:
  "commandQueue t = commandQueue s \<Longrightarrow> pendingCommands t = pendingCommands s
    \<Longrightarrow> handsQueue sn t p \<Longrightarrow> handsQueue sn s p"
  by (simp add: handsQueue_def kept_def drained_to_def queueOf_def)

lemma wire_ok_cong: "commandQueue t = commandQueue s \<Longrightarrow> wire_ok t = wire_ok s"
  by (simp add: wire_ok_def queueOf_def)

lemma readBody_Inl: "readBody r s = Inl rs \<Longrightarrow> reads rs = []"
  by (auto simp: readBody_def split: sum.splits read_error.splits)

lemma core_dispatches:
  "core (snd (dispatchAttendance e records s)) = core s"
  "core (snd (dispatchDeviceInfo e sn info s)) = core s"
  "core (snd (dispatchRegistry e sn info s)) = core s"
  "core (snd (dispatchQueryUsers e sn users s)) = core s"
  by (simp_all add: dispatch_defs core_dispatchCallback)

lemmas kept_dispatch = core_dispatches [THEN kept_core]

text \<open>A dispatch whose answer, either way, hands nothing over.\<close>

lemma handsQueue_dispatched:
  assumes "kept s (snd p)" "reads rs = []" "reads rs' = []"
  shows "handsQueue sn s (case p of (False, t) \<Rightarrow> (rs, t) | (True, t) \<Rightarrow> (rs', t))"
  using assms by (cases p; cases "fst p") (auto intro: kept_none)

lemma handsQueue_info:
  assumes "wire_ok s"
  shows "handsQueue sn s (cdataInfo e r sn s)"
proof -
  have "handsQueue sn s (case dispatchDeviceInfo x sn info s of
      (False, u) \<Rightarrow> (queueFull what, u) | (True, u) \<Rightarrow> writeCommandsOrOK sn u)" for x info what
  proof -
    obtain ok u where d: "dispatchDeviceInfo x sn info s = (ok, u)" by (cases "dispatchDeviceInfo x sn info s")
    have c: "core u = core s" using core_dispatches(2) [of x sn info s] d by simp
    have "handsQueue sn u (writeCommandsOrOK sn u)"
      using assms wire_ok_cong core_eqD(2) [OF c] by (blast intro: handsQueue_write)
    then have "handsQueue sn s (writeCommandsOrOK sn u)"
      by (rule handsQueue_cong [OF core_eqD(2,3) [OF c]])
    then show ?thesis unfolding d by (cases ok) (simp_all add: kept_none kept_core [OF c])
  qed
  then show ?thesis
    by (auto simp: cdataInfo_def handsQueue_write assms readBody_Inl kept_none split: sum.split)
qed

lemma handsQueue_cdata:
  assumes "wire_ok s"
  shows "handsQueue sn s (cdataBody e r sn s)"
proof -
  have "handsQueue sn s (cdataAttlog e r sn s)" "handsQueue sn s (cdataUserinfo e r sn s)"
    unfolding cdataAttlog_def cdataUserinfo_def Let_def
    by (auto simp: readBody_Inl kept_none split: sum.split
        intro!: handsQueue_dispatched kept_dispatch)
  then show ?thesis
    using handsQueue_info [OF assms] by (simp add: cdataBody_def Let_def kept_none)
qed

text \<open>The two bodies that do not answer with commands.\<close>

lemma kept_deviceCmd: "kept s (snd (deviceCmdBody e r sn s))"
proof (cases "readBody r s")
  case (Inr body)
  obtain failed t where c: "confirmLoop (ev_sched e) 0 (parseCommandResults body sn) s = (failed, t)"
    by (cases "confirmLoop (ev_sched e) 0 (parseCommandResults body sn) s")
  have "commandQueue (confirm_rest u) = commandQueue u" for u
    by (simp add: confirm_rest_def core_fields)
  then have "kept s t"
    using confirmLoop_spec [OF c] forget_subset by (metis kept_def)
  then show ?thesis by (simp add: deviceCmdBody_def Inr c split: option.split)
qed (simp add: deviceCmdBody_def)

lemma kept_dispatched:
  "kept s (snd p) \<Longrightarrow> kept s (snd (case p of (False, t) \<Rightarrow> (rs, t) | (True, t) \<Rightarrow> (rs', t)))"
  by (cases p; cases "fst p") auto

lemma kept_registry: "kept s (snd (registryBody e r sn s))"
proof -
  have "rest_of (copyOptions sn info s) = rest_of s" for info
    by (simp add: copyOptions_def split: option.split)
  then have "kept s (copyOptions sn info s)" for info by (rule kept_rest)
  then have "kept s (snd (dispatchRegistry x sn info (copyOptions sn info s)))" for x info
    using core_eqD(2,3) [OF core_dispatches(3)] by (simp add: kept_def)
  then show ?thesis
    by (auto simp: registryBody_def Let_def intro!: kept_dispatched split: sum.split)
qed

text \<open>The guards: a request that is refused hands nothing over, the others are for the device they name.\<close>

lemma guarded_cases:
  assumes "\<And>rs t. guarded methods body e r s = (rs, t) \<Longrightarrow> reads rs = [] \<Longrightarrow> kept s t \<Longrightarrow> Q"
    "\<And>sn t. requireSerialNumber r = Inr sn \<Longrightarrow> rest_of t = rest_of s
      \<Longrightarrow> guarded methods body e r s = body e r sn t \<Longrightarrow> Q"
  shows Q
proof (cases "rq_method r \<in> set methods")
  case False
  then have "guarded methods body e r s = (httpError respMethodNotAllowed 405, s)"
    by (simp add: guarded_def requireMethod_def)
  then show ?thesis by (rule assms(1)) simp_all
next
  case True
  obtain res t where d: "requireDevice e r s = (res, t)" by (cases "requireDevice e r s")
  show ?thesis
  proof (cases res)
    case (Inl rs)
    have "t = s \<and> rs_status rs \<in> {400, 503}" using requireDevice_Inl [of e r s rs t] d Inl by simp
    then show ?thesis using True d Inl
      by (intro assms(1) [of rs t]) (auto simp: guarded_def requireMethod_def reads_def)
  next
    case (Inr sn)
    note dev = requireDevice_Inr [OF d [unfolded Inr]]
    show ?thesis
      by (rule assms(2) [OF dev(1,4)]) (use True d Inr in \<open>simp add: guarded_pass\<close>)
  qed
qed

lemma handsQueue_guarded:
  assumes "wire_ok s" "\<And>sn t. wire_ok t \<Longrightarrow> handsQueue sn t (body e r sn t)"
  shows "reads (fst (guarded methods body e r s)) = [] \<and> kept s (snd (guarded methods body e r s))
    \<or> (\<exists>sn. requireSerialNumber r = Inr sn \<and> handsQueue sn s (guarded methods body e r s))"
proof (rule guarded_cases [of methods body e r s])
  fix sn t
  assume g: "requireSerialNumber r = Inr sn" "rest_of t = rest_of s" "guarded methods body e r s = body e r sn t"
  note same = rest_of_eqD(1,2) [OF g(2)]
  have "handsQueue sn t (body e r sn t)" using assms wire_ok_cong [OF same(1)] by blast
  then have "handsQueue sn s (body e r sn t)" by (rule handsQueue_cong [OF same])
  then show ?thesis using g by auto
qed simp

lemma kept_guarded:
  assumes "\<And>sn t. kept t (snd (body e r sn t))"
  shows "kept s (snd (guarded methods body e r s))"
proof (rule guarded_cases [of methods body e r s])
  fix sn t
  assume g: "rest_of t = rest_of s" "guarded methods body e r s = body e r sn t"
  show ?thesis
    using assms [of t sn] rest_of_eqD(1,2) [OF g(1)] unfolding g(2) by (simp add: kept_def)
qed simp

lemma commandsRead_reads: "commandsRead r rs = (if HasSuffix (rq_path r) routeCData \<or> HasSuffix (rq_path r) routeGetRequest
    then reads rs else [])"
  by (simp add: commandsRead_def reads_def)

lemma handed_ServeHTTP:
  assumes "wire_ok s"
  shows "commandsRead r (fst (ServeHTTP mj e r s)) = [] \<and> kept s (snd (ServeHTTP mj e r s))
    \<or> (\<exists>sn. requireSerialNumber r = Inr sn
        \<and> commandsRead r (fst (ServeHTTP mj e r s)) = queueOf sn s \<and> drained_to sn s (snd (ServeHTTP mj e r s)))"
proof (cases "HasSuffix (rq_path r) routeCData \<or> HasSuffix (rq_path r) routeGetRequest")
  case True
  have "reads (fst (HandleCData e r s)) = [] \<and> kept s (snd (HandleCData e r s))
      \<or> (\<exists>sn. requireSerialNumber r = Inr sn \<and> handsQueue sn s (HandleCData e r s))"
    unfolding HandleCData_def by (rule handsQueue_guarded [OF assms handsQueue_cdata])
  moreover have "reads (fst (HandleGetRequest e r s)) = [] \<and> kept s (snd (HandleGetRequest e r s))
      \<or> (\<exists>sn. requireSerialNumber r = Inr sn \<and> handsQueue sn s (HandleGetRequest e r s))"
    unfolding HandleGetRequest_def by (rule handsQueue_guarded [OF assms handsQueue_write])
  moreover have "ServeHTTP mj e r s = HandleCData e r s \<or> ServeHTTP mj e r s = HandleGetRequest e r s"
    using True by (auto simp: ServeHTTP_def Let_def)
  moreover have "commandsRead r = reads" using True by (auto simp: commandsRead_reads)
  ultimately show ?thesis unfolding handsQueue_def by metis
next
  case False
  have "kept s (snd (HandleDeviceCmd e r s))" "kept s (snd (HandleRegistry e r s))"
    unfolding HandleDeviceCmd_def HandleRegistry_def
    by (rule kept_guarded, rule kept_deviceCmd, rule kept_guarded, rule kept_registry)
  moreover have "kept s (snd (HandleInspect mj e r s))"
    by (simp add: HandleInspect_def Let_def split: option.split)
  ultimately show ?thesis using False by (simp add: commandsRead_def ServeHTTP_def Let_def)
qed

subsection \<open>Runs\<close>

text \<open>An operation that sends no command hands over nothing, or the queue of one device; or it evicts.\<close>

fun evicts :: "op \<Rightarrow> bool" where
  "evicts (OpEvict _ _ _) = True"
| "evicts _ = False"

lemma passive_step:
  assumes "wire_ok s" "sendTarget x = None" "\<not> evicts x"
  shows "handedBy mj x s = [] \<and> kept s (step mj x s)
    \<or> (\<exists>sn. handedBy mj x s = map (Pair sn) (queueOf sn s) \<and> drained_to sn s (step mj x s))"
proof (cases x)
  case (OpRegister now sn zones)
  then show ?thesis using kept_rest [OF rest_of_RegisterDevice] by simp
next
  case (OpSetTimezone sn loc)
  then show ?thesis using kept_rest [OF rest_of_SetDeviceTimezone] by simp
next
  case (OpHttp e r)
  from handed_ServeHTTP [OF assms(1), of r mj e] show ?thesis
    by (elim disjE exE conjE) (auto simp: OpHttp dest!: requireSerialNumber_Inr)
next
  case (OpDrain sn)
  then show ?thesis using DrainCommands_drained [of sn s]
    by (intro disjI2 exI [of _ sn]) (simp add: DrainCommands_def Let_def)
next
  case OpWorker
  then show ?thesis using kept_core [OF core_workerTake] by simp
next
  case OpCloseSignal
  then show ?thesis by (simp add: kept_def)
qed (use assms in simp_all)

lemma evict_step:
  assumes "evicts x"
  shows "handedBy mj x s = [] \<and> (\<forall>k. queueOf k (step mj x s) = queueOf k s \<or> queueOf k (step mj x s) = [])
    \<and> pendingCommands (step mj x s) \<subseteq>\<^sub>f pendingCommands s"
  using assms
  by (cases x) (auto simp: evictStaleDevices_eq lookup_evicted fmsubset_alt_def fmpred_iff
      split: option.splits if_splits)

text \<open>A sender appends its command under a new ID, or nothing.\<close>

lemma sends_state:
  "sends_of sn res s \<Longrightarrow> snd (snd res) = s \<or> (\<exists>c. snd (snd res) = snd (snd (QueueCommand sn c s)))"
  by (auto simp: sends_of_def)

lemma sent_step:
  assumes "sendTarget x = Some sn"
  shows "step mj x s = s \<or> (\<exists>c. step mj x s = snd (snd (QueueCommand sn c s)))"
  using assms by (cases x) (simp_all, blast, (rule sends_state, rule senders)+)

text \<open>So an operation accepts one command, keeps queues and pending commands, hands over a queue, or
  evicts.\<close>

lemma queueOf_kept: "kept s t \<Longrightarrow> queueOf k t = queueOf k s"
  by (simp add: kept_def queueOf_def)

lemma queueOf_drained: "drained_to sn s t \<Longrightarrow> queueOf k t = (if k = sn then [] else queueOf k s)"
  by (simp add: drained_to_def queueOf_def)

lemma handedBy_send: "sendTarget x = Some sn \<Longrightarrow> handedBy mj x s = []"
  by (cases x) simp_all

lemma acceptedBy_kept: "kept s (step mj x s) \<Longrightarrow> acceptedBy mj x s = []"
  by (simp add: acceptedBy_def queueOf_kept split: option.split)

lemma step_cases:
  assumes "sys_inv s"
  obtains
    (accept) sn e where "acceptedBy mj x s = [(sn, e)]" "handedBy mj x s = []" "ce_ID e = cmdID s + 1"
      "cmdID (step mj x s) = cmdID s + 1" "pendingCommands (step mj x s) = pendingCommands s"
      "\<And>k. queueOf k (step mj x s) = queueOf k s @ (if k = sn then [e] else [])"
  | (keep) "acceptedBy mj x s = []" "handedBy mj x s = []" "kept s (step mj x s)"
  | (hand) sn where "acceptedBy mj x s = []" "handedBy mj x s = map (Pair sn) (queueOf sn s)"
      "drained_to sn s (step mj x s)"
  | (evict) "evicts x" "acceptedBy mj x s = []" "handedBy mj x s = []"
      "\<And>k. queueOf k (step mj x s) = queueOf k s \<or> queueOf k (step mj x s) = []"
      "pendingCommands (step mj x s) \<subseteq>\<^sub>f pendingCommands s"
proof (cases "sendTarget x")
  case (Some sn)
  then consider (refused) "step mj x s = s" | (queued) c where "step mj x s = snd (snd (QueueCommand sn c s))"
    using sent_step by blast
  then show thesis
  proof cases
    case refused
    then show thesis using keep Some by (simp add: acceptedBy_kept handedBy_send)
  next
    case (queued c)
    then show thesis
    proof (cases rule: QueueCommand_cases [of sn c s])
      case queued': queued
      show thesis
        by (rule accept [of sn "\<lparr>ce_ID = cmdID s + 1, ce_Command = c\<rparr>"])
          (simp_all add: queued queued' acceptedBy_def Some handedBy_send queueOf_def)
    qed (use keep Some queued in \<open>simp_all add: acceptedBy_kept handedBy_send kept_def\<close>)
  qed
next
  case None
  have wire: "wire_ok s" using assms by (simp add: sys_inv_def cmd_inv_def)
  have a: "acceptedBy mj x s = []" by (simp add: acceptedBy_def None)
  show thesis
  proof (cases "evicts x")
    case True
    then show thesis using evict a evict_step by blast
  next
    case False
    from passive_step [OF wire None False, of mj] show thesis using keep hand a by blast
  qed
qed

subsection \<open>The invariant of the histories\<close>

text \<open>\<open>A\<close> has been accepted and \<open>H\<close> handed over so far: for each device, what was handed over followed
  by what waits is a subsequence of what was accepted, and IDs are accepted in increasing order.  A
  pending command was handed over, under its ID, to the device it is recorded for.\<close>

definition delivery_ok ::
    "(string \<times> CommandEntry) list \<Rightarrow> (string \<times> CommandEntry) list \<Rightarrow> ADMSServer \<Rightarrow> bool" where
  "delivery_ok A H s \<longleftrightarrow>
     (\<forall>sn. subseq (ofDevice sn H @ queueOf sn s) (ofDevice sn A))
     \<and> sorted_wrt (<) (map (ce_ID \<circ> snd) A)
     \<and> (\<forall>p \<in> set A. ce_ID (snd p) \<le> cmdID s)
     \<and> fmpred (\<lambda>i p. (pe_sn p, \<lparr>ce_ID = i, ce_Command = pe_cmd p\<rparr>) \<in> set H) (pendingCommands s)"

text \<open>Without evictions nothing is lost.\<close>

definition delivery_exact ::
    "(string \<times> CommandEntry) list \<Rightarrow> (string \<times> CommandEntry) list \<Rightarrow> ADMSServer \<Rightarrow> bool" where
  "delivery_exact A H s \<longleftrightarrow> (\<forall>sn. ofDevice sn H @ queueOf sn s = ofDevice sn A)"

lemma subseq_drop_middle: "subseq (xs @ ys) zs \<Longrightarrow> subseq xs zs"
  using subseq_order.trans [OF prefix_imp_subseq [of xs "xs @ ys"]] by simp

lemma distinct_subseq: "subseq xs ys \<Longrightarrow> distinct ys \<Longrightarrow> distinct xs"
  by (auto simp: subseq_conv_nths)

lemma fmsubset_pred: "n \<subseteq>\<^sub>f m \<Longrightarrow> fmpred Q m \<Longrightarrow> fmpred Q n"
  by (auto simp: fmsubset_alt_def fmpred_iff)

lemma fmpred_recordPending:
  "fmpred Q m \<Longrightarrow> \<forall>e \<in> set cmds. Q (ce_ID e) (pending_of sn e) \<Longrightarrow> fmpred Q (recordPending sn cmds m)"
  by (auto simp: fmpred_iff dest: recordPending_Some)

lemma entry_eta [simp]: "\<lparr>ce_ID = ce_ID e, ce_Command = ce_Command e\<rparr> = (e :: CommandEntry)"
  by simp

lemma ofDevice_single: "ofDevice k [(sn, e)] = (if k = sn then [e] else [])"
  by (simp add: ofDevice_def)

lemma delivery_step:
  assumes "sys_inv s" "id_room s" "delivery_ok A H s"
  shows "delivery_ok (A @ acceptedBy mj x s) (H @ handedBy mj x s) (step mj x s)"
proof -
  have old: "subseq (ofDevice k H @ queueOf k s) (ofDevice k A)" "sorted_wrt (<) (map (ce_ID \<circ> snd) A)"
    "\<forall>p \<in> set A. ce_ID (snd p) \<le> cmdID s"
    "fmpred (\<lambda>i p. (pe_sn p, \<lparr>ce_ID = i, ce_Command = pe_cmd p\<rparr>) \<in> set H) (pendingCommands s)" for k
    using assms(3) by (simp_all add: delivery_ok_def)
  have less: "cmdID s < cmdID s + 1" using id_room_less [OF assms(2)] by simp
  have ids: "\<forall>p \<in> set A. ce_ID (snd p) \<le> cmdID (step mj x s)"
    using old(3) cmdID_step [of mj x s] less by (auto intro: order_trans less_imp_le)
  show ?thesis
    using assms(1)
  proof (cases rule: step_cases [of s mj x])
    case (accept sn e)
    have "subseq (ofDevice k H @ queueOf k s @ (if k = sn then [e] else []))
        (ofDevice k A @ (if k = sn then [e] else []))" for k
      using old(1) [of k] list_emb_append_mono [of "(=)" "ofDevice k H @ queueOf k s" "ofDevice k A"]
      by auto
    moreover have "\<forall>p \<in> set A. ce_ID (snd p) < ce_ID e"
      using old(3) less by (auto simp: accept(3) intro: le_less_trans)
    ultimately show ?thesis
      using old(2,4) ids by (simp add: delivery_ok_def accept ofDevice_single sorted_wrt_append)
  next
    case keep
    then show ?thesis
      using old ids fmsubset_pred [OF _ old(4)] by (auto simp: delivery_ok_def queueOf_kept [OF keep(3)] kept_def)
  next
    case (hand sn)
    have "fmpred (\<lambda>i p. (pe_sn p, \<lparr>ce_ID = i, ce_Command = pe_cmd p\<rparr>) \<in> set (H @ handedBy mj x s))
        (pendingCommands (step mj x s))"
      using hand(3) old(4) unfolding drained_to_def hand(2)
      by (elim conjE, elim ssubst, intro fmpred_recordPending) (auto simp: fmpred_iff pending_of_def)
    then show ?thesis
      using old ids subseq_drop_middle [OF old(1)] by (simp add: delivery_ok_def hand queueOf_drained [OF hand(3)])
  next
    case evict
    have "subseq (ofDevice k H @ queueOf k (step mj x s)) (ofDevice k A)" for k
      using evict(4) [of k] old(1) [of k] subseq_drop_middle [OF old(1) [of k]] by auto
    then show ?thesis
      using old ids fmsubset_pred [OF evict(5) old(4)] by (simp add: delivery_ok_def evict)
  qed
qed

lemma exact_step:
  assumes "sys_inv s" "\<not> evicts x" "delivery_exact A H s"
  shows "delivery_exact (A @ acceptedBy mj x s) (H @ handedBy mj x s) (step mj x s)"
  using assms(1)
  by (cases rule: step_cases [of s mj x])
    (use assms(2,3) in \<open>auto simp: delivery_exact_def ofDevice_single queueOf_kept queueOf_drained\<close>)

text \<open>What every operation keeps, given the histories, holds after every run.\<close>

lemma run_histories:
  assumes "\<And>A H x s. sys_inv s \<Longrightarrow> id_room s \<Longrightarrow> good x \<Longrightarrow> Q A H s
      \<Longrightarrow> Q (A @ acceptedBy mj x s) (H @ handedBy mj x s) (step mj x s)"
    and "sys_inv s" "unat (cmdID s) + length xs < 9223372036854775808" "list_all good xs" "Q A H s"
  shows "Q (A @ acceptedIn mj xs s) (H @ handedIn mj xs s) (run_ops mj xs s)"
  using assms(2-)
proof (induction xs arbitrary: A H s)
  case (Cons x xs)
  have room: "id_room s" using Cons.prems(2) by (simp add: id_room_def)
  have "unat (cmdID (step mj x s)) \<le> Suc (unat (cmdID s))" by (rule runs.exec_room [OF room])
  then have "Q ((A @ acceptedBy mj x s) @ acceptedIn mj xs (step mj x s))
      ((H @ handedBy mj x s) @ handedIn mj xs (step mj x s)) (run_ops mj xs (step mj x s))"
    using Cons.prems sys_inv_step [OF Cons.prems(1) room] assms(1) [OF Cons.prems(1) room]
    by (intro Cons.IH) simp_all
  then show ?case by simp
qed simp

lemma new_histories:
  assumes "\<And>A H x s. sys_inv s \<Longrightarrow> id_room s \<Longrightarrow> good x \<Longrightarrow> Q A H s
      \<Longrightarrow> Q (A @ acceptedBy mj x s) (H @ handedBy mj x s) (step mj x s)"
    and "length xs < 9223372036854775808" "list_all good xs" "Q [] [] (NewADMSServer l opts)"
  shows "Q (acceptedIn mj xs (NewADMSServer l opts)) (handedIn mj xs (NewADMSServer l opts))
    (run_ops mj xs (NewADMSServer l opts))"
proof -
  have "cmdID (NewADMSServer l opts) = 0" using pristine_New by (simp add: pristine_def)
  with run_histories [of good Q mj, OF assms(1) sys_inv_New _ assms(3,4)] assms(2) show ?thesis by simp
qed

lemma delivery_new: "delivery_ok [] [] (NewADMSServer l opts)" "delivery_exact [] [] (NewADMSServer l opts)"
  using pristine_New [of l opts] by (simp_all add: delivery_ok_def delivery_exact_def pristine_def queueOf_def)

lemma delivered:
  assumes "length xs < 9223372036854775808"
  shows "delivery_ok (acceptedIn mj xs (NewADMSServer l opts)) (handedIn mj xs (NewADMSServer l opts))
    (run_ops mj xs (NewADMSServer l opts))"
  by (rule new_histories [of "\<lambda>_. True" delivery_ok, OF delivery_step assms _ delivery_new(1)])
    (simp_all add: list_all_iff)

subsection \<open>Properties\<close>

text \<open>C2 At most once, in order: over any run of a new server, the commands that a device has read,
  followed by those that still wait for it, are a subsequence of those accepted for it, and no ID is ever
  accepted twice, for whatever device; so no command is ever handed over twice, or to another device.
  Only evictions lose commands: in a run without them, what was accepted is exactly what was handed over
  and what waits, in order.\<close>

theorem at_most_once:
  assumes "length xs < 9223372036854775808"
  shows "subseq (ofDevice sn (handedIn mj xs (NewADMSServer l opts))
        @ queueOf sn (run_ops mj xs (NewADMSServer l opts)))
      (ofDevice sn (acceptedIn mj xs (NewADMSServer l opts)))
    \<and> sorted_wrt (<) (map (ce_ID \<circ> snd) (acceptedIn mj xs (NewADMSServer l opts)))
    \<and> distinct (map ce_ID (ofDevice sn (handedIn mj xs (NewADMSServer l opts))))
    \<and> (list_all (\<lambda>x. \<not> evicts x) xs \<longrightarrow>
        ofDevice sn (handedIn mj xs (NewADMSServer l opts)) @ queueOf sn (run_ops mj xs (NewADMSServer l opts))
          = ofDevice sn (acceptedIn mj xs (NewADMSServer l opts)))"
proof -
  let ?s = "NewADMSServer l opts"
  let ?A = "acceptedIn mj xs ?s" and ?H = "handedIn mj xs ?s"
  note ok = delivered [OF assms, of mj l opts]
  then have "subseq (ofDevice sn ?H @ queueOf sn (run_ops mj xs ?s)) (ofDevice sn ?A)"
    by (simp add: delivery_ok_def)
  note sub = subseq_drop_middle [OF this]
  have "distinct (map (ce_ID \<circ> snd) ?A)"
    using ok strict_sorted_iff [of "map (ce_ID \<circ> snd) ?A"] by (simp add: delivery_ok_def)
  then have "distinct (map ce_ID (ofDevice sn ?A))"
    unfolding ofDevice_def by (simp add: distinct_map inj_on_def)
  then have "distinct (map ce_ID (ofDevice sn ?H))"
    by (rule distinct_subseq [OF subseq_map [OF sub]])
  moreover have "delivery_exact ?A ?H (run_ops mj xs ?s)" if "list_all (\<lambda>x. \<not> evicts x) xs"
    by (rule new_histories [of "\<lambda>x. \<not> evicts x" delivery_exact, OF exact_step assms that delivery_new(2)])
  ultimately show ?thesis using ok by (simp add: delivery_ok_def delivery_exact_def)
qed

definition demoPoll :: request where
  "demoPoll = \<lparr>rq_method = ''GET'', rq_path = routeGetRequest, rq_query = ''SN=A'', rq_body = Body []\<rparr>"

definition demoOps :: "op list" where
  "demoOps = [OpRegister 0 ''A'' [], OpInfo ''A'', OpQueue ''A'' ''LOG'', OpHttp demoEnv demoPoll,
     OpHttp demoEnv demoPoll]"

lemma demo_handed:
  "handedIn (\<lambda>_ _ _. None) demoOps (newServer UTC)
     = [(''A'', \<lparr>ce_ID = 1, ce_Command = ''INFO''\<rparr>), (''A'', \<lparr>ce_ID = 2, ce_Command = ''LOG''\<rparr>)]"
  by code_simp

lemma demo_accepted:
  "acceptedIn (\<lambda>_ _ _. None) demoOps (newServer UTC)
     = [(''A'', \<lparr>ce_ID = 1, ce_Command = ''INFO''\<rparr>), (''A'', \<lparr>ce_ID = 2, ce_Command = ''LOG''\<rparr>)]"
  by code_simp

theorem at_most_once_witness:
  "queueOf ''A'' (run_ops (\<lambda>_ _ _. None) demoOps (NewADMSServer UTC [])) = []
    \<and> ofDevice ''A'' (handedIn (\<lambda>_ _ _. None) demoOps (NewADMSServer UTC []))
      = [\<lparr>ce_ID = 1, ce_Command = ''INFO''\<rparr>, \<lparr>ce_ID = 2, ce_Command = ''LOG''\<rparr>]"
proof -
  have n: "NewADMSServer UTC [] = newServer UTC" by (simp add: NewADMSServer_def)
  have l: "length demoOps < 9223372036854775808" by (simp add: demoOps_def)
  have o: "ofDevice ''A'' [(''A'', \<lparr>ce_ID = 1, ce_Command = ''INFO''\<rparr>), (''A'', \<lparr>ce_ID = 2, ce_Command = ''LOG''\<rparr>)]
      = [\<lparr>ce_ID = 1, ce_Command = ''INFO''\<rparr>, \<lparr>ce_ID = 2, ce_Command = ''LOG''\<rparr>]"
    by (simp add: ofDevice_def)
  have "list_all (\<lambda>x. \<not> evicts x) demoOps" by (simp add: demoOps_def)
  then show ?thesis
    using at_most_once [OF l, of "''A''" "\<lambda>_ _ _. None" UTC "[]"] unfolding n demo_handed demo_accepted o
    by simp
qed

end
