(* ===== verification/Adms_Callbacks.thy ===== *)
theory Adms_Callbacks
  imports Adms_Delivery
begin

section \<open>What the callbacks receive over a whole run\<close>

text \<open>
  The arguments of the user callbacks, over any run of the server: a type, which every event that is
  delivered or waits to be has, whatever the devices send, and the correlation of confirmations with
  the commands that were accepted.
\<close>

subsection \<open>The type of an event\<close>

definition user_wf :: "UserRecord \<Rightarrow> bool" where
  "user_wf u \<longleftrightarrow> PIN u \<noteq> [] \<and> list_all fieldText [PIN u, Name u, Card u, Password u] \<and> is_int64 (Privilege u)"

fun event_wf :: "event \<Rightarrow> bool" where
  "event_wf (AttendanceEv r) =
     (valid_sn (ar_SerialNumber r) \<and> att_wf (ar_SerialNumber r) r
      \<and> NL \<notin> set (UserID r) \<and> NL \<notin> set (WorkCode r))"
| "event_wf (DeviceInfoEv sn info) =
     (valid_sn sn \<and> fmpred (\<lambda>k v. trimmed k \<and> NL \<notin> set k \<and> trimmed v \<and> NL \<notin> set v) info)"
| "event_wf (RegistryEv sn info) = (valid_sn sn \<and> fmpred (\<lambda>k v. CHR '','' \<notin> set k \<and> trimmed v \<and> CHR '','' \<notin> set v) info)"
| "event_wf (CommandResultEv r) =
     (valid_sn (cr_SerialNumber r) \<and> is_int64 (ReturnCode r) \<and> NL \<notin> set (cr_Command r)
      \<and> CR \<notin> set (QueuedCommand r) \<and> NL \<notin> set (QueuedCommand r))"
| "event_wf (QueryUsersEv sn users) = (valid_sn sn \<and> users \<noteq> [] \<and> list_all user_wf users)"

lemma Atoi_range: "is_int64 (fst (Atoi s))"
  by (cases "ParseInt s") (use ParseInt_range in \<open>auto simp: Atoi_def is_int64_def minInt64_def maxInt64_def\<close>)

lemma trimmed_part: "c \<notin> set s \<Longrightarrow> c \<notin> set (TrimSpace s)"
  using set_TrimSpace by blast

lemma userPart_fieldText:
  "userPart part = Some (k, v) \<Longrightarrow> TAB \<notin> set part \<Longrightarrow> NL \<notin> set part \<Longrightarrow> fieldText v"
  by (auto simp: userPart_def fieldText_def trimmed_TrimSpace trimmed_part Cut_Some_iff split: option.splits)

lemma userFields_fieldText:
  "fmpred (\<lambda>_. fieldText) m \<Longrightarrow> \<forall>p \<in> set parts. TAB \<notin> set p \<and> NL \<notin> set p
    \<Longrightarrow> fmpred (\<lambda>_. fieldText) (userFields parts m)"
  by (induction parts arbitrary: m) (auto intro: userPart_fieldText split: option.split)

lemma parseUserLine_wf:
  assumes "parseUserLine line = Some u" "NL \<notin> set line"
  shows "user_wf u"
proof -
  have "NL \<notin> set p \<and> TAB \<notin> set p" if "p \<in> set (Split TAB line)" for p
    using that assms(2) Split_no_sep set_Split by blast
  then have "fmpred (\<lambda>_. fieldText) (userFields (Split TAB line) fmempty)"
    by (intro userFields_fieldText) auto
  then have "fieldText (fmget (userFields (Split TAB line) fmempty) k)" for k
    by (auto simp: fmget_def fmpred_iff split: option.split)
  with assms(1) show ?thesis
    by (auto simp: parseUserLine_def user_wf_def Atoi_range Let_def split: if_splits)
qed

lemma payloadLines_no_NL: "l \<in> set (payloadLines body) \<Longrightarrow> NL \<notin> set l"
  using Split_no_sep set_TrimRightCR by (fastforce simp: payloadLines_def)

lemma set_map_filter_eq: "set (List.map_filter f xs) = {y. \<exists>x \<in> set xs. f x = Some y}"
  by (induction xs) (auto simp: List.map_filter_simps split: option.split)

lemma parseUserRecords_wf: "list_all user_wf (parseUserRecords body)"
  by (auto simp: parseUserRecords_eq list_all_iff set_map_filter_eq
      intro: parseUserLine_wf dest: payloadLines_no_NL)

lemma parseAttLine_one_line:
  assumes "parseAttLine local loc sn line = Some r" "NL \<notin> set line"
  shows "NL \<notin> set (UserID r) \<and> NL \<notin> set (WorkCode r)"
proof -
  have "NL \<notin> set (Split TAB line ! i)" if "i < length (Split TAB line)" for i
    using that assms(2) set_Split by (meson nth_mem subsetD)
  then show ?thesis using assms(1)
    by (auto simp: parseAttLine_def att_defs Let_def trimmed_part split: if_splits option.splits)
qed

lemma parseAttendanceRecords_wf:
  "list_all (\<lambda>r. att_wf sn r \<and> NL \<notin> set (UserID r) \<and> NL \<notin> set (WorkCode r)) (parseAttendanceRecords s body sn loc)"
  by (auto simp: parseAttendanceRecords_eq list_all_iff set_map_filter_eq
      intro: parseAttLine_wf dest: parseAttLine_one_line payloadLines_no_NL)

text \<open>The command a confirmation names is part of one line.\<close>

definition named_in_line :: "cmd_parse \<Rightarrow> bool" where
  "named_in_line p \<longleftrightarrow> list_all (\<lambda>r. NL \<notin> set (cr_Command r)) (cp_current p # cp_results p)"

lemma cmdPart_one_line:
  assumes "named_in_line p" "NL \<notin> set part"
  shows "named_in_line (cmdPart sn part p)"
proof (cases "Cut CHR ''='' (TrimSpace part)")
  case (Some kv)
  then have "NL \<notin> set (snd kv)"
    using trimmed_part [OF assms(2)] by (cases kv) (auto dest: Cut_SomeD)
  then show ?thesis
    using assms(1) Some trimmed_part [of NL "snd kv"]
    by (cases kv) (auto simp: cmdPart_def cmdPair_def Let_def named_in_line_def cmdFlush_def emptyResult_def
        split: prod.splits option.splits)
qed (use assms in \<open>simp add: cmdPart_def Let_def\<close>)

lemma cmdLoop_one_line:
  "named_in_line p \<Longrightarrow> \<forall>part \<in> set parts. NL \<notin> set part \<Longrightarrow> named_in_line (cmdLoop sn parts p)"
  by (induction parts arbitrary: p) (simp_all add: cmdPart_one_line)

lemma cmdParts_one_line: "part \<in> set (cmdParts body) \<Longrightarrow> NL \<notin> set part"
  using set_Split [of part "CHR ''&''" "ReplaceAll body NL CHR ''&''"]
  by (auto simp: cmdParts_def ReplaceAll_def)

lemma parseCommandResults_one_line:
  assumes "r \<in> set (parseCommandResults body sn)"
  shows "NL \<notin> set (cr_Command r)"
proof -
  have "named_in_line (cmdLoop sn (cmdParts body) (cmd_start sn))"
    by (rule cmdLoop_one_line) (auto simp: named_in_line_def cmd_start_def emptyResult_def dest: cmdParts_one_line)
  with assms show ?thesis
    by (auto simp: parseCommandResults_eq cmd_all_def named_in_line_def list_all_iff split: if_splits)
qed

lemma kvLoop_pred:
  assumes "fmpred Q m" "\<forall>p \<in> set parts. \<forall>k v. kvPart f p = Some (k, v) \<longrightarrow> Q k v"
  shows "fmpred Q (kvLoop f parts m)"
  using assms
proof (induction parts arbitrary: m)
  case (Cons p parts)
  show ?case
  proof (cases "kvPart f p")
    case None
    with Cons show ?thesis by simp
  next
    case (Some kv)
    then have "fmpred Q (fmupd (fst kv) (snd kv) m)"
      using Cons.prems by (intro fmpred_upd) auto
    with Some Cons show ?thesis by (cases kv) simp
  qed
qed simp

lemma set_trimTildePrefix: "set (trimTildePrefix s) \<subseteq> set s"
  by (auto simp: trimTildePrefix_def TrimPrefix_def dest: in_set_dropD)

lemma kvPart_trimmed:
  assumes "kvPart f p = Some (k, v)" "c \<notin> set p" "f \<in> {None, Some trimTildePrefix}"
  shows "trimmed v \<and> c \<notin> set v \<and> c \<notin> set k \<and> (f = None \<longrightarrow> trimmed k)"
proof -
  obtain a b where p: "TrimSpace p = a @ CHR ''='' # b" "v = TrimSpace b"
    "k = TrimSpace a \<or> k = trimTildePrefix (TrimSpace a)" "f = None \<longrightarrow> k = TrimSpace a"
    using assms(1,3) by (auto simp: kvPart_def Let_def Cut_Some_iff split: option.splits)
  then have "set k \<subseteq> set (TrimSpace a)" using set_trimTildePrefix by blast
  moreover have "c \<notin> set (TrimSpace p)" by (rule trimmed_part [OF assms(2)])
  ultimately show ?thesis using p(1,2,4) trimmed_part [of c a] by (auto simp: trimmed_TrimSpace trimmed_part)
qed

lemma parseKVPairs_wf:
  assumes "f \<in> {None, Some trimTildePrefix}"
  shows "fmpred (\<lambda>k v. (f = None \<longrightarrow> trimmed k) \<and> c \<notin> set k \<and> trimmed v \<and> c \<notin> set v) (parseKVPairs body c f)"
  unfolding parseKVPairs_def
proof (rule kvLoop_pred)
  show "\<forall>p \<in> set (Split c (TrimSpace body)). \<forall>k v. kvPart f p = Some (k, v)
      \<longrightarrow> (f = None \<longrightarrow> trimmed k) \<and> c \<notin> set k \<and> trimmed v \<and> c \<notin> set v"
    using kvPart_trimmed [OF _ Split_no_sep assms] by blast
qed simp

subsection \<open>The invariant\<close>

text \<open>The text of a command that is pending has no line break either.\<close>

definition pending_text :: "ADMSServer \<Rightarrow> bool" where
  "pending_text s \<longleftrightarrow> fmpred (\<lambda>_ p. CR \<notin> set (pe_cmd p) \<and> NL \<notin> set (pe_cmd p)) (pendingCommands s)"

definition typed :: "ADMSServer \<Rightarrow> bool" where
  "typed s \<longleftrightarrow> list_all event_wf (committed s) \<and> wire_ok s \<and> pending_text s"

lemma built_wf:
  assumes "built s sn q" "valid_sn sn" "pending_text s"
  shows "list_all event_wf (eventsOf s q)"
  using assms
proof (induction rule: built.induct)
  case (built_attendance s sn body loc)
  then show ?case using parseAttendanceRecords_wf [of sn s body loc]
    by (auto simp: list_all_iff att_wf_def)
next
  case (built_info s sn body)
  then show ?case using parseKVPairs_wf [of None NL body] by simp
next
  case (built_registry s sn body)
  then show ?case using parseKVPairs_wf [of "Some trimTildePrefix" "CHR '',''" body] by simp
next
  case (built_result r body sn s)
  then show ?case
    using parseCommandResults_wf [OF built_result.hyps] parseCommandResults_one_line [OF built_result.hyps]
    by (auto simp: result_wf_def withQueued_def pending_text_def fmpred_iff split: option.split)
next
  case (built_users body sn s)
  then show ?case by (simp add: parseUserRecords_wf)
qed

text \<open>What an operation leaves alone.\<close>

lemma typed_cong:
  "committed t = committed s \<Longrightarrow> commandQueue t = commandQueue s \<Longrightarrow> pendingCommands t = pendingCommands s
    \<Longrightarrow> typed t = typed s"
  by (simp add: typed_def wire_ok_def pending_text_def queueOf_def)

lemma typed_rest: "rest_of t = rest_of s \<Longrightarrow> typed t = typed s"
  using committed_rest [of t s] rest_of_eqD(1,2) [of t s] by (intro typed_cong) auto

lemma pending_Drain:
  "pendingCommands (snd (DrainCommands sn s)) = recordPending sn (queueOf sn s) (pendingCommands s)"
  by (simp add: DrainCommands_def Let_def)

lemma committed_Drain [simp]: "committed (snd (DrainCommands sn s)) = committed s"
  by (simp add: DrainCommands_def Let_def)

lemma typed_Drain:
  assumes "typed s"
  shows "typed (snd (DrainCommands sn s))"
  using assms recordPending_Some
  by (fastforce simp: typed_def wire_ok_def queueOf_Drain pending_text_def pending_Drain fmpred_iff
      pending_of_def entry_ok_def)

text \<open>The parts of a handler keep it, for a valid serial number.\<close>

lemma pending_text_drop:
  "pending_text s \<Longrightarrow> pending_text (s\<lparr>pendingCommands := fmdrop i (pendingCommands s)\<rparr>)"
  by (auto simp: pending_text_def fmpred_iff)

lemma rest_of_copyOptions: "rest_of (copyOptions sn info s) = rest_of s"
  by (simp add: copyOptions_def split: option.split)

interpretation types: handler_parts typed valid_sn
proof unfold_locales
  show "typed (snd (RegisterDevice now sn [] s))" if "typed s" for s now sn
    using that typed_rest [OF rest_of_RegisterDevice] by simp
  show "typed (updateDeviceActivity now sn s)" if "typed s" for s now sn
    using that typed_rest [OF rest_of_updateDeviceActivity] by simp
  show "typed (copyOptions sn info s)" if "typed s" for s sn info
    using that typed_rest [OF rest_of_copyOptions] by simp
  show "typed (snd (dispatchCallback e q s))" if "valid_sn sn" "built s sn q" "typed s" for s sn e q
    using that built_wf [OF that(2,1)] core_eqD(2,3) [OF core_dispatchCallback, of e q s]
    by (simp add: typed_def committed_dispatchCallback wire_ok_def pending_text_def queueOf_def)
  show "typed (snd (DrainCommands sn s))" if "typed s" for s sn
    by (rule typed_Drain [OF that])
  show "typed (s\<lparr>pendingCommands := fmdrop i (pendingCommands s)\<rparr>)" if "typed s" for s i
    using that by (simp add: typed_def wire_ok_def pending_text_drop)
qed

text \<open>Nothing but a request commits anything, and commands get their text from a queue.\<close>

lemma committed_counter [simp]: "committed (s\<lparr>cmdID := i\<rparr>) = committed s"
proof -
  have "eventsOf (s\<lparr>cmdID := i\<rparr>) = eventsOf s" by (rule ext, rename_tac q, case_tac q) simp_all
  then show ?thesis by (simp add: committed_def)
qed

lemma committed_QueueCommand [simp]: "committed (snd (snd (QueueCommand sn c s))) = committed s"
  by (cases rule: QueueCommand_cases [of sn c s]) simp_all

lemma pending_QueueCommand [simp]:
  "pendingCommands (snd (snd (QueueCommand sn c s))) = pendingCommands s"
  by (cases rule: QueueCommand_cases [of sn c s]) simp_all

lemma committed_passive:
  assumes "\<forall>e r. x \<noteq> OpHttp e r"
  shows "committed (step mj x s) = committed s"
proof (cases "sendTarget x")
  case (Some sn)
  then show ?thesis using sent_step [OF Some, of mj s] by auto
next
  case None
  then show ?thesis
    using assms committed_rest [OF rest_of_RegisterDevice] committed_rest [OF rest_of_SetDeviceTimezone]
    by (cases x) (simp_all add: evictStaleDevices_eq evicted_def)
qed

lemma pending_text_step:
  assumes "\<forall>e r. x \<noteq> OpHttp e r" "wire_ok s" "pending_text s"
  shows "pending_text (step mj x s)"
proof (cases "sendTarget x")
  case (Some sn)
  then show ?thesis using sent_step [OF Some, of mj s] assms(3) by (auto simp: pending_text_def)
next
  case None
  show ?thesis
  proof (cases x)
    case (OpRegister now sn zones)
    then show ?thesis using assms(3) rest_of_eqD(2) [OF rest_of_RegisterDevice]
      by (simp add: pending_text_def)
  next
    case (OpSetTimezone sn loc)
    then show ?thesis using assms(3) rest_of_eqD(2) [OF rest_of_SetDeviceTimezone]
      by (simp add: pending_text_def)
  next
    case (OpDrain sn)
    then show ?thesis using assms(2,3) recordPending_Some
      by (fastforce simp: pending_text_def pending_Drain fmpred_iff wire_ok_def entry_ok_def pending_of_def)
  next
    case OpWorker
    then show ?thesis using assms(3) core_eqD(3) [OF core_workerTake] by (simp add: pending_text_def)
  next
    case (OpEvict now order ids)
    then show ?thesis using assms(3)
      by (auto simp: evictStaleDevices_eq pending_text_def fmpred_iff lookup_evicted split: option.splits if_splits)
  qed (use assms None in \<open>simp_all add: pending_text_def\<close>)
qed

lemma typed_step:
  assumes "sys_inv s" "id_room s" "typed s"
  shows "typed (step mj x s)"
proof (cases "\<exists>e r. x = OpHttp e r")
  case True
  then show ?thesis using types.P_ServeHTTP [OF assms(3)] requireSerialNumber_Inr by auto
next
  case False
  then have "committed (step mj x s) = committed s" "pending_text (step mj x s)"
    using assms(3) by (simp_all add: committed_passive pending_text_step typed_def)
  moreover have "wire_ok (step mj x s)"
    using sys_inv_step [OF assms(1,2)] by (simp add: sys_inv_def cmd_inv_def)
  ultimately show ?thesis using assms(3) by (simp add: typed_def)
qed

lemma typed_run:
  assumes "length xs < 9223372036854775808"
  shows "typed (run_ops mj xs (NewADMSServer l opts))"
proof -
  have "committed (NewADMSServer l opts) = []"
    using pristine_New [of l opts] by (simp add: committed_def pristine_def)
  then have "typed (NewADMSServer l opts)"
    using pristine_New [of l opts] by (simp add: typed_def wire_ok_def pending_text_def pristine_def queueOf_def)
  then show ?thesis
    using new_histories [of "\<lambda>_. True" "\<lambda>_ _. typed", OF typed_step assms] by (simp add: list_all_iff)
qed

subsection \<open>Confirmations and the commands they confirm\<close>

text \<open>The commands a list of events reports as confirmed: a result that carries a queued command, under
  its ID.\<close>

fun confirmedBy :: "event \<Rightarrow> CommandEntry list" where
  "confirmedBy (CommandResultEv r) =
     (if QueuedCommand r = [] then [] else [\<lparr>ce_ID = cr_ID r, ce_Command = QueuedCommand r\<rparr>])"
| "confirmedBy _ = []"

definition confirmed :: "event list \<Rightarrow> CommandEntry list" where
  "confirmed evs = concat (map confirmedBy evs)"

lemma confirmed_simps [simp]:
  "confirmed [] = []" "confirmed (evs @ evs') = confirmed evs @ confirmed evs'"
  by (simp_all add: confirmed_def)

text \<open>An ID that is used up: taken, and neither waiting nor pending.\<close>

definition spent :: "ADMSServer \<Rightarrow> 64 word \<Rightarrow> bool" where
  "spent s i \<longleftrightarrow> i \<le> cmdID s \<and> fmlookup (pendingCommands s) i = None \<and> (\<forall>k. i \<notin> ce_ID ` set (queueOf k s))"

lemma spent_step:
  assumes "sys_inv s" "id_room s" "spent s i"
  shows "spent (step mj x s) i"
proof -
  have less: "cmdID s < cmdID s + 1" using id_room_less [OF assms(2)] by simp
  have "i \<le> cmdID (step mj x s)"
    using assms(3) cmdID_step [of mj x s] less by (auto simp: spent_def)
  moreover have "fmlookup (pendingCommands (step mj x s)) i = None \<and> (\<forall>k. i \<notin> ce_ID ` set (queueOf k (step mj x s)))"
    using assms(1)
  proof (cases rule: step_cases [of s mj x])
    case (accept sn e)
    then show ?thesis using assms(3) less by (auto simp: spent_def)
  next
    case keep
    then show ?thesis using assms(3)
      by (auto simp: spent_def queueOf_kept [OF keep(3)] kept_def fmsubset_alt_def fmpred_iff
          option.set_map) (metis not_None_eq)
  next
    case (hand sn)
    then show ?thesis using assms(3)
      by (auto simp: spent_def queueOf_drained [OF hand(3)] drained_to_def recordPending_other)
  next
    case evict
    have "queueOf k (step mj x s) \<in> {queueOf k s, []}" for k using evict(4) [of k] by simp
    then have "i \<notin> ce_ID ` set (queueOf k (step mj x s))" for k
      using assms(3) by (metis empty_iff image_empty insertE list.set(1) singletonD spent_def)
    then show ?thesis using assms(3) evict(5)
      by (auto simp: spent_def fmsubset_alt_def fmpred_iff) (metis not_None_eq)
  qed
  ultimately show ?thesis by (simp add: spent_def)
qed

text \<open>What the parts of a handler keep, for a set of commands that holds everything waiting or pending.\<close>

definition confirm_ok :: "(string \<times> CommandEntry) set \<Rightarrow> ADMSServer \<Rightarrow> bool" where
  "confirm_ok S s \<longleftrightarrow>
     distinct (map ce_ID (confirmed (committed s)))
     \<and> (\<forall>e \<in> set (confirmed (committed s)). spent s (ce_ID e) \<and> (\<exists>sn. (sn, e) \<in> S))"

definition known_to :: "(string \<times> CommandEntry) set \<Rightarrow> ADMSServer \<Rightarrow> bool" where
  "known_to S s \<longleftrightarrow>
     sys_inv s
     \<and> fmpred (\<lambda>i p. (pe_sn p, \<lparr>ce_ID = i, ce_Command = pe_cmd p\<rparr>) \<in> S) (pendingCommands s)
     \<and> (\<forall>k. \<forall>e \<in> set (queueOf k s). (k, e) \<in> S)
     \<and> confirm_ok S s"

lemma spent_cong:
  "cmdID t = cmdID s \<Longrightarrow> pendingCommands t = pendingCommands s \<Longrightarrow> commandQueue t = commandQueue s
    \<Longrightarrow> spent t = spent s"
  by (rule ext) (simp add: spent_def queueOf_def)

lemma confirm_ok_cong:
  "confirmed (committed t) = confirmed (committed s) \<Longrightarrow> cmdID t = cmdID s
    \<Longrightarrow> pendingCommands t = pendingCommands s \<Longrightarrow> commandQueue t = commandQueue s
    \<Longrightarrow> confirm_ok S t = confirm_ok S s"
  using spent_cong [of t s] by (simp add: confirm_ok_def)

lemma known_to_cong:
  "sys_inv t = sys_inv s \<Longrightarrow> confirmed (committed t) = confirmed (committed s) \<Longrightarrow> cmdID t = cmdID s
    \<Longrightarrow> pendingCommands t = pendingCommands s \<Longrightarrow> commandQueue t = commandQueue s
    \<Longrightarrow> known_to S t = known_to S s"
  using confirm_ok_cong [of t s S] by (simp add: known_to_def queueOf_def)

lemma known_to_rest: "known_to S s \<Longrightarrow> rest_of t = rest_of s \<Longrightarrow> sys_inv t \<Longrightarrow> known_to S t"
  using known_to_cong [of t s S] committed_rest [of t s] rest_of_eqD(1-3) [of t s]
  by (simp add: known_to_def)

lemma known_to_core:
  "known_to S s \<Longrightarrow> core t = core s \<Longrightarrow> confirmed (committed t) = confirmed (committed s) \<Longrightarrow> sys_inv t
    \<Longrightarrow> known_to S t"
  using known_to_cong [of t s S] core_eqD(2-4) [of t s] by (simp add: known_to_def)

text \<open>Only results carry queued commands.\<close>

lemma confirmed_no_result:
  "\<nexists>r. q = CommandResultCall r \<Longrightarrow> confirmed (eventsOf s q) = []"
  by (cases q) (auto simp: confirmed_def)

lemma confirm_ok_Drain:
  assumes "confirm_ok S s"
  shows "confirm_ok S (snd (DrainCommands sn s))"
proof -
  have "spent (snd (DrainCommands sn s)) i" if "spent s i" for i
    using that by (auto simp: spent_def queueOf_Drain pending_Drain recordPending_other) 
      (simp add: DrainCommands_def Let_def)
  then show ?thesis using assms by (auto simp: confirm_ok_def)
qed

lemma known_to_Drain:
  assumes "known_to S s"
  shows "known_to S (snd (DrainCommands sn s))"
proof -
  have "fmpred (\<lambda>i p. (pe_sn p, \<lparr>ce_ID = i, ce_Command = pe_cmd p\<rparr>) \<in> S)
      (pendingCommands (snd (DrainCommands sn s)))"
    using assms unfolding pending_Drain
    by (intro fmpred_recordPending) (auto simp: known_to_def pending_of_def)
  then show ?thesis
    using assms by (auto simp: known_to_def sys_inv_DrainCommands confirm_ok_Drain queueOf_Drain)
qed

text \<open>One iteration of the loop: the result that is committed, if any, has the command pending under its
  ID, which is used up from then on.\<close>

lemma spent_confirm: "spent s i \<Longrightarrow> spent (s\<lparr>pendingCommands := fmdrop j (pendingCommands s)\<rparr>) i"
  by (simp add: spent_def)

lemma spent_pending:
  assumes "ids_ok s" "fmlookup (pendingCommands s) i = Some p"
  shows "spent (s\<lparr>pendingCommands := fmdrop i (pendingCommands s)\<rparr>) i"
  using ids_okD(4) [OF assms(1,2)] ids_okD(2) [OF assms(1)] assms(2) by (fastforce simp: spent_def)

lemma known_to_confirm:
  assumes "known_to S s" "core t = core s" "committed t = committed s @ resultEvents s [withQueued r s]"
    "QueuedCommand r = []" "sys_inv t"
  shows "known_to S (t\<lparr>pendingCommands := fmdrop (cr_ID r) (pendingCommands t)\<rparr>)" (is "known_to S ?t")
proof -
  let ?s = "s\<lparr>pendingCommands := fmdrop (cr_ID r) (pendingCommands s)\<rparr>"
  note same = core_eqD(2-4) [OF assms(2)]
  have old: "\<forall>e \<in> set (confirmed (committed s)). spent s (ce_ID e) \<and> (\<exists>sn. (sn, e) \<in> S)"
    "distinct (map ce_ID (confirmed (committed s)))" "ids_ok s"
    "fmpred (\<lambda>i p. (pe_sn p, \<lparr>ce_ID = i, ce_Command = pe_cmd p\<rparr>) \<in> S) (pendingCommands s)"
    using assms(1) by (simp_all add: known_to_def confirm_ok_def sys_inv_def cmd_inv_def)
  have sp: "spent ?t = spent ?s" using same by (intro spent_cong) simp_all
  have "confirmed (resultEvents s [withQueued r s]) = []
      \<or> (\<exists>p. fmlookup (pendingCommands s) (cr_ID r) = Some p
           \<and> confirmed (resultEvents s [withQueued r s]) = [\<lparr>ce_ID = cr_ID r, ce_Command = pe_cmd p\<rparr>])"
    by (auto simp: resultEvents_def withQueued_def confirmed_def assms(4) split: option.split)
  then have "confirm_ok S ?t"
  proof (elim disjE exE conjE)
    assume none: "confirmed (resultEvents s [withQueued r s]) = []"
    then show ?thesis using old by (auto simp: confirm_ok_def assms(3) sp spent_confirm)
  next
    fix p
    assume one: "fmlookup (pendingCommands s) (cr_ID r) = Some p"
      "confirmed (resultEvents s [withQueued r s]) = [\<lparr>ce_ID = cr_ID r, ce_Command = pe_cmd p\<rparr>]"
    have "cr_ID r \<notin> ce_ID ` set (confirmed (committed s))"
      using old(1) one(1) by (auto simp: spent_def)
    moreover have "(pe_sn p, \<lparr>ce_ID = cr_ID r, ce_Command = pe_cmd p\<rparr>) \<in> S"
      using old(4) one(1) by (simp add: fmpred_iff)
    ultimately show ?thesis
      using old one spent_pending [OF old(3) one(1)]
      by (auto simp: confirm_ok_def assms(3) sp spent_confirm)
  qed
  moreover have "sys_inv ?t" by (rule sys_inv_confirm [OF assms(5)])
  ultimately show ?thesis
    using assms(1) same by (auto simp: known_to_def queueOf_def fmpred_iff)
qed

lemma sys_inv_dispatched: "sys_inv s \<Longrightarrow> sys_inv (snd (dispatchCommandResult e r s))"
  by (simp add: dispatchCommandResult_def sys_inv_dispatchCallback)

lemma known_to_result:
  assumes "known_to S s" "r \<in> set (parseCommandResults body sn)"
  shows "known_to S (snd (confirmLoop sch k [r] s))"
proof -
  obtain ok t where d: "dispatchCommandResult (sch k) (withQueued r s) s = (ok, t)"
    by (cases "dispatchCommandResult (sch k) (withQueued r s) s")
  have inv: "sys_inv t" using sys_inv_dispatched [of s "sch k" "withQueued r s"] d assms(1)
    by (simp add: known_to_def)
  have q: "QueuedCommand r = []" using parseCommandResults_wf [OF assms(2)] by (simp add: result_wf_def)
  note spec = dispatchCommandResult_spec [OF d]
  show ?thesis
  proof (cases ok)
    case True
    then show ?thesis using known_to_confirm [OF assms(1) spec(2) _ q inv] spec(1) d by simp
  next
    case False
    then show ?thesis using known_to_core [OF assms(1) spec(2) _ inv] spec(1) d by simp
  qed
qed

lemma known_to_inv: "known_to S s \<Longrightarrow> sys_inv s"
  by (simp add: known_to_def)

interpretation confirms: handler_steps "known_to S" "\<lambda>_. True" for S
proof unfold_locales
  show "known_to S (snd (RegisterDevice now sn [] s))" if "known_to S s" for s now sn
    by (intro known_to_rest [OF that rest_of_RegisterDevice] sys_inv_RegisterDevice known_to_inv [OF that]) simp
  show "known_to S (updateDeviceActivity now sn s)" if "known_to S s" for s now sn
    by (intro known_to_rest [OF that rest_of_updateDeviceActivity] sys_inv_updateDeviceActivity known_to_inv [OF that])
  show "known_to S (copyOptions sn info s)" if "known_to S s" for s sn info
    by (intro known_to_rest [OF that rest_of_copyOptions] sys_inv_copyOptions known_to_inv [OF that])
  show "known_to S (snd (dispatchCallback e q s))"
    if "\<nexists>r. q = CommandResultCall r" "known_to S s" for s sn e q
    by (intro known_to_core [OF that(2) core_dispatchCallback] sys_inv_dispatchCallback known_to_inv [OF that(2)])
      (simp add: committed_dispatchCallback confirmed_no_result [OF that(1)])
qed (blast intro: known_to_Drain known_to_result)+

text \<open>The parts of a run: what was handed over, and what waits.\<close>

definition waiting :: "ADMSServer \<Rightarrow> (string \<times> CommandEntry) set" where
  "waiting s = {(k, e). e \<in> set (queueOf k s)}"

lemma confirm_ok_step:
  assumes "sys_inv s" "id_room s" "delivery_ok A H s" "confirm_ok (set H) s"
  shows "confirm_ok (set (H @ handedBy mj x s)) (step mj x s)"
proof (cases "\<exists>e r. x = OpHttp e r")
  case False
  then show ?thesis
    using assms(4) spent_step [OF assms(1,2)] committed_passive [of x mj s] by (auto simp: confirm_ok_def)
next
  case True
  then obtain e r where x: "x = OpHttp e r" by blast
  let ?t = "step mj x s"
  have "known_to (set H \<union> waiting s) s"
    using assms by (auto simp: known_to_def waiting_def delivery_ok_def confirm_ok_def fmpred_iff)
  then have k: "confirm_ok (set H \<union> waiting s) ?t"
    using confirms.P_ServeHTTP [of "set H \<union> waiting s" s r mj e] by (simp add: x known_to_def)
  have "\<exists>sn. (sn, c) \<in> set (H @ handedBy mj x s)" if c: "c \<in> set (confirmed (committed ?t))" for c
  proof -
    obtain sn where sn: "(sn, c) \<in> set H \<union> waiting s" and sp: "spent ?t (ce_ID c)"
      using k c by (auto simp: confirm_ok_def)
    have gone: "(k, c) \<notin> waiting ?t" for k
      using sp by (auto simp: spent_def waiting_def)
    from sn show ?thesis
    proof
      assume w: "(sn, c) \<in> waiting s"
      have "wire_ok s" using assms(1) by (simp add: sys_inv_def cmd_inv_def)
      moreover have "sendTarget x = None" "\<not> evicts x" by (simp_all add: x)
      ultimately show ?thesis
        using passive_step [of s x mj] w gone [of sn]
        by (auto simp: waiting_def queueOf_kept queueOf_drained split: if_splits) (blast intro: imageI)
    qed auto
  qed
  with k show ?thesis by (simp add: confirm_ok_def)
qed

subsection \<open>Properties\<close>

text \<open>C4 Whatever devices send and callers do, a user callback is only ever called with an argument of the
  type \<open>event_wf\<close>: the serial number is valid; integers are within 64 bits; the user ID of an attendance
  record is trimmed and not empty, and it and the work code are one cell; a user has a PIN, and its PIN,
  name, card and password are trimmed cells; the keys and values of device information are trimmed lines;
  those of a registry have no commas, and the values no blanks around them; the command a result names is
  one line, and so is the command that was queued.  A registry's keys and values are not lines: they may
  hold line breaks.\<close>

theorem callbacks_typed:
  assumes "length xs < 9223372036854775808"
  shows "list_all event_wf (committed (run_ops mj xs (NewADMSServer l opts)))
    \<and> list_all event_wf (cbLog (run_ops mj xs (NewADMSServer l opts)))"
  using typed_run [OF assms] by (simp add: typed_def committed_def)

text \<open>C3 Over any run in which requests are handled one after another, no command is reported to the
  callback as confirmed twice, and every command that is reported was handed over before, under the same ID
  and with the same text.\<close>

theorem confirmed_once:
  assumes "length xs < 9223372036854775808"
  shows "distinct (map ce_ID (confirmed (committed (run_ops mj xs (NewADMSServer l opts)))))
    \<and> set (confirmed (committed (run_ops mj xs (NewADMSServer l opts))))
        \<subseteq> snd ` set (handedIn mj xs (NewADMSServer l opts))"
proof -
  let ?ok = "\<lambda>A H s. delivery_ok A H s \<and> confirm_ok (set H) s"
  have "committed (NewADMSServer l opts) = []"
    using pristine_New [of l opts] by (simp add: committed_def pristine_def)
  then have "?ok [] [] (NewADMSServer l opts)"
    using delivery_new(1) by (simp add: confirm_ok_def)
  note start = this
  have "?ok (A @ acceptedBy mj x s) (H @ handedBy mj x s) (step mj x s)"
    if "sys_inv s" "id_room s" "?ok A H s" for A H x s
    using that delivery_step [OF that(1,2)] confirm_ok_step [OF that(1,2)] by blast
  then have "confirm_ok (set (handedIn mj xs (NewADMSServer l opts))) (run_ops mj xs (NewADMSServer l opts))"
    using start by (intro new_histories [of "\<lambda>_. True" ?ok, OF _ assms, THEN conjunct2]) (auto simp: list_all_iff)
  then show ?thesis by (force simp: confirm_ok_def)
qed

text \<open>A device that reads a command and confirms it twice.\<close>

definition demoConfirm :: request where
  "demoConfirm = \<lparr>rq_method = ''POST'', rq_path = routeDeviceCmd, rq_query = ''SN=A'',
     rq_body = Body ''ID=1&Return=0&CMD=INFO''\<rparr>"

definition demoHistory :: "op list" where
  "demoHistory = [OpRegister 0 ''A'' [], OpQueue ''A'' ''INFO'', OpHttp demoEnv demoPoll,
     OpHttp demoEnv demoConfirm, OpHttp demoEnv demoConfirm, OpWorker]"

definition demoOptions :: "server_option list" where
  "demoOptions = [OptOnCommandResult (Some (\<lambda>_ _. Panicked))]"

lemma demo_history:
  "confirmed (committed (run_ops (\<lambda>_ _ _. None) demoHistory (NewADMSServer UTC demoOptions)))
     = [\<lparr>ce_ID = 1, ce_Command = ''INFO''\<rparr>]"
  by code_simp

lemma demo_history_length: "length demoHistory < 9223372036854775808"
  by (simp add: demoHistory_def)

theorem callbacks_typed_witness:
  "list_all event_wf (committed (run_ops (\<lambda>_ _ _. None) demoHistory (NewADMSServer UTC demoOptions)))
   \<and> committed (run_ops (\<lambda>_ _ _. None) demoHistory (NewADMSServer UTC demoOptions)) \<noteq> []"
  using callbacks_typed [OF demo_history_length, of "\<lambda>_ _ _. None" UTC demoOptions] demo_history
  by (auto simp: confirmed_def)

theorem confirmed_once_witness:
  "\<lparr>ce_ID = 1, ce_Command = ''INFO''\<rparr> \<in>
     snd ` set (handedIn (\<lambda>_ _ _. None) demoHistory (NewADMSServer UTC demoOptions))"
  using confirmed_once [OF demo_history_length, of "\<lambda>_ _ _. None" UTC demoOptions] demo_history by simp

end
