(* ===== verification/Adms_Races.thy ===== *)
theory Adms_Races
  imports Adms_Handlers
begin

section \<open>Concurrent calls (\<open>command.go\<close> and \<open>adms.go\<close> at their locks)\<close>

text \<open>
  \<open>QueueCommand\<close> tests the device under \<open>devicesMutex\<close>, takes an ID by an atomic addition and
  appends under \<open>queueMutex\<close>; an eviction deletes devices under the first lock and their queues
  under the second.  Here any number of such calls run at once, an eviction runs beside them, and the
  critical sections of everything else (registrations, activity updates, polls, confirmations,
  dispatches, the callback worker) come in between in any order.
\<close>

subsection \<open>Sections and steps\<close>

text \<open>A call of \<open>QueueCommand\<close>: not begun, past the test of the device, with its ID, returned.\<close>

datatype caller =
    QIdle string string
  | QChecked string string
  | QNumbered string string "64 word"
  | QDone "64 word" "adms_error option"

text \<open>The eviction worker: between evictions, or between the two phases of one.\<close>

datatype sweep = VIdle | VPhase2 "string list"

record race =
  rc_server :: ADMSServer
  rc_calls :: "caller list"
  rc_sweep :: sweep

definition race_start :: "ADMSServer \<Rightarrow> (string \<times> string) list \<Rightarrow> race" where
  "race_start s calls =
     \<lparr>rc_server = s, rc_calls = map (\<lambda>(sn, c). QIdle sn c) calls, rc_sweep = VIdle\<rparr>"

text \<open>The critical sections the handlers and the other calls are made of.\<close>

inductive part :: "ADMSServer \<Rightarrow> ADMSServer \<Rightarrow> bool" where
  part_register: "part s (snd (RegisterDevice now sn opts s))"
| part_timezone: "part s (snd (SetDeviceTimezone sn loc s))"
| part_touch: "part s (updateDeviceActivity now sn s)"
| part_options: "part s (copyOptions sn info s)"
| part_dispatch: "part s (snd (dispatchCallback e q s))"
| part_worker: "part s (workerTake s)"
| part_drain: "part s (snd (DrainCommands sn s))"
| part_confirm: "part s (s\<lparr>pendingCommands := fmdrop i (pendingCommands s)\<rparr>)"

abbreviation call_to :: "nat \<Rightarrow> caller \<Rightarrow> race \<Rightarrow> race" where
  "call_to k c r \<equiv> r\<lparr>rc_calls := (rc_calls r)[k := c]\<rparr>"

inductive race_step :: "race \<Rightarrow> race \<Rightarrow> bool" where
  refused: "k < length (rc_calls r) \<Longrightarrow> rc_calls r ! k = QIdle sn c
    \<Longrightarrow> validateCommandField ''command'' c = Some err \<Longrightarrow> race_step r (call_to k (QDone 0 (Some err)) r)"
| unknown: "k < length (rc_calls r) \<Longrightarrow> rc_calls r ! k = QIdle sn c
    \<Longrightarrow> validateCommandField ''command'' c = None \<Longrightarrow> fmlookup (devices (rc_server r)) sn = None
    \<Longrightarrow> race_step r (call_to k (QDone 0 (Some ErrDeviceNotFound)) r)"
| known: "k < length (rc_calls r) \<Longrightarrow> rc_calls r ! k = QIdle sn c
    \<Longrightarrow> validateCommandField ''command'' c = None \<Longrightarrow> fmlookup (devices (rc_server r)) sn \<noteq> None
    \<Longrightarrow> race_step r (call_to k (QChecked sn c) r)"
| number: "k < length (rc_calls r) \<Longrightarrow> rc_calls r ! k = QChecked sn c \<Longrightarrow> takeID (rc_server r) = (i, t)
    \<Longrightarrow> race_step r (call_to k (QNumbered sn c i) (r\<lparr>rc_server := t\<rparr>))"
| append: "k < length (rc_calls r) \<Longrightarrow> rc_calls r ! k = QNumbered sn c i
    \<Longrightarrow> enqueueLocked sn c i (rc_server r) = (j, err, t)
    \<Longrightarrow> race_step r (call_to k (QDone j err) (r\<lparr>rc_server := t\<rparr>))"
| sweep1: "rc_sweep r = VIdle \<Longrightarrow> iteration order (devices (rc_server r))
    \<Longrightarrow> evictPhase1 now order (rc_server r) = (stale, t)
    \<Longrightarrow> race_step r (r\<lparr>rc_server := t, rc_sweep := (if stale = [] then VIdle else VPhase2 stale)\<rparr>)"
| sweep2: "rc_sweep r = VPhase2 stale \<Longrightarrow> iteration ids (pendingCommands (rc_server r))
    \<Longrightarrow> race_step r (r\<lparr>rc_server := evictPhase2 stale ids (rc_server r), rc_sweep := VIdle\<rparr>)"
| other: "part (rc_server r) t \<Longrightarrow> race_step r (r\<lparr>rc_server := t\<rparr>)"

text \<open>With the number of steps made so far.\<close>

definition race_init :: "nat \<times> race \<Rightarrow> bool" where
  "race_init nr \<longleftrightarrow> (\<exists>l opts calls. nr = (0, race_start (NewADMSServer l opts) calls))"

definition race_count :: "nat \<times> race \<Rightarrow> nat \<times> race \<Rightarrow> bool" where
  "race_count nr nr' \<longleftrightarrow> race_step (snd nr) (snd nr') \<and> fst nr' = Suc (fst nr)"

abbreviation race_reach :: "nat \<times> race \<Rightarrow> bool" where
  "race_reach \<equiv> reach race_init race_count"

subsection \<open>The invariant\<close>

text \<open>The IDs taken so far by the calls, and what is true of the IDs in queues, in the pending map and
  in the hands of calls: they differ.\<close>

fun issued :: "caller \<Rightarrow> 64 word option" where
  "issued (QNumbered _ _ i) = Some i"
| "issued (QDone i None) = Some i"
| "issued _ = None"

fun clean_call :: "caller \<Rightarrow> bool" where
  "clean_call (QChecked _ c) = (CR \<notin> set c \<and> NL \<notin> set c)"
| "clean_call (QNumbered _ c _) = (CR \<notin> set c \<and> NL \<notin> set c)"
| "clean_call _ = True"

definition unplaced :: "64 word \<Rightarrow> ADMSServer \<Rightarrow> bool" where
  "unplaced i s \<longleftrightarrow> fmlookup (pendingCommands s) i = None \<and> (\<forall>sn. i \<notin> ce_ID ` set (queueOf sn s))"

definition placed_ok :: "ADMSServer \<Rightarrow> bool" where
  "placed_ok s \<longleftrightarrow>
     (\<forall>sn. distinct (map ce_ID (queueOf sn s)))
     \<and> (\<forall>sn. \<forall>e \<in> set (queueOf sn s). 0 < ce_ID e \<and> ce_ID e \<le> cmdID s
          \<and> fmlookup (pendingCommands s) (ce_ID e) = None)
     \<and> (\<forall>sn sn'. \<forall>e \<in> set (queueOf sn s). \<forall>e' \<in> set (queueOf sn' s). ce_ID e = ce_ID e' \<longrightarrow> sn = sn')
     \<and> fmpred (\<lambda>i _. 0 < i \<and> i \<le> cmdID s) (pendingCommands s)
     \<and> wire_ok s \<and> limit_ok s"

definition calls_ok :: "caller list \<Rightarrow> ADMSServer \<Rightarrow> bool" where
  "calls_ok cs s \<longleftrightarrow>
     list_all clean_call cs
     \<and> (\<forall>c \<in> set cs. \<forall>i. issued c = Some i \<longrightarrow> 0 < i \<and> i \<le> cmdID s)
     \<and> (\<forall>k < length cs. \<forall>k' < length cs. issued (cs ! k) \<noteq> None \<longrightarrow> issued (cs ! k) = issued (cs ! k') \<longrightarrow> k = k')
     \<and> (\<forall>sn c i. QNumbered sn c i \<in> set cs \<longrightarrow> unplaced i s)"

definition race_inv :: "race \<Rightarrow> bool" where
  "race_inv r \<longleftrightarrow> placed_ok (rc_server r) \<and> calls_ok (rc_calls r) (rc_server r)"

lemma placed_okD:
  assumes "placed_ok s"
  shows "distinct (map ce_ID (queueOf sn s))"
    and "e \<in> set (queueOf sn s) \<Longrightarrow>
      0 < ce_ID e \<and> ce_ID e \<le> cmdID s \<and> fmlookup (pendingCommands s) (ce_ID e) = None"
    and "e \<in> set (queueOf sn s) \<Longrightarrow> e' \<in> set (queueOf sn' s) \<Longrightarrow> ce_ID e = ce_ID e' \<Longrightarrow> sn = sn'"
    and "fmlookup (pendingCommands s) i = Some p \<Longrightarrow> 0 < i \<and> i \<le> cmdID s"
    and "wire_ok s" and "limit_ok s"
  using assms unfolding placed_ok_def fmpred_iff by blast+

lemma placed_okI:
  assumes "\<And>sn. distinct (map ce_ID (queueOf sn s))"
    and "\<And>sn e. e \<in> set (queueOf sn s) \<Longrightarrow>
      0 < ce_ID e \<and> ce_ID e \<le> cmdID s \<and> fmlookup (pendingCommands s) (ce_ID e) = None"
    and "\<And>sn sn' e e'. e \<in> set (queueOf sn s) \<Longrightarrow> e' \<in> set (queueOf sn' s) \<Longrightarrow> ce_ID e = ce_ID e'
      \<Longrightarrow> sn = sn'"
    and "\<And>i p. fmlookup (pendingCommands s) i = Some p \<Longrightarrow> 0 < i \<and> i \<le> cmdID s"
    and "wire_ok s" and "limit_ok s"
  shows "placed_ok s"
  using assms unfolding placed_ok_def fmpred_iff by blast

subsubsection \<open>Sections that drop queues or pending commands, or touch neither\<close>

definition shrinks :: "ADMSServer \<Rightarrow> ADMSServer \<Rightarrow> bool" where
  "shrinks s t \<longleftrightarrow> (\<forall>sn. queueOf sn t = queueOf sn s \<or> queueOf sn t = [])
     \<and> (\<forall>i e. fmlookup (pendingCommands t) i = Some e \<longrightarrow> fmlookup (pendingCommands s) i = Some e)
     \<and> cmdID t = cmdID s \<and> maxCommandsPerDevice t = maxCommandsPerDevice s"

lemma shrinks_same:
  assumes "commandQueue t = commandQueue s" "pendingCommands t = pendingCommands s"
    "cmdID t = cmdID s" "maxCommandsPerDevice t = maxCommandsPerDevice s"
  shows "shrinks s t"
  using assms queueOf_cong [OF assms(1)] by (simp add: shrinks_def)

lemma shrinks_rest: "rest_of t = rest_of s \<Longrightarrow> shrinks s t"
  using rest_of_eqD [of t s] by (intro shrinks_same) simp_all

lemma shrinks_core: "core t = core s \<Longrightarrow> shrinks s t"
  using core_eqD [of t s] by (intro shrinks_same) simp_all

lemma shrinks_confirm: "shrinks s (s\<lparr>pendingCommands := fmdrop i (pendingCommands s)\<rparr>)"
  by (simp add: shrinks_def)

lemma shrinks_phase2: "shrinks s (evictPhase2 stale ids s)"
  by (simp add: shrinks_def evictPhase2_def queueOf_def fmlookup_dropQueues fmlookup_dropPending)

lemma shrinks_none: "shrinks s t \<Longrightarrow> fmlookup (pendingCommands s) i = None \<Longrightarrow> fmlookup (pendingCommands t) i = None"
  unfolding shrinks_def by (metis not_None_eq)

lemma shrinks_mem: "shrinks s t \<Longrightarrow> e \<in> set (queueOf sn t) \<Longrightarrow> e \<in> set (queueOf sn s)"
  unfolding shrinks_def by (metis empty_iff list.set(1))

lemma unplaced_shrinks: "shrinks s t \<Longrightarrow> unplaced i s \<Longrightarrow> unplaced i t"
  by (auto simp: unplaced_def shrinks_none dest: shrinks_mem)

lemma limit_ok_shrinks:
  assumes "shrinks s t" "limit_ok s"
  shows "limit_ok t"
  unfolding limit_ok_def
proof (intro impI allI)
  fix sn assume "0 < maxCommandsPerDevice t"
  then have "int (outstanding sn s) \<le> maxCommandsPerDevice t"
    using assms by (simp add: shrinks_def limit_ok_def)
  moreover have "pendingCountLocked sn t \<le> pendingCountLocked sn s"
    unfolding pendingCountLocked_def using assms(1) by (intro fmcount_mono) (simp add: shrinks_def)
  moreover have "length (queueOf sn t) \<le> length (queueOf sn s)"
    using assms(1) unfolding shrinks_def by (metis le0 le_refl list.size(3))
  ultimately show "int (outstanding sn t) \<le> maxCommandsPerDevice t"
    by (simp add: outstanding_def)
qed

lemma placed_shrinks:
  assumes "shrinks s t" "placed_ok s"
  shows "placed_ok t"
proof (rule placed_okI)
  note ok = placed_okD [OF assms(2)] and mem = shrinks_mem [OF assms(1)]
  have same: "cmdID t = cmdID s" using assms(1) by (simp add: shrinks_def)
  fix sn sn' e e' i p
  show "distinct (map ce_ID (queueOf sn t))"
    using ok(1) assms(1) unfolding shrinks_def by (metis distinct.simps(1) list.simps(8))
  show "0 < ce_ID e \<and> ce_ID e \<le> cmdID t \<and> fmlookup (pendingCommands t) (ce_ID e) = None"
    if "e \<in> set (queueOf sn t)"
    using ok(2) [OF mem [OF that]] shrinks_none [OF assms(1)] by (simp add: same)
  show "sn = sn'" if "e \<in> set (queueOf sn t)" "e' \<in> set (queueOf sn' t)" "ce_ID e = ce_ID e'"
    using ok(3) [OF mem [OF that(1)] mem [OF that(2)] that(3)] .
  show "0 < i \<and> i \<le> cmdID t" if "fmlookup (pendingCommands t) i = Some p"
    using ok(4) that assms(1) by (auto simp: same shrinks_def)
  show "wire_ok t" using ok(5) mem by (auto simp: wire_ok_def)
  show "limit_ok t" by (rule limit_ok_shrinks [OF assms(1) ok(6)])
qed

subsubsection \<open>Polls, IDs, and the append\<close>

lemma drain_fields:
  "cmdID (snd (DrainCommands sn s)) = cmdID s"
  "maxCommandsPerDevice (snd (DrainCommands sn s)) = maxCommandsPerDevice s"
  "pendingCommands (snd (DrainCommands sn s)) = recordPending sn (queueOf sn s) (pendingCommands s)"
  by (simp_all add: DrainCommands_def Let_def)

lemma unplaced_drain: "unplaced i s \<Longrightarrow> unplaced i (snd (DrainCommands sn s))"
  by (auto simp: unplaced_def queueOf_Drain drain_fields recordPending_other)

lemma placed_drain:
  assumes "placed_ok s"
  shows "placed_ok (snd (DrainCommands sn s))" (is "placed_ok ?t")
proof (rule placed_okI)
  note ok = placed_okD [OF assms]
  have mem: "sn' \<noteq> sn \<and> e \<in> set (queueOf sn' s)" if "e \<in> set (queueOf sn' ?t)" for e sn'
    using that by (simp add: queueOf_Drain split: if_splits)
  fix sn' sn'' e e' i p
  show "distinct (map ce_ID (queueOf sn' ?t))" using ok(1) by (simp add: queueOf_Drain)
  show "0 < ce_ID e \<and> ce_ID e \<le> cmdID ?t \<and> fmlookup (pendingCommands ?t) (ce_ID e) = None"
    if "e \<in> set (queueOf sn' ?t)"
  proof -
    have "ce_ID e \<notin> ce_ID ` set (queueOf sn s)" using mem [OF that] ok(3) [of e sn' _ sn] by blast
    then show ?thesis using mem [OF that] ok(2) [of e sn'] by (simp add: drain_fields recordPending_other)
  qed
  show "sn' = sn''" if "e \<in> set (queueOf sn' ?t)" "e' \<in> set (queueOf sn'' ?t)" "ce_ID e = ce_ID e'"
    using mem [OF that(1)] mem [OF that(2)] that(3) ok(3) by blast
  show "0 < i \<and> i \<le> cmdID ?t" if "fmlookup (pendingCommands ?t) i = Some p"
    using recordPending_Some [OF that [unfolded drain_fields]] ok(2,4) by (auto simp: drain_fields)
  show "wire_ok ?t" using ok(5) by (auto simp: wire_ok_def queueOf_Drain)
  have "fmcount (\<lambda>p. pe_sn p = k) (recordPending sn (queueOf sn s) (pendingCommands s))
      = fmcount (\<lambda>p. pe_sn p = k) (pendingCommands s) + (if sn = k then length (queueOf sn s) else 0)" for k
    using ok(1,2) by (intro fmcount_recordPending) auto
  then have "outstanding k ?t = outstanding k s" for k
    by (simp add: outstanding_def pendingCountLocked_def queueOf_Drain drain_fields)
  then show "limit_ok ?t" using ok(6) by (simp add: limit_ok_def drain_fields)
qed

lemma queueOf_take [simp]: "queueOf sn (s\<lparr>cmdID := j, commandQueue := commandQueue s\<rparr>) = queueOf sn s"
  by (simp add: queueOf_def)

lemma placed_take:
  assumes "placed_ok s" "id_room s"
  shows "placed_ok (s\<lparr>cmdID := cmdID s + 1\<rparr>) \<and> unplaced (cmdID s + 1) s"
proof -
  note ok = placed_okD [OF assms(1)] and less = id_room_less [OF assms(2)]
  have "wire_ok (s\<lparr>cmdID := cmdID s + 1\<rparr>)" using ok(5) by (simp add: wire_ok_def)
  moreover have "limit_ok (s\<lparr>cmdID := cmdID s + 1\<rparr>)"
    using ok(6) by (simp add: limit_ok_def outstanding_def pendingCountLocked_def)
  moreover have "0 < ce_ID e \<and> ce_ID e \<le> cmdID s + 1" if "e \<in> set (queueOf sn s)" for e sn
    using ok(2) [OF that] less by (auto intro: less_imp_le)
  moreover have "0 < i \<and> i \<le> cmdID s + 1" if "fmlookup (pendingCommands s) i = Some p" for i p
    using ok(4) [OF that] less by (auto intro: less_imp_le)
  ultimately have "placed_ok (s\<lparr>cmdID := cmdID s + 1\<rparr>)"
    using ok(1,2,3) by (intro placed_okI) auto
  moreover have "unplaced (cmdID s + 1) s"
    unfolding unplaced_def using ok(2,4) less by (metis (no_types, lifting) imageE less_irrefl not_None_eq)
  ultimately show ?thesis by blast
qed

lemma enqueueLocked_cases:
  obtains (full) "enqueueLocked sn c i s = (0, Some ErrCommandQueueFull, s)"
  | (queued) "enqueueLocked sn c i s = (i, None, s\<lparr>commandQueue :=
        fmupd sn (queueOf sn s @ [\<lparr>ce_ID = i, ce_Command = c\<rparr>]) (commandQueue s)\<rparr>)"
      "\<not> (0 < maxCommandsPerDevice s \<and> maxCommandsPerDevice s \<le> int (outstanding sn s))"
  by (cases "0 < maxCommandsPerDevice s \<and> maxCommandsPerDevice s \<le> int (outstanding sn s)")
    (auto simp: enqueueLocked_def outstanding_def)

lemma queueOf_append:
  "queueOf sn' (s\<lparr>commandQueue := fmupd sn (queueOf sn s @ [e]) (commandQueue s)\<rparr>)
    = (if sn' = sn then queueOf sn s @ [e] else queueOf sn' s)"
  by (simp add: queueOf_def)

lemma placed_append:
  assumes "placed_ok s" "unplaced i s" "0 < i" "i \<le> cmdID s" "CR \<notin> set c" "NL \<notin> set c"
    "\<not> (0 < maxCommandsPerDevice s \<and> maxCommandsPerDevice s \<le> int (outstanding sn s))"
  shows "placed_ok (s\<lparr>commandQueue :=
      fmupd sn (queueOf sn s @ [\<lparr>ce_ID = i, ce_Command = c\<rparr>]) (commandQueue s)\<rparr>)" (is "placed_ok ?t")
proof (rule placed_okI)
  note ok = placed_okD [OF assms(1)]
  let ?e = "\<lparr>ce_ID = i, ce_Command = c\<rparr>"
  have mem: "e \<in> set (queueOf sn' s) \<or> sn' = sn \<and> e = ?e" if "e \<in> set (queueOf sn' ?t)" for e sn'
    using that by (auto simp: queueOf_append split: if_splits)
  have other: "ce_ID e \<noteq> i" if "e \<in> set (queueOf sn' s)" for e sn'
    using that assms(2) by (auto simp: unplaced_def)
  fix sn' sn'' e e' j p
  show "distinct (map ce_ID (queueOf sn' ?t))"
    using ok(1) other by (auto simp: queueOf_append)
  show "0 < ce_ID e \<and> ce_ID e \<le> cmdID ?t \<and> fmlookup (pendingCommands ?t) (ce_ID e) = None"
    if "e \<in> set (queueOf sn' ?t)"
    using mem [OF that] ok(2) assms(2-4) by (auto simp: unplaced_def)
  show "sn' = sn''" if "e \<in> set (queueOf sn' ?t)" "e' \<in> set (queueOf sn'' ?t)" "ce_ID e = ce_ID e'"
    using mem [OF that(1)] mem [OF that(2)] that(3) ok(3) [of e sn' e' sn''] by (auto dest: other)
  show "0 < j \<and> j \<le> cmdID ?t" if "fmlookup (pendingCommands ?t) j = Some p"
    using ok(4) that by simp
  show "wire_ok ?t" using ok(5) assms(5,6) by (auto simp: wire_ok_def queueOf_append entry_ok_def)
  show "limit_ok ?t"
    using ok(6) assms(7) by (auto simp: limit_ok_def outstanding_def queueOf_append pendingCountLocked_def)
qed

lemma unplaced_append:
  "unplaced j s \<Longrightarrow> j \<noteq> i \<Longrightarrow> unplaced j (s\<lparr>commandQueue :=
      fmupd sn (queueOf sn s @ [\<lparr>ce_ID = i, ce_Command = c\<rparr>]) (commandQueue s)\<rparr>)"
  by (auto simp: unplaced_def queueOf_append)

subsubsection \<open>The calls\<close>

lemma calls_okD:
  assumes "calls_ok cs s" "k < length cs"
  shows "clean_call (cs ! k)"
    and "issued (cs ! k) = Some i \<Longrightarrow> 0 < i \<and> i \<le> cmdID s"
    and "issued (cs ! k) = Some i \<Longrightarrow> k' < length cs \<Longrightarrow> issued (cs ! k') = Some i \<Longrightarrow> k = k'"
    and "cs ! k = QNumbered sn c i \<Longrightarrow> unplaced i s"
proof -
  have mem: "cs ! k \<in> set cs" using assms(2) by simp
  with assms(1) show "clean_call (cs ! k)" by (simp add: calls_ok_def list_all_iff)
  from mem assms(1) show "issued (cs ! k) = Some i \<Longrightarrow> 0 < i \<and> i \<le> cmdID s" by (simp add: calls_ok_def)
  from assms show "issued (cs ! k) = Some i \<Longrightarrow> k' < length cs \<Longrightarrow> issued (cs ! k') = Some i \<Longrightarrow> k = k'"
    by (simp add: calls_ok_def)
  from mem assms(1) show "cs ! k = QNumbered sn c i \<Longrightarrow> unplaced i s"
    unfolding calls_ok_def by metis
qed

lemma calls_okI:
  assumes "\<And>k. k < length cs \<Longrightarrow> clean_call (cs ! k)"
    and "\<And>k i. k < length cs \<Longrightarrow> issued (cs ! k) = Some i \<Longrightarrow> 0 < i \<and> i \<le> cmdID s"
    and "\<And>k k' i. k < length cs \<Longrightarrow> k' < length cs \<Longrightarrow> issued (cs ! k) = Some i \<Longrightarrow> issued (cs ! k') = Some i \<Longrightarrow> k = k'"
    and "\<And>k sn c i. k < length cs \<Longrightarrow> cs ! k = QNumbered sn c i \<Longrightarrow> unplaced i s"
  shows "calls_ok cs s"
  unfolding calls_ok_def
proof (intro conjI allI impI ballI)
  show "list_all clean_call cs" using assms(1) by (simp add: list_all_length)
  fix c i assume "c \<in> set cs" "issued c = Some i"
  then show "0 < i" "i \<le> cmdID s" using assms(2) by (auto simp: in_set_conv_nth)
next
  fix k k' assume "k < length cs" "k' < length cs" "issued (cs ! k) \<noteq> None" "issued (cs ! k) = issued (cs ! k')"
  then show "k = k'" using assms(3) by (metis not_None_eq)
next
  fix sn c i assume "QNumbered sn c i \<in> set cs"
  then show "unplaced i s" using assms(4) by (metis in_set_conv_nth)
qed

lemma calls_ok_state:
  "calls_ok cs s \<Longrightarrow> cmdID t = cmdID s \<Longrightarrow> (\<And>i. unplaced i s \<Longrightarrow> unplaced i t) \<Longrightarrow> calls_ok cs t"
  by (auto simp: calls_ok_def)

text \<open>A call moves on without a new ID and not into the numbered place.\<close>

lemma calls_ok_move:
  assumes "calls_ok cs s" "k < length cs" "clean_call c" "issued c = None \<or> issued c = issued (cs ! k)"
    "\<And>sn x i. c \<noteq> QNumbered sn x i"
  shows "calls_ok (cs[k := c]) s"
proof (rule calls_okI)
  note ok = calls_okD [OF assms(1)]
  have iss: "issued (cs[k := c] ! j) = Some i \<Longrightarrow> j < length cs \<Longrightarrow> issued (cs ! j) = Some i" for i j
    using assms(4) by (cases "j = k") auto
  fix j j' i sn x
  show "j < length (cs[k := c]) \<Longrightarrow> clean_call (cs[k := c] ! j)"
    using ok(1) assms(3) by (cases "j = k") auto
  show "j < length (cs[k := c]) \<Longrightarrow> issued (cs[k := c] ! j) = Some i \<Longrightarrow> 0 < i \<and> i \<le> cmdID s"
    using ok(2) iss by auto
  show "j < length (cs[k := c]) \<Longrightarrow> j' < length (cs[k := c]) \<Longrightarrow> issued (cs[k := c] ! j) = Some i
      \<Longrightarrow> issued (cs[k := c] ! j') = Some i \<Longrightarrow> j = j'"
    using ok(3) iss by auto
  show "j < length (cs[k := c]) \<Longrightarrow> cs[k := c] ! j = QNumbered sn x i \<Longrightarrow> unplaced i s"
    using ok(4) assms(5) by (cases "j = k") auto
qed

text \<open>A call takes the next ID.\<close>

lemma calls_ok_number:
  assumes "calls_ok cs s" "k < length cs" "CR \<notin> set c" "NL \<notin> set c" "id_room s" "unplaced (cmdID s + 1) s"
  shows "calls_ok (cs[k := QNumbered sn c (cmdID s + 1)]) (s\<lparr>cmdID := cmdID s + 1\<rparr>)"
proof (rule calls_okI)
  note ok = calls_okD [OF assms(1)] and less = id_room_less [OF assms(5)]
  let ?cs = "cs[k := QNumbered sn c (cmdID s + 1)]"
  have un: "unplaced j (s\<lparr>cmdID := cmdID s + 1\<rparr>) \<longleftrightarrow> unplaced j s" for j
    by (simp add: unplaced_def)
  have old: "i \<noteq> cmdID s + 1" if "j < length cs" "issued (cs ! j) = Some i" for i j
    using ok(2) [OF that] less by blast
  fix j j' i sn' x
  show "j < length ?cs \<Longrightarrow> clean_call (?cs ! j)" using ok(1) assms(3,4) by (cases "j = k") auto
  show "j < length ?cs \<Longrightarrow> issued (?cs ! j) = Some i \<Longrightarrow> 0 < i \<and> i \<le> cmdID (s\<lparr>cmdID := cmdID s + 1\<rparr>)"
    using ok(2) [of j i] less [of i] id_room_next [OF assms(5)] by (cases "j = k") (auto intro: less_imp_le)
  show "j < length ?cs \<Longrightarrow> j' < length ?cs \<Longrightarrow> issued (?cs ! j) = Some i \<Longrightarrow> issued (?cs ! j') = Some i \<Longrightarrow> j = j'"
    using ok(3) old assms(2) by (cases "j = k"; cases "j' = k") auto
  show "j < length ?cs \<Longrightarrow> ?cs ! j = QNumbered sn' x i \<Longrightarrow> unplaced i (s\<lparr>cmdID := cmdID s + 1\<rparr>)"
    using ok(4) [of j] assms(6) by (cases "j = k") (auto simp: un)
qed

subsubsection \<open>Every step\<close>

lemma race_inv_shrinks:
  assumes "race_inv r" "shrinks (rc_server r) t"
  shows "race_inv (r\<lparr>rc_server := t\<rparr>)" "race_inv (r\<lparr>rc_server := t, rc_sweep := v\<rparr>)"
  using assms calls_ok_state [of "rc_calls r" "rc_server r" t] unplaced_shrinks [OF assms(2)] placed_shrinks [OF assms(2)]
  by (auto simp: race_inv_def shrinks_def)

lemma race_inv_drain:
  "race_inv r \<Longrightarrow> race_inv (r\<lparr>rc_server := snd (DrainCommands sn (rc_server r))\<rparr>)"
  by (auto simp: race_inv_def placed_drain drain_fields intro: calls_ok_state unplaced_drain)

lemma shrinks_parts:
  "shrinks s (snd (RegisterDevice now sn opts s))" "shrinks s (snd (SetDeviceTimezone sn loc s))"
  "shrinks s (updateDeviceActivity now sn s)" "shrinks s (copyOptions sn info s)"
  "shrinks s (snd (dispatchCallback e q s))" "shrinks s (workerTake s)"
  by (rule shrinks_rest shrinks_core,
      simp add: rest_of_RegisterDevice rest_of_SetDeviceTimezone rest_of_updateDeviceActivity
        copyOptions_def core_dispatchCallback split: option.split)+

lemma race_inv_part:
  assumes "part (rc_server r) t" "race_inv r"
  shows "race_inv (r\<lparr>rc_server := t\<rparr>)"
  using assms
  by (cases rule: part.cases)
    (auto intro!: race_inv_drain race_inv_shrinks(1) intro: shrinks_parts shrinks_confirm)

lemma race_inv_move:
  assumes "race_inv r" "k < length (rc_calls r)" "clean_call c"
    "issued c = None" "\<And>sn x i. c \<noteq> QNumbered sn x i"
  shows "race_inv (call_to k c r)"
  using assms by (auto simp: race_inv_def intro: calls_ok_move)

lemma race_inv_number:
  assumes "race_inv r" "id_room (rc_server r)" "k < length (rc_calls r)"
    "rc_calls r ! k = QChecked sn c" "takeID (rc_server r) = (i, t)"
  shows "race_inv (call_to k (QNumbered sn c i) (r\<lparr>rc_server := t\<rparr>))"
proof -
  let ?s = "rc_server r"
  have ok: "placed_ok ?s" "calls_ok (rc_calls r) ?s" using assms(1) by (simp_all add: race_inv_def)
  have c: "CR \<notin> set c" "NL \<notin> set c" using calls_okD(1) [OF ok(2) assms(3)] assms(4) by simp_all
  have t: "i = cmdID ?s + 1" "t = ?s\<lparr>cmdID := cmdID ?s + 1\<rparr>" using assms(5) by (auto simp: takeID_def)
  show ?thesis
    using placed_take [OF ok(1) assms(2)] calls_ok_number [OF ok(2) assms(3) c assms(2)]
    by (simp add: race_inv_def t)
qed

lemma race_inv_append:
  assumes "race_inv r" "k < length (rc_calls r)" "rc_calls r ! k = QNumbered sn c i"
    "enqueueLocked sn c i (rc_server r) = (j, err, t)"
  shows "race_inv (call_to k (QDone j err) (r\<lparr>rc_server := t\<rparr>))"
proof -
  let ?s = "rc_server r"
  have ok: "placed_ok ?s" "calls_ok (rc_calls r) ?s" using assms(1) by (simp_all add: race_inv_def)
  note call = calls_okD [OF ok(2) assms(2)]
  show ?thesis
  proof (cases rule: enqueueLocked_cases [of sn c i ?s])
    case full
    then show ?thesis
      using assms race_inv_move [OF assms(1,2), of "QDone 0 (Some ErrCommandQueueFull)"] by simp
  next
    case queued
    let ?cs = "(rc_calls r)[k := QDone i None]"
    have t: "j = i" "err = None" "t = ?s\<lparr>commandQueue :=
        fmupd sn (queueOf sn ?s @ [\<lparr>ce_ID = i, ce_Command = c\<rparr>]) (commandQueue ?s)\<rparr>"
      using assms(4) queued by auto
    have p: "placed_ok t"
      unfolding t using call(1,2,4) assms(3) queued(2) by (intro placed_append [OF ok(1)]) auto
    have cs: "calls_ok ?cs ?s"
      using call assms(3) by (intro calls_ok_move [OF ok(2) assms(2)]) auto
    have "unplaced m t" if "n < length ?cs" "?cs ! n = QNumbered sn' c' m" for n sn' c' m
    proof -
      have n: "n \<noteq> k" "n < length (rc_calls r)" "rc_calls r ! n = QNumbered sn' c' m"
        using that assms(2) by (auto simp: nth_list_update split: if_splits)
      then have "m \<noteq> i" using calls_okD(3) [OF ok(2) n(2), of m k] assms(2,3) by auto
      then show ?thesis unfolding t using calls_okD(4) [OF ok(2) n(2,3)] by (rule unplaced_append [rotated])
    qed
    then have "calls_ok ?cs t"
      using calls_okD [OF cs] by (intro calls_okI) (auto simp: t(3))
    with p show ?thesis by (simp add: race_inv_def t(1,2))
  qed
qed

lemma race_inv_step:
  assumes "race_step r r'" "race_inv r" "id_room (rc_server r)"
  shows "race_inv r'"
  using assms
proof (cases rule: race_step.cases)
  case (number k sn c i t)
  show ?thesis unfolding number(1) by (rule race_inv_number [OF assms(2,3) number(2-4)])
next
  case (append k sn c i j err t)
  show ?thesis unfolding append(1) by (rule race_inv_append [OF assms(2) append(2-4)])
next
  case (sweep1 now order stale t)
  have "shrinks (rc_server r) t"
    using sweep1(4) by (intro shrinks_rest) (auto simp: evictPhase1_def split: prod.splits)
  then show ?thesis unfolding sweep1(1) by (rule race_inv_shrinks(2) [OF assms(2)])
next
  case (sweep2 stale ids)
  show ?thesis unfolding sweep2(1) by (rule race_inv_shrinks(2) [OF assms(2) shrinks_phase2])
next
  case (other t)
  show ?thesis unfolding other(1) by (rule race_inv_part [OF other(2) assms(2)])
qed (auto intro!: race_inv_move assms(2) simp: validateCommandField_None)

text \<open>A step takes at most one ID.\<close>

lemma part_cmdID: "part s t \<Longrightarrow> cmdID t = cmdID s"
proof (induction rule: part.induct)
  case (part_options s sn info)
  show ?case by (simp add: copyOptions_def split: option.split)
next
  case (part_register s now sn opts)
  show ?case using rest_of_eqD(3) [OF rest_of_RegisterDevice] .
next
  case (part_timezone s sn loc)
  show ?case using rest_of_eqD(3) [OF rest_of_SetDeviceTimezone] .
next
  case (part_touch s now sn)
  show ?case using rest_of_eqD(3) [OF rest_of_updateDeviceActivity] .
next
  case (part_dispatch s e q)
  show ?case using core_eqD(4) [OF core_dispatchCallback] .
next
  case (part_worker s)
  show ?case using core_eqD(4) [OF core_workerTake] .
qed (simp_all add: drain_fields)

lemma race_cmdID: "race_step r r' \<Longrightarrow> cmdID (rc_server r') \<in> {cmdID (rc_server r), cmdID (rc_server r) + 1}"
  by (induction rule: race_step.induct)
    (auto simp: takeID_def enqueueLocked_def evictPhase1_def evictPhase2_def part_cmdID split: prod.splits if_splits)

definition race_ok :: "nat \<times> race \<Rightarrow> bool" where
  "race_ok nr \<longleftrightarrow> (fst nr < 9223372036854775808 \<longrightarrow>
     unat (cmdID (rc_server (snd nr))) \<le> fst nr \<and> race_inv (snd nr))"

interpretation racing: rel_machine race_init race_count race_ok
proof unfold_locales
  fix nr assume "race_init nr"
  then obtain l opts calls where nr: "nr = (0, race_start (NewADMSServer l opts) calls)"
    by (auto simp: race_init_def)
  have p: "pristine (NewADMSServer l opts)" by (rule pristine_New)
  then have "cmd_inv (NewADMSServer l opts)" by (rule cmd_inv_pristine)
  then have "placed_ok (NewADMSServer l opts)"
    using ids_ok_distinct by (auto simp: cmd_inv_def ids_ok_def placed_ok_def)
  moreover have "calls_ok (map (\<lambda>(sn, c). QIdle sn c) calls) (NewADMSServer l opts)"
    by (intro calls_okI) (auto split: prod.splits)
  ultimately show "race_ok nr"
    using p by (simp add: race_ok_def nr race_start_def race_inv_def pristine_def)
next
  fix nr nr' assume ok: "race_ok nr" and step: "race_count nr nr'"
  show "race_ok nr'"
    unfolding race_ok_def
  proof
    assume n: "fst nr' < 9223372036854775808"
    have r: "race_step (snd nr) (snd nr')" "fst nr' = Suc (fst nr)"
      using step by (simp_all add: race_count_def)
    with ok n have inv: "unat (cmdID (rc_server (snd nr))) \<le> fst nr" "race_inv (snd nr)"
      by (simp_all add: race_ok_def)
    then have room: "id_room (rc_server (snd nr))" using n r by (simp add: id_room_def)
    have "unat (cmdID (rc_server (snd nr'))) \<le> fst nr'"
      using race_cmdID [OF r(1)] inv(1) r(2) unat_add_1 [of "cmdID (rc_server (snd nr))"] room
      by (auto simp: id_room_def)
    then show "unat (cmdID (rc_server (snd nr'))) \<le> fst nr' \<and> race_inv (snd nr')"
      using race_inv_step [OF r(1) inv(2) room] by simp
  qed
qed

subsection \<open>Properties\<close>

text \<open>C10 However the sections of concurrent calls, polls, confirmations, registrations and evictions
  interleave: no two calls get the same ID, an ID is in one place only (one position of one queue, or
  pending), the limits hold, and no queued command can break its wire line.\<close>

theorem racing_ids_unique:
  assumes "race_reach (n, r)" "n < 9223372036854775808" "k < length (rc_calls r)" "k' < length (rc_calls r)"
    "issued (rc_calls r ! k) = Some i"
  shows "(k = k' \<or> issued (rc_calls r ! k') \<noteq> Some i) \<and> 0 < i
    \<and> distinct (map ce_ID (queueOf sn (rc_server r)))
    \<and> (sn = sn' \<or> ce_ID ` set (queueOf sn (rc_server r)) \<inter> ce_ID ` set (queueOf sn' (rc_server r)) = {})
    \<and> list_all (\<lambda>e. fmlookup (pendingCommands (rc_server r)) (ce_ID e) = None) (queueOf sn (rc_server r))
    \<and> limit_ok (rc_server r) \<and> wire_ok (rc_server r)"
proof -
  have inv: "placed_ok (rc_server r)" "calls_ok (rc_calls r) (rc_server r)"
    using racing.reach_inv [OF assms(1)] assms(2) by (simp_all add: race_ok_def race_inv_def)
  note ok = placed_okD [OF inv(1)] and calls = calls_okD [OF inv(2)]
  have "sn = sn' \<or> ce_ID ` set (queueOf sn (rc_server r)) \<inter> ce_ID ` set (queueOf sn' (rc_server r)) = {}"
    using ok(3) by blast
  then show ?thesis
    using ok(1,2,5,6) calls(2,3) [OF assms(3,5)] assms(4) by (auto simp: list_all_iff)
qed

text \<open>The runs of the examples.\<close>

lemma race_go: "race_reach (n, r) \<Longrightarrow> race_step r r' \<Longrightarrow> race_reach (Suc n, r')"
  by (erule reach_step) (simp add: race_count_def)

definition demoRace :: "string list \<Rightarrow> race" where
  "demoRace cs = (race_start (demoServer ''A'') (map (Pair ''A'') cs))"

lemma demo_race: "race_reach (1, demoRace cs)"
proof -
  have n: "NewADMSServer UTC [] = newServer UTC" by (simp add: NewADMSServer_def)
  have s: "race_reach (0, race_start (newServer UTC) (map (Pair ''A'') cs))"
    unfolding n [symmetric] by (rule reach_init) (auto simp: race_init_def)
  have "race_step (race_start (newServer UTC) (map (Pair ''A'') cs)) (demoRace cs)"
    using race_step.other [OF part_register [of "rc_server (race_start (newServer UTC) (map (Pair ''A'') cs))" 0 "''A''" "[]"]]
    by (simp add: race_start_def demoRace_def demoServer_def)
  from race_go [OF s this] show ?thesis by simp
qed

lemma demo_plain: "validateCommandField ''command'' ''INFO'' = None" "validateCommandField ''command'' ''LOG'' = None"
  by (simp_all add: validateCommandField_def ContainsAny_def)

lemma demo_known: "fmlookup (devices (demoServer ''A'')) ''A'' \<noteq> None"
  by (simp add: demoServer_A)

abbreviation infoEntry :: "64 word \<Rightarrow> CommandEntry" where
  "infoEntry i \<equiv> \<lparr>ce_ID = i, ce_Command = ''INFO''\<rparr>"

definition demoOrphaned :: ADMSServer where
  "demoOrphaned = (demoServer ''A'')\<lparr>devices := fmempty, cmdID := 1,
     commandQueue := fmupd ''A'' [infoEntry 1] fmempty\<rparr>"

lemma fmdrop_single: "fmdrop k (fmupd k v fmempty) = fmempty"
  by (rule fmap_ext) simp

lemma demo_orphaned: "race_reach (6, \<lparr>rc_server = demoOrphaned, rc_calls = [QDone 1 None], rc_sweep = VIdle\<rparr>)"
proof -
  let ?s = "(demoServer ''A'')\<lparr>devices := fmempty\<rparr>"
  have ph: "evictPhase1 86400000000001 [''A''] (demoServer ''A'') = ([''A''], ?s)" "evictPhase2 [''A''] [] ?s = ?s"
    by (simp_all add: evictPhase1_def evictPhase2_def demoServer_A newServer_def
        defaultDeviceEvictionTimeout_def second_def Sub_def minInt64_def maxInt64_def fmdrop_single)
  have it: "iteration [''A''] (devices (demoServer ''A''))" "iteration [] (pendingCommands (demoServer ''A''))"
    by (simp_all add: iteration_def demo_fields)
  have take: "takeID ?s = (1, ?s\<lparr>cmdID := 1\<rparr>)" by (simp add: takeID_def demo_fields)
  have enq: "enqueueLocked ''A'' ''INFO'' 1 (?s\<lparr>cmdID := 1\<rparr>) = (1, None, demoOrphaned)"
    by (simp add: enqueueLocked_def demoOrphaned_def demoServer_A newServer_def queueOf_def)
  note s1 = race_go [OF demo_race [of "[''INFO'']"] race_step.known [of 0 _ "''A''" "''INFO''"]]
  note s2 = race_go [OF s1 race_step.sweep1 [of _ "[''A'']" 86400000000001 "[''A'']" ?s]]
  note s3 = race_go [OF s2 race_step.sweep2 [of _ "[''A'']" "[]"]]
  note s4 = race_go [OF s3 race_step.number [of 0 _ "''A''" "''INFO''" 1 "?s\<lparr>cmdID := 1\<rparr>"]]
  note s5 = race_go [OF s4 race_step.append [of 0 _ "''A''" "''INFO''" 1 1 None demoOrphaned]]
  show ?thesis
    using s5 by (simp add: demoRace_def race_start_def demo_plain demo_known it ph take enq eval_nat_numeral)
qed

text \<open>C40 The test of the device and the append are not one section: an eviction in between leaves a
  queue for a device that is no longer registered, reported as accepted, and no later eviction removes
  it.\<close>

theorem orphaned_queue:
  "\<exists>n r. race_reach (n, r) \<and> rc_calls r = [QDone 1 None] \<and> rc_sweep r = VIdle
     \<and> fmlookup (devices (rc_server r)) ''A'' = None
     \<and> queueOf ''A'' (rc_server r) = [infoEntry 1] \<and> \<not> owner_ok (rc_server r)
     \<and> (\<forall>now. queueOf ''A'' (evicted now (rc_server r)) = queueOf ''A'' (rc_server r))"
proof -
  have "queueOf ''A'' demoOrphaned = [infoEntry 1]" "fmlookup (devices demoOrphaned) ''A'' = None"
    "\<not> owner_ok demoOrphaned"
    by (simp_all add: demoOrphaned_def queueOf_def owner_ok_def)
  then show ?thesis
    using demo_orphaned by (fastforce simp: lookup_evicted isStale_def)
qed

definition demoSwapped :: ADMSServer where
  "demoSwapped = (demoServer ''A'')\<lparr>cmdID := 2,
     commandQueue := fmupd ''A'' [\<lparr>ce_ID = 2, ce_Command = ''LOG''\<rparr>, infoEntry 1] fmempty\<rparr>"

lemma demo_swapped:
  "race_reach (7, \<lparr>rc_server = demoSwapped, rc_calls = [QDone 1 None, QDone 2 None], rc_sweep = VIdle\<rparr>)"
proof -
  let ?s = "demoServer ''A''" and ?l = "\<lparr>ce_ID = 2, ce_Command = ''LOG''\<rparr>"
  let ?t = "?s\<lparr>cmdID := 2, commandQueue := fmupd ''A'' [?l] fmempty\<rparr>"
  have take: "takeID ?s = (1, ?s\<lparr>cmdID := 1\<rparr>)" "takeID (?s\<lparr>cmdID := 1\<rparr>) = (2, ?s\<lparr>cmdID := 2\<rparr>)"
    by (simp_all add: takeID_def demo_fields)
  have enq: "enqueueLocked ''A'' ''LOG'' 2 (?s\<lparr>cmdID := 2\<rparr>) = (2, None, ?t)"
    "enqueueLocked ''A'' ''INFO'' 1 ?t = (1, None, demoSwapped)"
    by (simp_all add: enqueueLocked_def demoSwapped_def demoServer_A newServer_def queueOf_def)
  note s1 = race_go [OF demo_race [of "[''INFO'', ''LOG'']"] race_step.known [of 0 _ "''A''" "''INFO''"]]
  note s2 = race_go [OF s1 race_step.known [of 1 _ "''A''" "''LOG''"]]
  note s3 = race_go [OF s2 race_step.number [of 0 _ "''A''" "''INFO''" 1 "?s\<lparr>cmdID := 1\<rparr>"]]
  note s4 = race_go [OF s3 race_step.number [of 1 _ "''A''" "''LOG''" 2 "?s\<lparr>cmdID := 2\<rparr>"]]
  note s5 = race_go [OF s4 race_step.append [of 1 _ "''A''" "''LOG''" 2 2 None ?t]]
  note s6 = race_go [OF s5 race_step.append [of 0 _ "''A''" "''INFO''" 1 1 None demoSwapped]]
  show ?thesis
    using s6 by (simp add: demoRace_def race_start_def demo_plain demo_known take enq eval_nat_numeral)
qed

text \<open>IDs are taken before the queue is locked: of two concurrent calls the one with the larger ID can
  be queued first, so the commands of a queue need not be in the order of their IDs.\<close>

lemma ids_out_of_order:
  "\<exists>n r. race_reach (n, r) \<and> rc_calls r = [QDone 1 None, QDone 2 None]
     \<and> map ce_ID (queueOf ''A'' (rc_server r)) = [2, 1]"
  using demo_swapped by (fastforce simp: demoSwapped_def queueOf_def)

theorem racing_ids_unique_witness:
  "distinct (map ce_ID (queueOf ''A'' demoSwapped)) \<and> limit_ok demoSwapped"
  using racing_ids_unique [OF demo_swapped, of 0 1 1 "''A''" "''A''"] by simp

end
