(* ===== verification/Adms_Confirming.thy ===== *)
theory Adms_Confirming
  imports Adms_Races
begin

section \<open>Concurrent confirmations (\<open>HandleDeviceCmd\<close> in \<open>handler.go\<close> at its locks)\<close>

text \<open>
  For each result of a confirmation \<open>HandleDeviceCmd\<close> looks the pending command up under \<open>queueMutex\<close>,
  dispatches the result without the lock, and deletes the entry under the lock again.  Here any number
  of such requests run at once, among all the sections of \<open>Adms_Races\<close>.
\<close>

subsection \<open>States and steps\<close>

text \<open>A request: at the head of the loop with the results to do, before the dispatch of one, before the
  deletion of its entry, answered with a status.\<close>

datatype confirmer =
    KLook "CommandResult list"
  | KSend CommandResult "CommandResult list"
  | KDelete CommandResult "CommandResult list"
  | KDone int

record confirming =
  kc_race :: race
  kc_reqs :: "confirmer list"

abbreviation kc_server :: "confirming \<Rightarrow> ADMSServer" where
  "kc_server c \<equiv> rc_server (kc_race c)"

text \<open>Request \<open>k\<close> moves to a place, with the server as it is then.\<close>

definition kc_move :: "nat \<Rightarrow> confirmer \<Rightarrow> ADMSServer \<Rightarrow> confirming \<Rightarrow> confirming" where
  "kc_move k x t c = c\<lparr>kc_race := (kc_race c)\<lparr>rc_server := t\<rparr>, kc_reqs := (kc_reqs c)[k := x]\<rparr>"

inductive confirm_step :: "confirming \<Rightarrow> confirming \<Rightarrow> bool" where
  look: "k < length (kc_reqs c) \<Longrightarrow> kc_reqs c ! k = KLook (q # rs)
    \<Longrightarrow> confirm_step c (kc_move k (KSend (withQueued q (kc_server c)) rs) (kc_server c) c)"
| finished: "k < length (kc_reqs c) \<Longrightarrow> kc_reqs c ! k = KLook []
    \<Longrightarrow> confirm_step c (kc_move k (KDone 200) (kc_server c) c)"
| sent: "k < length (kc_reqs c) \<Longrightarrow> kc_reqs c ! k = KSend q rs
    \<Longrightarrow> dispatchCommandResult e q (kc_server c) = (True, t)
    \<Longrightarrow> confirm_step c (kc_move k (KDelete q rs) t c)"
| dropped: "k < length (kc_reqs c) \<Longrightarrow> kc_reqs c ! k = KSend q rs
    \<Longrightarrow> dispatchCommandResult e q (kc_server c) = (False, t)
    \<Longrightarrow> confirm_step c (kc_move k (KDone 503) t c)"
| delete: "k < length (kc_reqs c) \<Longrightarrow> kc_reqs c ! k = KDelete q rs
    \<Longrightarrow> confirm_step c (kc_move k (KLook rs)
          ((kc_server c)\<lparr>pendingCommands := fmdrop (cr_ID q) (pendingCommands (kc_server c))\<rparr>) c)"
| elsewhere: "race_step (kc_race c) r \<Longrightarrow> confirm_step c (c\<lparr>kc_race := r\<rparr>)"

text \<open>The bodies of the requests, with the serial numbers they come from.\<close>

definition confirm_start :: "ADMSServer \<Rightarrow> (string \<times> string) list \<Rightarrow> (string \<times> string) list \<Rightarrow> confirming" where
  "confirm_start s calls bodies =
     \<lparr>kc_race = race_start s calls, kc_reqs = map (\<lambda>(body, sn). KLook (parseCommandResults body sn)) bodies\<rparr>"

definition confirm_init :: "nat \<times> confirming \<Rightarrow> bool" where
  "confirm_init nc \<longleftrightarrow> (\<exists>l opts calls bodies. nc = (0, confirm_start (NewADMSServer l opts) calls bodies))"

definition confirm_count :: "nat \<times> confirming \<Rightarrow> nat \<times> confirming \<Rightarrow> bool" where
  "confirm_count nc nc' \<longleftrightarrow> confirm_step (snd nc) (snd nc') \<and> fst nc' = Suc (fst nc)"

abbreviation confirm_reach :: "nat \<times> confirming \<Rightarrow> bool" where
  "confirm_reach \<equiv> reach confirm_init confirm_count"

lemma kc_move_simps [simp]:
  "kc_race (kc_move k x t c) = (kc_race c)\<lparr>rc_server := t\<rparr>" "kc_reqs (kc_move k x t c) = (kc_reqs c)[k := x]"
  by (simp_all add: kc_move_def)

subsection \<open>Every run is a run of the sections\<close>

lemma part_dispatchCommandResult:
  "dispatchCommandResult e q s = (b, t) \<Longrightarrow> t = s \<or> part s t"
  using part_dispatch [of s e "CommandResultCall q"]
  by (auto simp: dispatchCommandResult_def split: if_splits)

lemma confirm_is_race:
  "confirm_step c d \<Longrightarrow> kc_race d = kc_race c \<or> race_step (kc_race c) (kc_race d)"
proof (induction rule: confirm_step.induct)
  case (delete k c q rs)
  show ?case using race_step.other [OF part_confirm] by simp
qed (auto intro: race_step.other dest!: part_dispatchCommandResult)

lemma confirm_projects: "confirm_reach nc \<Longrightarrow> \<exists>m \<le> fst nc. race_reach (m, kc_race (snd nc))"
proof (induction rule: reach.induct)
  case (reach_init nc)
  then obtain l opts calls where "nc = (0, snd nc)" "kc_race (snd nc) = race_start (NewADMSServer l opts) calls"
    by (auto simp: confirm_init_def confirm_start_def)
  moreover have "race_reach (0, race_start (NewADMSServer l opts) calls)"
    by (rule reach.reach_init) (auto simp: race_init_def)
  ultimately show ?case by (metis fst_conv le_refl)
next
  case (reach_step nc nc')
  then obtain m where m: "m \<le> fst nc" "race_reach (m, kc_race (snd nc))" by blast
  from reach_step(2) have s: "confirm_step (snd nc) (snd nc')" "fst nc' = Suc (fst nc)"
    by (simp_all add: confirm_count_def)
  from confirm_is_race [OF s(1)] m s(2) show ?case
    by (metis Suc_le_mono le_SucI race_go)
qed

subsection \<open>What was looked up stays right\<close>

text \<open>The ID is out of the queues and out of the hands of \<open>QueueCommand\<close>, so its entry, as long as there
  is one, is that of the command \<open>c\<close>.\<close>

definition settled :: "64 word \<Rightarrow> string \<Rightarrow> race \<Rightarrow> bool" where
  "settled i c r \<longleftrightarrow>
     i \<le> cmdID (rc_server r)
     \<and> (\<forall>sn. i \<notin> ce_ID ` set (queueOf sn (rc_server r)))
     \<and> (\<forall>sn x. QNumbered sn x i \<notin> set (rc_calls r))
     \<and> (\<forall>p. fmlookup (pendingCommands (rc_server r)) i = Some p \<longrightarrow> pe_cmd p = c)"

lemma settled_found:
  assumes "race_inv r" "fmlookup (pendingCommands (rc_server r)) i = Some p"
  shows "settled i (pe_cmd p) r"
proof -
  have ok: "placed_ok (rc_server r)" "calls_ok (rc_calls r) (rc_server r)"
    using assms(1) by (simp_all add: race_inv_def)
  have "i \<notin> ce_ID ` set (queueOf sn (rc_server r))" for sn
    using placed_okD(2) [OF ok(1)] assms(2) by force
  moreover have "QNumbered sn x i \<notin> set (rc_calls r)" for sn x
    using ok(2) assms(2) by (auto simp: calls_ok_def unplaced_def)
  ultimately show ?thesis
    using placed_okD(4) [OF ok(1) assms(2)] assms(2) by (simp add: settled_def)
qed

lemma settled_shrinks:
  assumes "settled i c r" "shrinks (rc_server r) t" "rc_server r' = t" "rc_calls r' = rc_calls r"
  shows "settled i c r'"
  using assms shrinks_mem [OF assms(2)] unfolding settled_def shrinks_def by (auto simp: image_iff) metis+

lemma settled_drain:
  assumes "settled i c r"
  shows "settled i c (r\<lparr>rc_server := snd (DrainCommands sn (rc_server r))\<rparr>)"
proof -
  let ?s = "rc_server r" and ?t = "snd (DrainCommands sn (rc_server r))"
  have "pe_cmd p = c" if "fmlookup (pendingCommands ?t) i = Some p" for p
    using recordPending_Some [OF that [unfolded drain_fields]] assms by (auto simp: settled_def)
  then show ?thesis using assms by (simp add: settled_def drain_fields queueOf_Drain)
qed

lemma settled_part:
  assumes "part (rc_server r) t" "settled i c r"
  shows "settled i c (r\<lparr>rc_server := t\<rparr>)"
  using assms(1)
  by (cases rule: part.cases)
    (auto intro: settled_drain [OF assms(2)] settled_shrinks [OF assms(2)] shrinks_parts shrinks_confirm)

lemma settled_move:
  assumes "settled i c r" "\<And>sn x. y \<noteq> QNumbered sn x i"
  shows "settled i c (call_to k y r)"
proof -
  have "QNumbered sn x i \<notin> set ((rc_calls r)[k := y])" for sn x
    using set_update_subset_insert [of "rc_calls r" k y] assms(2) [of sn x, symmetric] assms(1)
    by (auto simp: settled_def)
  then show ?thesis using assms(1) by (simp add: settled_def)
qed

lemma settled_step:
  assumes "race_step r r'" "settled i c r" "id_room (rc_server r)"
  shows "settled i c r'"
  using assms(1)
proof (cases rule: race_step.cases)
  case (number k sn x j t)
  have t: "j = cmdID (rc_server r) + 1" "t = (rc_server r)\<lparr>cmdID := cmdID (rc_server r) + 1\<rparr>"
    using number(4) by (auto simp: takeID_def)
  have less: "i < j" using id_room_less [OF assms(3)] assms(2) by (simp add: t(1) settled_def)
  then have "settled i c (r\<lparr>rc_server := t\<rparr>)"
    using assms(2) by (auto simp: settled_def t)
  with less show ?thesis unfolding number(1) by (intro settled_move) auto
next
  case (append k sn x j n err t)
  have "j \<noteq> i" using append(2,3) assms(2) by (force simp: settled_def dest: nth_mem)
  have "settled i c (r\<lparr>rc_server := t\<rparr>)"
  proof (cases rule: enqueueLocked_cases [of sn x j "rc_server r"])
    case full
    then show ?thesis using append(4) assms(2) by simp
  next
    case queued
    then have t: "t = (rc_server r)\<lparr>commandQueue :=
        fmupd sn (queueOf sn (rc_server r) @ [\<lparr>ce_ID = j, ce_Command = x\<rparr>]) (commandQueue (rc_server r))\<rparr>"
      using append(4) by simp
    have "i \<notin> ce_ID ` set (queueOf m t)" for m
      unfolding t queueOf_append using assms(2) \<open>j \<noteq> i\<close> by (simp add: settled_def)
    then show ?thesis using assms(2) by (simp add: settled_def t)
  qed
  then show ?thesis unfolding append(1) by (intro settled_move) auto
next
  case (sweep1 now order stale t)
  have "shrinks (rc_server r) t"
    using sweep1(4) by (intro shrinks_rest) (auto simp: evictPhase1_def split: prod.splits)
  then show ?thesis unfolding sweep1(1) by (intro settled_shrinks [OF assms(2)]) simp_all
next
  case (sweep2 stale ids)
  show ?thesis unfolding sweep2(1) by (rule settled_shrinks [OF assms(2) shrinks_phase2]) simp_all
next
  case (other t)
  show ?thesis unfolding other(1) by (rule settled_part [OF other(2) assms(2)])
qed (use assms(2) in \<open>auto intro!: settled_move\<close>)

text \<open>A text that a request has looked up is settled; what it has not looked up has none.\<close>

fun looked_ok :: "race \<Rightarrow> confirmer \<Rightarrow> bool" where
  "looked_ok r (KLook rs) = list_all (\<lambda>q. QueuedCommand q = []) rs"
| "looked_ok r (KSend q rs) =
     (list_all (\<lambda>q. QueuedCommand q = []) rs
      \<and> (QueuedCommand q = [] \<or> settled (cr_ID q) (QueuedCommand q) r))"
| "looked_ok r (KDelete q rs) =
     (list_all (\<lambda>q. QueuedCommand q = []) rs
      \<and> (QueuedCommand q = [] \<or> settled (cr_ID q) (QueuedCommand q) r))"
| "looked_ok r (KDone status) = True"

lemma looked_ok_step:
  "race_step r r' \<Longrightarrow> id_room (rc_server r) \<Longrightarrow> looked_ok r x \<Longrightarrow> looked_ok r' x"
  by (cases x) (auto intro: settled_step)

subsection \<open>The invariant\<close>

text \<open>The sections are in order, and while IDs last, so is what the requests have looked up.\<close>

definition confirm_inv :: "nat \<times> confirming \<Rightarrow> bool" where
  "confirm_inv nc \<longleftrightarrow>
     (\<exists>m \<le> fst nc. race_ok (m, kc_race (snd nc)))
     \<and> (fst nc < 9223372036854775808 \<longrightarrow> list_all (looked_ok (kc_race (snd nc))) (kc_reqs (snd nc)))"

lemma confirm_inv_init: "confirm_init nc \<Longrightarrow> confirm_inv nc"
proof -
  assume "confirm_init nc"
  then obtain l opts calls bodies where nc: "nc = (0, confirm_start (NewADMSServer l opts) calls bodies)"
    by (auto simp: confirm_init_def)
  have "race_ok (0, race_start (NewADMSServer l opts) calls)"
    by (rule racing.init_inv) (auto simp: race_init_def)
  moreover have "list_all (\<lambda>q. QueuedCommand q = []) (parseCommandResults body sn)" for body sn
    using parseCommandResults_wf by (auto simp: list_all_iff result_wf_def)
  ultimately show ?thesis by (auto simp: confirm_inv_def nc confirm_start_def list_all_iff)
qed

lemma looked_withQueued:
  assumes "race_inv r" "QueuedCommand q = []"
  shows "QueuedCommand (withQueued q (rc_server r)) = []
    \<or> settled (cr_ID (withQueued q (rc_server r))) (QueuedCommand (withQueued q (rc_server r))) r"
  using assms settled_found [OF assms(1), of "cr_ID q"] by (auto simp: withQueued_def split: option.split)

text \<open>What a request's own step does to its place.\<close>

lemma looked_own:
  assumes "confirm_step c d" "race_inv (kc_race c)" "id_room (kc_server c)"
    "list_all (looked_ok (kc_race c)) (kc_reqs c)"
  shows "list_all (looked_ok (kc_race d)) (kc_reqs d)"
proof -
  have after: "looked_ok (kc_race d) x" if "looked_ok (kc_race c) x" for x
    using confirm_is_race [OF assms(1)] looked_ok_step [OF _ assms(3) that] that by auto
  have old: "list_all (looked_ok (kc_race d)) (kc_reqs c)"
    using assms(4) after by (auto simp: list_all_iff)
  from assms(1) show ?thesis
  proof (cases rule: confirm_step.cases)
    case (look k q rs)
    from list_all_nthD [OF assms(4) look(2)] look(3)
    have q: "list_all (\<lambda>q. QueuedCommand q = []) (q # rs)" by simp
    then have "looked_ok (kc_race d) (KSend (withQueued q (kc_server c)) rs)"
      using looked_withQueued [OF assms(2), of q] by (intro after) simp
    then show ?thesis using list_all_update [OF old] by (simp add: look(1))
  next
    case (sent k q rs e t)
    from list_all_nthD [OF assms(4) sent(2)] sent(3) have "looked_ok (kc_race d) (KDelete q rs)"
      by (intro after) simp
    then show ?thesis using list_all_update [OF old] by (simp add: sent(1))
  next
    case (delete k q rs)
    from list_all_nthD [OF assms(4) delete(2)] delete(3) have "looked_ok (kc_race d) (KLook rs)" by simp
    then show ?thesis using list_all_update [OF old] by (simp add: delete(1))
  next
    case (elsewhere r)
    then show ?thesis using old by simp
  qed (use list_all_update [OF old] in simp_all)
qed

interpretation confirming: rel_machine confirm_init confirm_count confirm_inv
proof unfold_locales
  fix nc nd assume inv: "confirm_inv nc" and "confirm_count nc nd"
  then have s: "confirm_step (snd nc) (snd nd)" "fst nd = Suc (fst nc)"
    by (simp_all add: confirm_count_def)
  obtain m where m: "m \<le> fst nc" "race_ok (m, kc_race (snd nc))"
    using inv by (auto simp: confirm_inv_def)
  have "\<exists>m' \<le> fst nd. race_ok (m', kc_race (snd nd))"
    using confirm_is_race [OF s(1)]
  proof
    assume "race_step (kc_race (snd nc)) (kc_race (snd nd))"
    then have "race_count (m, kc_race (snd nc)) (Suc m, kc_race (snd nd))" by (simp add: race_count_def)
    from racing.step_inv [OF m(2) this] m(1) s(2) show ?thesis by (intro exI [of _ "Suc m"]) simp
  qed (use m s(2) in \<open>auto intro: le_SucI\<close>)
  moreover have "list_all (looked_ok (kc_race (snd nd))) (kc_reqs (snd nd))"
    if n: "fst nd < 9223372036854775808"
  proof -
    have "race_inv (kc_race (snd nc))" "id_room (kc_server (snd nc))"
      using m n s(2) by (auto simp: race_ok_def id_room_def)
    then show ?thesis using inv n s(2) by (intro looked_own [OF s(1)]) (simp_all add: confirm_inv_def)
  qed
  ultimately show "confirm_inv nd" by (simp add: confirm_inv_def)
qed (rule confirm_inv_init)

subsection \<open>Runs\<close>

lemma kc_move_twice [simp]: "kc_move k y u (kc_move k x t c) = kc_move k y u c"
  by (simp add: kc_move_def)

text \<open>A dispatch that succeeds, and the deletion after it.\<close>

lemma confirm_one:
  assumes "k < length (kc_reqs c)" "kc_reqs c ! k = KLook (q # rs)"
    "dispatchCommandResult e (withQueued q (kc_server c)) (kc_server c) = (True, t)"
  shows "confirm_step\<^sup>*\<^sup>* c
    (kc_move k (KLook rs) (t\<lparr>pendingCommands := fmdrop (cr_ID q) (pendingCommands t)\<rparr>) c)"
proof -
  let ?q = "withQueued q (kc_server c)"
  let ?c1 = "kc_move k (KSend ?q rs) (kc_server c) c" and ?c2 = "kc_move k (KDelete ?q rs) t c"
  have id: "cr_ID ?q = cr_ID q" by (simp add: withQueued_def split: option.split)
  have "confirm_step c ?c1" by (rule confirm_step.look [OF assms(1,2)])
  moreover have "confirm_step ?c1 ?c2"
    using confirm_step.sent [of k ?c1 ?q rs e t] assms(1,3) by simp
  moreover have "confirm_step ?c2 (kc_move k (KLook rs) (t\<lparr>pendingCommands := fmdrop (cr_ID q) (pendingCommands t)\<rparr>) c)"
    using confirm_step.delete [of k ?c2 ?q rs] assms(1) by (simp add: id)
  ultimately show ?thesis by (meson r_into_rtranclp rtranclp_trans)
qed

text \<open>Two requests that carry the same result, one looking it up before the other has deleted it.\<close>

lemma both_report:
  fixes c :: confirming and q :: CommandResult
  defines "s \<equiv> kc_server c" and "q' \<equiv> withQueued q (kc_server c)"
  assumes reqs: "kc_reqs c = [KLook [q], KLook [q]]"
    and server: "onCommandResult s \<noteq> None" "\<not> closing s" "int (length (callbackCh s)) + 1 < callbackBufferSize s"
  shows "confirm_step\<^sup>*\<^sup>* c (c\<lparr>kc_reqs := [KDone 200, KDone 200], kc_race := (kc_race c)\<lparr>rc_server := s\<lparr>
      callbackCh := callbackCh s @ [CommandResultCall q', CommandResultCall q'],
      pendingCommands := fmdrop (cr_ID q) (pendingCommands s)\<rparr>\<rparr>\<rparr>)"
proof -
  let ?e = "\<lparr>sch_runs = 0, sch_slow = TimerExpired\<rparr>"
  let ?t = "s\<lparr>callbackCh := callbackCh s @ [CommandResultCall q']\<rparr>"
  let ?u = "s\<lparr>callbackCh := callbackCh s @ [CommandResultCall q', CommandResultCall q']\<rparr>"
  let ?v = "?u\<lparr>pendingCommands := fmdrop (cr_ID q) (pendingCommands s)\<rparr>"
  have d: "dispatchCommandResult ?e q' s = (True, ?t)" "dispatchCommandResult ?e q' ?t = (True, ?u)"
    using server by (auto simp: dispatchCommandResult_def dispatchCallback_def)
  have id: "cr_ID q' = cr_ID q" by (simp add: q'_def withQueued_def split: option.split)
  let ?c1 = "kc_move 0 (KSend q' []) s c"
  let ?c2 = "kc_move 1 (KSend q' []) s ?c1"
  let ?c3 = "kc_move 0 (KDelete q' []) ?t ?c2"
  let ?c4 = "kc_move 1 (KDelete q' []) ?u ?c3"
  let ?c5 = "kc_move 0 (KLook []) ?v ?c4"
  let ?c6 = "kc_move 1 (KLook []) ?v ?c5"
  let ?c7 = "kc_move 0 (KDone 200) ?v ?c6"
  let ?c8 = "kc_move 1 (KDone 200) ?v ?c7"
  have "confirm_step c ?c1" "confirm_step ?c1 ?c2"
    using confirm_step.look [of 0 c q "[]"] confirm_step.look [of 1 ?c1 q "[]"] reqs
    by (simp_all add: s_def q'_def)
  moreover have "confirm_step ?c2 ?c3" "confirm_step ?c3 ?c4"
    using confirm_step.sent [of 0 ?c2 q' "[]" ?e ?t] confirm_step.sent [of 1 ?c3 q' "[]" ?e ?u] reqs d
    by simp_all
  moreover have "confirm_step ?c4 ?c5" "confirm_step ?c5 ?c6"
    using confirm_step.delete [of 0 ?c4 q' "[]"] confirm_step.delete [of 1 ?c5 q' "[]"] reqs
    by (simp_all add: id)
  moreover have "confirm_step ?c6 ?c7" "confirm_step ?c7 ?c8"
    using confirm_step.finished [of 0 ?c6] confirm_step.finished [of 1 ?c7] reqs by simp_all
  ultimately have "confirm_step\<^sup>*\<^sup>* c ?c8" by (meson r_into_rtranclp rtranclp_trans)
  moreover have "?c8 = c\<lparr>kc_reqs := [KDone 200, KDone 200], kc_race := (kc_race c)\<lparr>rc_server := ?v\<rparr>\<rparr>"
    using reqs by (simp add: kc_move_def)
  ultimately show ?thesis by simp
qed

subsection \<open>Properties\<close>

text \<open>C11 However concurrent confirmations interleave with everything else, what a request has found stays
  right: when the lookup found the command queued under the ID of a result (so the result is reported with
  it), then until the request deletes the entry, an entry pending under that ID is that of the same
  command.  Nothing is said of a result whose lookup found nothing (see \<open>early_confirmation_forgets\<close>).\<close>

theorem lookup_never_stale:
  assumes "confirm_reach (n, c)" "n < 9223372036854775808" "k < length (kc_reqs c)"
    "kc_reqs c ! k = KSend q rs \<or> kc_reqs c ! k = KDelete q rs" "QueuedCommand q \<noteq> []"
    "fmlookup (pendingCommands (kc_server c)) (cr_ID q) = Some p"
  shows "pe_cmd p = QueuedCommand q"
proof -
  have "list_all (looked_ok (kc_race c)) (kc_reqs c)"
    using confirming.reach_inv [OF assms(1)] assms(2) by (simp add: confirm_inv_def)
  from list_all_nthD [OF this assms(3)] have "settled (cr_ID q) (QueuedCommand q) (kc_race c)"
    using assms(4,5) by auto
  then show ?thesis using assms(6) by (simp add: settled_def)
qed

text \<open>C12 The sequential loop of \<open>HandleDeviceCmd\<close> is a run of these sections: a request that nobody
  interrupts ends with the same status and leaves the same server.\<close>

theorem confirm_loop_is_run:
  assumes "confirmLoop sch m rs (kc_server c) = (failed, t)" "k < length (kc_reqs c)" "kc_reqs c ! k = KLook rs"
  shows "confirm_step\<^sup>*\<^sup>* c (kc_move k (KDone (if failed = None then 200 else 503)) t c)"
  using assms
proof (induction rs arbitrary: m c)
  case Nil
  then show ?case using confirm_step.finished [of k c] by auto
next
  case (Cons q rs)
  let ?q = "withQueued q (kc_server c)"
  obtain ok u where d: "dispatchCommandResult (sch m) ?q (kc_server c) = (ok, u)"
    by (cases "dispatchCommandResult (sch m) ?q (kc_server c)")
  show ?case
  proof (cases ok)
    case False
    then have r: "failed = Some (cr_ID q)" "t = u" using Cons.prems(1) d by simp_all
    let ?c1 = "kc_move k (KSend ?q rs) (kc_server c) c"
    have "confirm_step c ?c1" by (rule confirm_step.look [OF Cons.prems(2,3)])
    moreover have "confirm_step ?c1 (kc_move k (KDone 503) u c)"
      using confirm_step.dropped [of k ?c1 ?q rs "sch m" u] Cons.prems(2) d False by simp
    ultimately show ?thesis unfolding r by (auto intro: converse_rtranclp_into_rtranclp)
  next
    case True
    let ?v = "u\<lparr>pendingCommands := fmdrop (cr_ID q) (pendingCommands u)\<rparr>"
    let ?c1 = "kc_move k (KLook rs) ?v c"
    have "confirm_step\<^sup>*\<^sup>* c ?c1"
      by (rule confirm_one [OF Cons.prems(2,3)]) (use d True in simp)
    moreover have "confirm_step\<^sup>*\<^sup>* ?c1 (kc_move k (KDone (if failed = None then 200 else 503)) t ?c1)"
      using Cons.prems d True by (intro Cons.IH [of "Suc m"]) simp_all
    ultimately show ?thesis by (metis kc_move_twice rtranclp_trans)
  qed
qed

subsection \<open>One command, confirmed by two requests at once\<close>

definition twiceServer :: ADMSServer where
  "twiceServer = NewADMSServer UTC [OptOnCommandResult (Some (\<lambda>_ _. Returned))]"

definition twiceBody :: string where
  "twiceBody = ''ID=1&Return=0&CMD=INFO''"

definition twiceResult :: CommandResult where
  "twiceResult = \<lparr>cr_SerialNumber = ''A'', cr_ID = 1, ReturnCode = 0, cr_Command = ''INFO'', QueuedCommand = []\<rparr>"

lemma twice_parsed: "parseCommandResults twiceBody ''A'' = [twiceResult]"
  unfolding twiceBody_def twiceResult_def by code_simp

definition twiceHanded :: ADMSServer where
  "twiceHanded = twiceServer\<lparr>devices := fmupd ''A'' \<lparr>SerialNumber = ''A'', LastActivity = 0, Options = fmempty,
       Timezone = None\<rparr> fmempty, cmdID := 1,
     pendingCommands := fmupd 1 \<lparr>pe_sn = ''A'', pe_cmd = ''INFO''\<rparr> fmempty\<rparr>"

definition twiceQueued :: ADMSServer where
  "twiceQueued = twiceServer\<lparr>devices := fmupd ''A'' \<lparr>SerialNumber = ''A'', LastActivity = 0, Options = fmempty,
       Timezone = None\<rparr> fmempty, cmdID := 1, commandQueue := fmupd ''A'' [infoEntry 1] fmempty\<rparr>"

definition twiceWaits :: confirming where
  "twiceWaits = \<lparr>kc_race = \<lparr>rc_server = twiceQueued, rc_calls = [QDone 1 None], rc_sweep = VIdle\<rparr>,
     kc_reqs = [KLook [twiceResult], KLook [twiceResult]]\<rparr>"

definition twiceStart :: confirming where
  "twiceStart = \<lparr>kc_race = \<lparr>rc_server = twiceHanded, rc_calls = [QDone 1 None], rc_sweep = VIdle\<rparr>,
     kc_reqs = [KLook [twiceResult], KLook [twiceResult]]\<rparr>"

lemma confirm_go: "confirm_reach (n, c) \<Longrightarrow> confirm_step c d \<Longrightarrow> confirm_reach (Suc n, d)"
  by (erule reach_step) (simp add: confirm_count_def)

lemma confirm_goes: "confirm_step\<^sup>*\<^sup>* c d \<Longrightarrow> confirm_reach (n, c) \<Longrightarrow> \<exists>m. confirm_reach (m, d)"
  by (induction rule: rtranclp_induct) (auto intro: confirm_go)

lemma confirm_race_go:
  "confirm_reach (n, c) \<Longrightarrow> race_step (kc_race c) r \<Longrightarrow> confirm_reach (Suc n, c\<lparr>kc_race := r\<rparr>)"
  by (erule confirm_go) (rule confirm_step.elsewhere)

lemma twice_waits: "confirm_reach (4, twiceWaits)"
proof -
  let ?d = "\<lparr>SerialNumber = ''A'', LastActivity = 0, Options = fmempty, Timezone = None\<rparr>"
  let ?s1 = "twiceServer\<lparr>devices := fmupd ''A'' ?d fmempty\<rparr>"
  let ?s2 = "?s1\<lparr>cmdID := 1\<rparr>"
  let ?s3 = "?s2\<lparr>commandQueue := fmupd ''A'' [infoEntry 1] fmempty\<rparr>"
  have new: "devices twiceServer = fmempty" "commandQueue twiceServer = fmempty" "cmdID twiceServer = 0"
    "pendingCommands twiceServer = fmempty" "maxDevices twiceServer = 1000" "maxCommandsPerDevice twiceServer = 0"
    by (simp_all add: twiceServer_def NewADMSServer_def option_defs newServer_def defaultMaxDevices_def)
  have "confirm_reach (0, confirm_start twiceServer [(''A'', ''INFO'')] [(twiceBody, ''A''), (twiceBody, ''A'')])"
    unfolding twiceServer_def by (rule reach_init) (auto simp: confirm_init_def)
  then have s0: "confirm_reach (0, \<lparr>kc_race = \<lparr>rc_server = twiceServer, rc_calls = [QIdle ''A'' ''INFO''],
      rc_sweep = VIdle\<rparr>, kc_reqs = [KLook [twiceResult], KLook [twiceResult]]\<rparr>)"
    by (simp add: confirm_start_def race_start_def twice_parsed)
  have reg: "snd (RegisterDevice 0 ''A'' [] twiceServer) = ?s1"
    by (simp add: RegisterDevice_def valid_demo new)
  note s1 = confirm_race_go [OF s0 race_step.other [OF part_register [of _ 0 "''A''" "[]"]]]
  note s2 = confirm_race_go [OF s1 race_step.known [of 0 _ "''A''" "''INFO''"]]
  note s3 = confirm_race_go [OF s2 race_step.number [of 0 _ "''A''" "''INFO''" 1 ?s2]]
  note s4 = confirm_race_go [OF s3 race_step.append [of 0 _ "''A''" "''INFO''" 1 1 None ?s3]]
  have take: "takeID ?s1 = (1, ?s2)" by (simp add: takeID_def new)
  have enq: "enqueueLocked ''A'' ''INFO'' 1 ?s2 = (1, None, ?s3)"
    by (simp add: enqueueLocked_def new queueOf_def)
  show ?thesis
    using s4 by (simp add: reg demo_plain take enq twiceWaits_def twiceQueued_def eval_nat_numeral)
qed

lemma twice_drained: "snd (DrainCommands ''A'' twiceQueued) = twiceHanded"
  by (simp add: DrainCommands_def Let_def queueOf_def twiceHanded_def twiceQueued_def twiceServer_def
      NewADMSServer_def option_defs newServer_def pending_of_def fmdrop_single)

lemma twice_start: "confirm_reach (5, twiceStart)"
  using confirm_race_go [OF twice_waits race_step.other [OF part_drain [of _ "''A''"]]]
  by (simp add: twiceWaits_def twiceStart_def twice_drained eval_nat_numeral)

text \<open>C13 The lookup and the deletion are two sections: of two requests that confirm the same command at
  once, as when a device sends a confirmation again while the first one waits for room in the callback
  queue, both report it to the callback as the queued command, and both are answered 200.\<close>

theorem confirmed_twice:
  "\<exists>n c r. confirm_reach (n, c) \<and> kc_reqs c = [KDone 200, KDone 200] \<and> QueuedCommand r = ''INFO''
     \<and> cr_ID r = 1 \<and> callbackCh (kc_server c) = [CommandResultCall r, CommandResultCall r]
     \<and> cmdID (kc_server c) = 1"
proof -
  have server: "onCommandResult twiceHanded \<noteq> None" "\<not> closing twiceHanded" "callbackCh twiceHanded = []"
    "callbackBufferSize twiceHanded = 256" "cmdID twiceHanded = 1"
    by (simp_all add: twiceHanded_def twiceServer_def NewADMSServer_def option_defs newServer_def
        defaultCallbackBufferSize_def)
  let ?r = "twiceResult\<lparr>QueuedCommand := ''INFO''\<rparr>"
  have r: "withQueued twiceResult twiceHanded = ?r"
    by (simp add: withQueued_def twiceHanded_def twiceResult_def)
  have start: "kc_reqs twiceStart = [KLook [twiceResult], KLook [twiceResult]]" "kc_server twiceStart = twiceHanded"
    by (simp_all add: twiceStart_def)
  note both = both_report [OF start(1), unfolded start(2), OF server(1,2)]
  from confirm_goes [OF both twice_start] server r show ?thesis
    by (fastforce simp: twiceResult_def)
qed

text \<open>A lookup can come too early.  A confirmation that arrives while its ID still waits in the queue finds
  nothing and is reported without a command; when a poll hands the command over before the request
  deletes, the deletion removes the entry of that command, whose own confirmation will find none.\<close>

lemma early_confirmation_forgets:
  "\<exists>n c d. confirm_reach (n, c) \<and> kc_reqs c ! 0 = KDelete twiceResult [] \<and> QueuedCommand twiceResult = []
     \<and> fmlookup (pendingCommands (kc_server c)) 1 = Some \<lparr>pe_sn = ''A'', pe_cmd = ''INFO''\<rparr>
     \<and> confirm_step c d \<and> fmlookup (pendingCommands (kc_server d)) 1 = None"
proof -
  let ?c1 = "kc_move 0 (KSend twiceResult []) twiceQueued twiceWaits"
  have "withQueued twiceResult twiceQueued = twiceResult"
    by (simp add: withQueued_def twiceQueued_def twiceServer_def NewADMSServer_def option_defs newServer_def)
  then have "confirm_step twiceWaits ?c1"
    using confirm_step.look [of 0 twiceWaits twiceResult "[]"] by (simp add: twiceWaits_def)
  then have s1: "confirm_reach (5, ?c1)" using confirm_go [OF twice_waits] by simp
  let ?c2 = "?c1\<lparr>kc_race := (kc_race ?c1)\<lparr>rc_server := twiceHanded\<rparr>\<rparr>"
  have s2: "confirm_reach (6, ?c2)"
    using confirm_race_go [OF s1 race_step.other [OF part_drain [of _ "''A''"]]]
    by (simp add: twice_drained)
  let ?t = "twiceHanded\<lparr>callbackCh := [CommandResultCall twiceResult]\<rparr>"
  have "dispatchCommandResult \<lparr>sch_runs = 0, sch_slow = TimerExpired\<rparr> twiceResult twiceHanded = (True, ?t)"
    by (simp add: dispatchCommandResult_def dispatchCallback_def twiceHanded_def twiceServer_def NewADMSServer_def
        option_defs newServer_def defaultCallbackBufferSize_def)
  then have "confirm_step ?c2 (kc_move 0 (KDelete twiceResult []) ?t ?c2)"
    using confirm_step.sent [of 0 ?c2 twiceResult "[]" _ ?t] by (simp add: twiceWaits_def)
  then have s3: "confirm_reach (7, kc_move 0 (KDelete twiceResult []) ?t ?c2)"
    using confirm_go [OF s2] by simp
  let ?c3 = "kc_move 0 (KDelete twiceResult []) ?t ?c2"
  have at: "kc_reqs ?c3 ! 0 = KDelete twiceResult []" "0 < length (kc_reqs ?c3)" by (simp_all add: twiceWaits_def)
  have "QueuedCommand twiceResult = []" "cr_ID twiceResult = 1" by (simp_all add: twiceResult_def)
  moreover have "fmlookup (pendingCommands ?t) 1 = Some \<lparr>pe_sn = ''A'', pe_cmd = ''INFO''\<rparr>"
    by (simp add: twiceHanded_def)
  ultimately show ?thesis
    using confirm_step.delete [OF at(2,1)] s3 at(1) by (intro exI [of _ 7] exI [of _ ?c3] exI) auto
qed

theorem lookup_never_stale_witness:
  "pe_cmd (the (fmlookup (pendingCommands twiceHanded) 1)) = ''INFO''
   \<and> confirm_reach (6, kc_move 0 (KSend (twiceResult\<lparr>QueuedCommand := ''INFO''\<rparr>) []) twiceHanded twiceStart)"
proof -
  let ?q = "twiceResult\<lparr>QueuedCommand := ''INFO''\<rparr>"
  let ?c = "kc_move 0 (KSend ?q []) twiceHanded twiceStart"
  have q: "withQueued twiceResult twiceHanded = ?q"
    by (simp add: withQueued_def twiceHanded_def twiceResult_def)
  have "confirm_step twiceStart ?c"
    using confirm_step.look [of 0 twiceStart twiceResult "[]"] q by (simp add: twiceStart_def)
  then have c: "confirm_reach (6, ?c)" using confirm_go [OF twice_start] by simp
  have at: "0 < length (kc_reqs ?c)" "kc_reqs ?c ! 0 = KSend ?q []" by (simp_all add: twiceStart_def)
  have p: "fmlookup (pendingCommands (kc_server ?c)) (cr_ID ?q) = Some \<lparr>pe_sn = ''A'', pe_cmd = ''INFO''\<rparr>"
    by (simp add: twiceHanded_def twiceResult_def)
  from lookup_never_stale [OF c _ at(1) disjI1 [OF at(2)] _ p] c show ?thesis
    by (simp add: twiceHanded_def)
qed

theorem confirm_loop_is_run_witness:
  "\<exists>t. confirm_step\<^sup>*\<^sup>* twiceStart (kc_move 0 (KDone 200) t twiceStart) \<and> pendingCommands t = fmempty"
proof -
  let ?e = "\<lambda>_. \<lparr>sch_runs = 0, sch_slow = TimerExpired\<rparr>"
  let ?r = "twiceResult\<lparr>QueuedCommand := ''INFO''\<rparr>"
  let ?t = "twiceHanded\<lparr>callbackCh := [CommandResultCall ?r], pendingCommands := fmempty\<rparr>"
  have c: "kc_server twiceStart = twiceHanded" "0 < length (kc_reqs twiceStart)"
    "kc_reqs twiceStart ! 0 = KLook [twiceResult]"
    by (simp_all add: twiceStart_def)
  have "confirmLoop ?e 0 [twiceResult] twiceHanded = (None, ?t)"
    by (simp add: withQueued_def twiceHanded_def twiceResult_def dispatchCommandResult_def dispatchCallback_def
        twiceServer_def NewADMSServer_def option_defs newServer_def defaultCallbackBufferSize_def fmdrop_single)
  from confirm_loop_is_run [OF this [folded c(1)] c(2,3)] show ?thesis by auto
qed

end
