(* ===== verification/Example_Logging.thy ===== *)
theory Example_Logging
  imports Adms_Handlers
begin

section \<open>The logging middleware of the example programs\<close>

text \<open>
  \<open>statusRecorder\<close>, \<open>truncateBody\<close> and \<open>logMiddleware\<close>, which the three examples share (the
  source repeats them word for word; the line numbers are those of \<open>examples/commands\<close>).  A handler
  is seen through the calls it makes on its \<open>ResponseWriter\<close>, in order, and whether it panics.
  Headers, the protocol and the elapsed time are what the surroundings provide for the dump, the
  headers in the order the runtime ranges over them.
\<close>

subsection \<open>\<open>statusRecorder\<close>\<close>

definition maxLogBody :: nat where "maxLogBody = 1024"

datatype wcall = WHeader int | WBody string

text \<open>\<open>sr_out\<close> is what the wrapped writer has received.\<close>

record statusRecorder =
  sr_status :: int
  sr_body :: string
  sr_out :: "wcall list"

definition newRecorder :: statusRecorder where
  "newRecorder = \<lparr>sr_status = 200, sr_body = [], sr_out = []\<rparr>"

definition recWriteHeader :: "int \<Rightarrow> statusRecorder \<Rightarrow> statusRecorder" where
  "recWriteHeader code r = r\<lparr>sr_status := code, sr_out := sr_out r @ [WHeader code]\<rparr>"

text \<open>\<open>n\<close> bytes of the slice are accepted by the wrapped writer.\<close>

definition recWrite :: "nat \<Rightarrow> string \<Rightarrow> statusRecorder \<Rightarrow> statusRecorder" where
  "recWrite n b r =
     (let r' = r\<lparr>sr_out := sr_out r @ [WBody b]\<rparr> in
      if 0 < n \<and> length (sr_body r) < maxLogBody + 1
      then r'\<lparr>sr_body := sr_body r @ take n b\<rparr> else r')"

text \<open>A handler's calls on the recorder; \<open>accept k\<close> is the outcome of its \<open>k\<close>-th call.\<close>

fun recordCalls :: "(nat \<Rightarrow> nat) \<Rightarrow> nat \<Rightarrow> wcall list \<Rightarrow> statusRecorder \<Rightarrow> statusRecorder" where
  "recordCalls accept k [] r = r"
| "recordCalls accept k (WHeader code # cs) r = recordCalls accept (Suc k) cs (recWriteHeader code r)"
| "recordCalls accept k (WBody b # cs) r = recordCalls accept (Suc k) cs (recWrite (accept k) b r)"

definition truncateBody :: "string \<Rightarrow> int \<Rightarrow> string" where
  "truncateBody s captured =
     (if length s \<le> maxLogBody then s
      else take maxLogBody s @ ''... (truncated, '' @ itoa captured @ '' bytes total)'')"

subsection \<open>The request body\<close>

text \<open>\<open>io.ReadAll(io.LimitReader(b, n))\<close>: the bytes read, and what the stream has left; a failed
  stream fails again on the next read.  \<open>io.MultiReader\<close> of bytes and a stream.\<close>

fun readLimited :: "nat \<Rightarrow> req_body \<Rightarrow> string \<times> req_body" where
  "readLimited n (Body bs) = (take n bs, Body (drop n bs))"
| "readLimited n (BodyErr bs) = (take n bs, BodyErr (drop n bs))"

fun multiReader :: "string \<Rightarrow> req_body \<Rightarrow> req_body" where
  "multiReader first (Body bs) = Body (first @ bs)"
| "multiReader first (BodyErr bs) = BodyErr (first @ bs)"

subsection \<open>The dump\<close>

text \<open>\<open>http.StatusText\<close>.\<close>

definition statusTexts :: "(int \<times> string) list" where
  "statusTexts =
    [(100, ''Continue''), (101, ''Switching Protocols''), (102, ''Processing''), (103, ''Early Hints''),
     (200, ''OK''), (201, ''Created''), (202, ''Accepted''), (203, ''Non-Authoritative Information''),
     (204, ''No Content''), (205, ''Reset Content''), (206, ''Partial Content''), (207, ''Multi-Status''),
     (208, ''Already Reported''), (226, ''IM Used''),
     (300, ''Multiple Choices''), (301, ''Moved Permanently''), (302, ''Found''), (303, ''See Other''),
     (304, ''Not Modified''), (305, ''Use Proxy''), (307, ''Temporary Redirect''),
     (308, ''Permanent Redirect''),
     (400, ''Bad Request''), (401, ''Unauthorized''), (402, ''Payment Required''), (403, ''Forbidden''),
     (404, ''Not Found''), (405, ''Method Not Allowed''), (406, ''Not Acceptable''),
     (407, ''Proxy Authentication Required''), (408, ''Request Timeout''), (409, ''Conflict''),
     (410, ''Gone''), (411, ''Length Required''), (412, ''Precondition Failed''),
     (413, ''Request Entity Too Large''), (414, ''Request URI Too Long''),
     (415, ''Unsupported Media Type''), (416, ''Requested Range Not Satisfiable''),
     (417, ''Expectation Failed''), (418, ''I'' @ [CHR 0x27] @ ''m a teapot''),
     (421, ''Misdirected Request''), (422, ''Unprocessable Entity''), (423, ''Locked''),
     (424, ''Failed Dependency''), (425, ''Too Early''), (426, ''Upgrade Required''),
     (428, ''Precondition Required''), (429, ''Too Many Requests''),
     (431, ''Request Header Fields Too Large''), (451, ''Unavailable For Legal Reasons''),
     (500, ''Internal Server Error''), (501, ''Not Implemented''), (502, ''Bad Gateway''),
     (503, ''Service Unavailable''), (504, ''Gateway Timeout''), (505, ''HTTP Version Not Supported''),
     (506, ''Variant Also Negotiates''), (507, ''Insufficient Storage''), (508, ''Loop Detected''),
     (510, ''Not Extended''), (511, ''Network Authentication Required'')]"

definition StatusText :: "int \<Rightarrow> string" where
  "StatusText code = (case map_of statusTexts code of None \<Rightarrow> [] | Some t \<Rightarrow> t)"

text \<open>What the surroundings provide: the outcomes of the writes, the texts for the dump.\<close>

record exchange_env =
  xe_accept :: "nat \<Rightarrow> nat"
  xe_proto :: string
  xe_host :: string
  xe_header :: "(string \<times> string list) list"
  xe_respHeader :: "(string \<times> string list) list"
  xe_elapsed :: string

fun joinComma :: "string list \<Rightarrow> string" where
  "joinComma [] = []"
| "joinComma [v] = v"
| "joinComma (v # vs) = v @ '', '' @ joinComma vs"

definition dumpHeaders :: "(string \<times> string list) list \<Rightarrow> string" where
  "dumpHeaders hs = concat (map (\<lambda>(name, vals). name @ '': '' @ joinComma vals @ [NL]) hs)"

text \<open>A body with its blank line, when there is one.\<close>

definition dumpBody :: "string \<Rightarrow> string" where
  "dumpBody b = (if b = [] then [] else [NL] @ truncateBody b (int (length b)) @ [NL])"

definition exchangeDump :: "exchange_env \<Rightarrow> request \<Rightarrow> string \<Rightarrow> statusRecorder \<Rightarrow> string" where
  "exchangeDump x r reqBody rec =
     [NL] @ ''--- HTTP Request ---'' @ [NL]
     @ rq_method r @ '' '' @ rq_path r @ (if rq_query r = [] then [] else ''?'' @ rq_query r) @ '' ''
     @ xe_proto x @ [NL] @ ''Host: '' @ xe_host x @ [NL]
     @ dumpHeaders (xe_header x) @ dumpBody reqBody
     @ [NL] @ ''--- HTTP Response ('' @ itoa (sr_status rec) @ '' '' @ StatusText (sr_status rec) @ '', ''
     @ xe_elapsed x @ '') ---'' @ [NL]
     @ dumpHeaders (xe_respHeader x) @ dumpBody (sr_body rec)"

subsection \<open>\<open>logMiddleware\<close>\<close>

text \<open>A handler: its calls and its exit.  The deferred function logs and panics again.\<close>

type_synonym 's http_handler = "request \<Rightarrow> 's \<Rightarrow> (wcall list \<times> cb_exit) \<times> 's"

record exchange =
  ex_calls :: "wcall list"
  ex_exit :: cb_exit
  ex_dump :: string

definition logMiddleware :: "exchange_env \<Rightarrow> 's http_handler \<Rightarrow> request \<Rightarrow> 's \<Rightarrow> exchange \<times> 's" where
  "logMiddleware x next r s =
     (case readLimited (maxLogBody + 1) (rq_body r) of (reqBody, rest) \<Rightarrow>
        (case next (r\<lparr>rq_body := multiReader reqBody rest\<rparr>) s of ((calls, exit), s') \<Rightarrow>
           (let rec = recordCalls (xe_accept x) 0 calls newRecorder
            in (\<lparr>ex_calls = sr_out rec, ex_exit = exit, ex_dump = exchangeDump x r reqBody rec\<rparr>, s'))))"

text \<open>What a client gets from the calls: the first status, 200 if a body comes first, and the text.\<close>

fun sentStatus :: "wcall list \<Rightarrow> int" where
  "sentStatus (WHeader code # _) = code"
| "sentStatus _ = 200"

fun sentBody :: "wcall list \<Rightarrow> string" where
  "sentBody [] = []"
| "sentBody (WHeader _ # cs) = sentBody cs"
| "sentBody (WBody b # cs) = b @ sentBody cs"

definition callsOf :: "response \<Rightarrow> wcall list" where
  "callsOf rs = (if rs_status rs = 200 then [WBody (rs_text rs)] else [WHeader (rs_status rs), WBody (rs_text rs)])"

lemma sent_callsOf: "sentStatus (callsOf rs) = rs_status rs" "sentBody (callsOf rs) = rs_text rs"
  by (simp_all add: callsOf_def)

subsection \<open>Facts\<close>

lemma recWrite_fields [simp]:
  "sr_out (recWrite n b r) = sr_out r @ [WBody b]" "sr_status (recWrite n b r) = sr_status r"
  by (simp_all add: recWrite_def Let_def)

lemma recordCalls_out: "sr_out (recordCalls accept k cs r) = sr_out r @ cs"
  by (induction accept k cs r rule: recordCalls.induct) (simp_all add: recWriteHeader_def)

lemma recordCalls_status:
  "sr_status (recordCalls accept k cs r) =
     (case rev (List.map_filter (\<lambda>c. case c of WHeader code \<Rightarrow> Some code | WBody _ \<Rightarrow> None) cs) of
        [] \<Rightarrow> sr_status r | code # _ \<Rightarrow> code)"
  by (induction accept k cs r rule: recordCalls.induct)
    (auto simp: recWriteHeader_def List.map_filter_simps split: list.split)

lemma multiReader_readLimited: "readLimited n b = (bs, rest) \<Longrightarrow> multiReader bs rest = b"
  by (cases b) auto

lemma logMiddleware_eq:
  "logMiddleware x next r s =
     (let ((calls, exit), s') = next r s; rec = recordCalls (xe_accept x) 0 calls newRecorder
      in (\<lparr>ex_calls = calls, ex_exit = exit,
           ex_dump = exchangeDump x r (fst (readLimited (maxLogBody + 1) (rq_body r))) rec\<rparr>, s'))"
  by (cases "readLimited (maxLogBody + 1) (rq_body r)"; cases "next r s")
    (auto simp: logMiddleware_def multiReader_readLimited recordCalls_out newRecorder_def split: prod.splits)

text \<open>The recorder keeps everything up to the write that passes the limit, and nothing after it.\<close>

lemma recordCalls_full:
  "maxLogBody < length (sr_body r) \<Longrightarrow> sr_body (recordCalls accept k cs r) = sr_body r"
  by (induction accept k cs r rule: recordCalls.induct) (simp_all add: recWriteHeader_def recWrite_def)

lemma recWrite_all:
  "length b \<le> n \<Longrightarrow> length (sr_body r) \<le> maxLogBody \<Longrightarrow> sr_body (recWrite n b r) = sr_body r @ b"
  by (cases b) (auto simp: recWrite_def Let_def)

lemma recordCalls_body:
  assumes "\<And>i b. WBody b \<in> set cs \<Longrightarrow> length b \<le> accept i"
  shows "\<exists>j. sr_body (recordCalls accept k cs r) = sr_body r @ take j (sentBody cs)
    \<and> (length (sentBody cs) \<le> j \<or> maxLogBody < length (sr_body r) + j)"
  using assms
proof (induction accept k cs r rule: recordCalls.induct)
  case (3 accept k b cs r)
  show ?case
  proof (cases "length (sr_body r) \<le> maxLogBody")
    case True
    let ?r = "recWrite (accept k) b r"
    have b: "sr_body ?r = sr_body r @ b" by (rule recWrite_all) (use "3.prems" True in auto)
    have "\<exists>j. sr_body (recordCalls accept (Suc k) cs ?r) = sr_body ?r @ take j (sentBody cs)
        \<and> (length (sentBody cs) \<le> j \<or> maxLogBody < length (sr_body ?r) + j)"
      by (rule "3.IH", rule "3.prems") simp
    then obtain j where j: "sr_body (recordCalls accept (Suc k) cs ?r) = sr_body ?r @ take j (sentBody cs)"
        "length (sentBody cs) \<le> j \<or> maxLogBody < length (sr_body ?r) + j" by blast
    then show ?thesis by (intro exI [of _ "length b + j"]) (auto simp: b)
  next
    case False
    then have "sr_body (recordCalls accept k (WBody b # cs) r) = sr_body r"
      by (intro recordCalls_full) simp
    with False show ?thesis by (intro exI [of _ 0]) simp
  qed
qed (auto simp: recWriteHeader_def)

lemma truncate_take:
  "length s \<le> maxLogBody \<Longrightarrow> truncateBody s n = s"
  "maxLogBody < length s \<Longrightarrow> truncateBody s n = take maxLogBody s @ ''... (truncated, '' @ itoa n @ '' bytes total)''"
  by (simp_all add: truncateBody_def)

subsection \<open>Properties\<close>

text \<open>C36 The middleware is transparent: the wrapped handler gets the request with its whole body, valid or
  failing, and the writer, the exit (a panic included) and the state are those of the bare handler.\<close>

theorem middleware_transparent:
  "ex_calls (fst (logMiddleware x next r s)) = fst (fst (next r s))
   \<and> ex_exit (fst (logMiddleware x next r s)) = snd (fst (next r s))
   \<and> snd (logMiddleware x next r s) = snd (next r s)"
  by (simp add: logMiddleware_eq Let_def split: prod.splits)

text \<open>What the dump shows of a response: all of it up to 1024 bytes; of a longer one its first 1024
  bytes and a notice, whose "total" is the number of bytes captured, more than 1024 but at most those
  sent.\<close>

lemma dump_shows_response:
  assumes "\<And>i b. WBody b \<in> set cs \<Longrightarrow> length b \<le> accept i"
    "body = sr_body (recordCalls accept 0 cs newRecorder)"
  shows "truncateBody body (int (length body)) =
      (if length (sentBody cs) \<le> maxLogBody then sentBody cs
       else take maxLogBody (sentBody cs) @ ''... (truncated, '' @ itoa (int (length body)) @ '' bytes total)'')
    \<and> length body \<le> length (sentBody cs)
    \<and> (length (sentBody cs) \<le> maxLogBody \<or> maxLogBody < length body)"
proof -
  obtain j where j: "body = take j (sentBody cs)" "length (sentBody cs) \<le> j \<or> maxLogBody < j"
    using recordCalls_body [of cs accept 0 newRecorder] assms by (auto simp: newRecorder_def)
  show ?thesis
  proof (cases "length (sentBody cs) \<le> maxLogBody")
    case True
    then have "body = sentBody cs" using j by auto
    with True show ?thesis by (simp add: truncate_take)
  next
    case False
    then have "maxLogBody < length body" "take maxLogBody body = take maxLogBody (sentBody cs)"
      using j by (auto simp: min_def)
    with False show ?thesis using j(1) by (simp add: truncate_take)
  qed
qed

end
