(* ===== verification/Example_Commands.thy ===== *)
theory Example_Commands
  imports Example_Logging Adms_System
begin

section \<open>The command API (\<open>examples/commands/main.go\<close>)\<close>

text \<open>
  A REST interface over the server: every endpoint checks the device, decodes its JSON body and
  queues one command.  Handlers take the serial number of the path (\<open>r.PathValue("sn")\<close>) and answer
  with a status and a JSON value, which is one of the source's response structs; the text
  \<open>encoding/json\<close> prints for it, and the way it reads request bodies, are arguments (\<open>json_lib\<close>).
\<close>

subsection \<open>Requests and responses\<close>

record userRequest =
  ur_PIN :: string
  ur_Name :: string
  ur_Privilege :: int
  ur_Card :: string

text \<open>The structs with one text field: \<open>deleteUserRequest\<close>, \<open>rawCommandRequest\<close>,
  \<open>getOptionRequest\<close> and \<open>shellRequest\<close>.\<close>

datatype textRequest = TextRequest (tr_text: string)

text \<open>\<open>LastActivity\<close> is the clock reading; its formatting is left to the printer.\<close>

record deviceEntry =
  de_SerialNumber :: string
  de_LastActivity :: int
  de_Online :: bool
  de_Options :: info
  de_Timezone :: string
  de_PendingCmds :: nat

datatype apiBody =
    ApiError string
  | CommandResponse string string string
  | DeviceEntry deviceEntry
  | DevicesResponse nat "deviceEntry list"

text \<open>\<open>encoding/json\<close>: the text of a value, and decoding a body, to the error text or the struct.  The
  text structs are decoded under the name of their field.\<close>

record json_lib =
  jl_encode :: "apiBody \<Rightarrow> string"
  jl_user :: "req_body \<Rightarrow> string + userRequest"
  jl_text :: "string \<Rightarrow> req_body \<Rightarrow> string + textRequest"

datatype reply = ReplyJSON int apiBody | ReplyText response | ReplyPanic

definition writeJSON :: "int \<Rightarrow> apiBody \<Rightarrow> reply" where
  "writeJSON status v = ReplyJSON status v"

definition writeError :: "int \<Rightarrow> string \<Rightarrow> reply" where
  "writeError status msg = writeJSON status (ApiError msg)"

definition writeCommandOK :: "string \<Rightarrow> string \<Rightarrow> reply" where
  "writeCommandOK sn cmd = writeJSON 200 (CommandResponse ''queued'' sn cmd)"

definition decodeJSON :: "(req_body \<Rightarrow> string + 'a) \<Rightarrow> request \<Rightarrow> reply + 'a" where
  "decodeJSON decode r =
     (case decode (rq_body r) of
        Inl err \<Rightarrow> Inl (writeError 400 (''invalid JSON body: '' @ err))
      | Inr dst \<Rightarrow> Inr dst)"

definition requireDevice_api :: "string \<Rightarrow> ADMSServer \<Rightarrow> reply + string" where
  "requireDevice_api sn s =
     (if sn = [] then Inl (writeError 400 ''missing device serial number'')
      else if GetDevice sn s = None then Inl (writeError 404 (''device '' @ sn @ '' not found''))
      else Inr sn)"

text \<open>The reply when the command was not queued.\<close>

definition sendOrFail :: "string \<Rightarrow> adms_error option \<Rightarrow> reply option" where
  "sendOrFail sn err =
     (case err of
        None \<Rightarrow> None
      | Some e \<Rightarrow>
          Some (if e = ErrCommandQueueFull then writeError 503 (''command queue full for device '' @ sn)
                else writeError 500 (Error e)))"

definition ignoreID :: "send_result \<Rightarrow> adms_error option \<times> ADMSServer" where
  "ignoreID res = snd res"

definition queueOrFail :: "string \<Rightarrow> string \<Rightarrow> ADMSServer \<Rightarrow> reply option \<times> ADMSServer" where
  "queueOrFail sn cmd s =
     (case QueueCommand sn cmd s of (_, err, s') \<Rightarrow> (sendOrFail sn err, s'))"

subsection \<open>Command handlers\<close>

text \<open>\<open>ae_now\<close> is the wall clock printed as \<open>2006-01-02 15:04:05\<close>, \<open>ae_clock\<close> its reading when the handler
  looks at a device, \<open>ae_order\<close> the order of a listing.\<close>

record api_env =
  ae_now :: string
  ae_clock :: "string \<Rightarrow> int"
  ae_order :: "string list"

type_synonym api_handler = "api_env \<Rightarrow> string \<Rightarrow> request \<Rightarrow> ADMSServer \<Rightarrow> reply \<times> ADMSServer"

text \<open>The end of every handler: the failure, or the acknowledgement under the name \<open>cmd\<close>.\<close>

definition acknowledge :: "string \<Rightarrow> string \<Rightarrow> reply option \<times> ADMSServer \<Rightarrow> reply \<times> ADMSServer" where
  "acknowledge sn cmd res =
     (case res of
        (Some rp, s') \<Rightarrow> (rp, s')
      | (None, s') \<Rightarrow> (writeCommandOK sn cmd, s'))"

definition checkSend :: "string \<Rightarrow> adms_error option \<times> ADMSServer \<Rightarrow> reply option \<times> ADMSServer" where
  "checkSend sn res = (sendOrFail sn (fst res), snd res)"

definition withDevice :: "(string \<Rightarrow> ADMSServer \<Rightarrow> reply \<times> ADMSServer) \<Rightarrow> string \<Rightarrow> ADMSServer \<Rightarrow> reply \<times> ADMSServer" where
  "withDevice body sn s = (case requireDevice_api sn s of Inl rp \<Rightarrow> (rp, s) | Inr sn' \<Rightarrow> body sn' s)"

text \<open>The handlers that queue a fixed text.\<close>

definition queueFixed :: "string \<Rightarrow> string \<Rightarrow> ADMSServer \<Rightarrow> reply \<times> ADMSServer" where
  "queueFixed cmd = withDevice (\<lambda>sn s. acknowledge sn cmd (queueOrFail sn cmd s))"

definition handleReboot :: api_handler where
  "handleReboot e sn r s = queueFixed ''REBOOT'' sn s"

definition handleInfo :: api_handler where
  "handleInfo e sn r s =
     withDevice (\<lambda>sn s. acknowledge sn ''INFO'' (checkSend sn (ignoreID (SendInfoCommand sn s)))) sn s"

definition handleSyncTime :: api_handler where
  "handleSyncTime e sn r s = queueFixed (''SET OPTION ServerLocalTime='' @ ae_now e) sn s"

definition handleClearData :: api_handler where
  "handleClearData e sn r s = queueFixed ''CLEAR DATA'' sn s"

definition handleClearLog :: api_handler where
  "handleClearLog e sn r s = queueFixed ''CLEAR LOG'' sn s"

definition handleAddUser :: "json_lib \<Rightarrow> api_handler" where
  "handleAddUser lib e sn r s =
     withDevice (\<lambda>sn s.
       (case decodeJSON (jl_user lib) r of
          Inl rp \<Rightarrow> (rp, s)
        | Inr req \<Rightarrow>
            if ur_PIN req = [] then (writeError 400 ''pin is required'', s)
            else acknowledge sn ''DATA UPDATE USERINFO'' (checkSend sn (ignoreID
              (SendUserAddCommand sn (ur_PIN req) (ur_Name req) (ur_Privilege req) (ur_Card req) s))))) sn s"

text \<open>A body with one field: its name, and what is done with its value when it is not empty.\<close>

definition withText :: "json_lib \<Rightarrow> string \<Rightarrow> (string \<Rightarrow> string \<Rightarrow> ADMSServer \<Rightarrow> reply \<times> ADMSServer)
    \<Rightarrow> string \<Rightarrow> request \<Rightarrow> ADMSServer \<Rightarrow> reply \<times> ADMSServer" where
  "withText lib field body sn r s =
     withDevice (\<lambda>sn s.
       (case decodeJSON (jl_text lib field) r of
          Inl rp \<Rightarrow> (rp, s)
        | Inr req \<Rightarrow>
            if tr_text req = [] then (writeError 400 (field @ '' is required''), s)
            else body sn (tr_text req) s)) sn s"

definition handleDeleteUser :: "json_lib \<Rightarrow> api_handler" where
  "handleDeleteUser lib e sn r s =
     withText lib ''pin'' (\<lambda>sn pin s.
       acknowledge sn ''DATA DELETE USERINFO'' (checkSend sn (ignoreID (SendUserDeleteCommand sn pin s)))) sn r s"

definition handleOpenDoor :: api_handler where
  "handleOpenDoor e sn r s = queueFixed ''CONTROL DEVICE 1 1'' sn s"

definition handleCheck :: api_handler where
  "handleCheck e sn r s =
     withDevice (\<lambda>sn s. acknowledge sn ''CHECK'' (checkSend sn (ignoreID (SendCheckCommand sn s)))) sn s"

definition handleGetOption :: "json_lib \<Rightarrow> api_handler" where
  "handleGetOption lib e sn r s =
     withText lib ''key'' (\<lambda>sn key s.
       acknowledge sn (''GET OPTION FROM '' @ key) (checkSend sn (ignoreID (SendGetOptionCommand sn key s)))) sn r s"

definition handleShell :: "json_lib \<Rightarrow> api_handler" where
  "handleShell lib e sn r s =
     withText lib ''command'' (\<lambda>sn c s.
       acknowledge sn (''Shell '' @ c) (checkSend sn (ignoreID (SendShellCommand sn c s)))) sn r s"

definition handleQueryUsers :: api_handler where
  "handleQueryUsers e sn r s =
     withDevice (\<lambda>sn s. acknowledge sn ''DATA QUERY USERINFO''
       (checkSend sn (ignoreID (SendQueryUsersCommand sn s)))) sn s"

definition handleLog :: api_handler where
  "handleLog e sn r s =
     withDevice (\<lambda>sn s. acknowledge sn ''LOG'' (checkSend sn (ignoreID (SendLogCommand sn s)))) sn s"

definition handleRawCommand :: "json_lib \<Rightarrow> api_handler" where
  "handleRawCommand lib e sn r s =
     withText lib ''command'' (\<lambda>sn c s. acknowledge sn c (queueOrFail sn c s)) sn r s"

subsection \<open>Query handlers\<close>

text \<open>\<open>(*time.Location).String\<close>, which is \<open>UTC\<close> for nil.\<close>

definition zoneName :: "location option \<Rightarrow> string" where
  "zoneName l = (case l of None \<Rightarrow> ''UTC'' | Some l \<Rightarrow> loc_name l)"

definition deviceEntryOf :: "int \<Rightarrow> Device \<Rightarrow> ADMSServer \<Rightarrow> deviceEntry" where
  "deviceEntryOf now d s =
     \<lparr>de_SerialNumber = SerialNumber d, de_LastActivity = LastActivity d,
      de_Online = IsDeviceOnline now (SerialNumber d) s, de_Options = Options d,
      de_Timezone = zoneName (GetDeviceTimezone (SerialNumber d) s),
      de_PendingCmds = PendingCommandsCount (SerialNumber d) s\<rparr>"

definition handleListDevices :: "api_env \<Rightarrow> request \<Rightarrow> ADMSServer \<Rightarrow> reply \<times> ADMSServer" where
  "handleListDevices e r s =
     (let ds = ListDevices (ae_order e) s
      in (writeJSON 200 (DevicesResponse (length ds) (map (\<lambda>d. deviceEntryOf (ae_clock e (SerialNumber d)) d s) ds)), s))"

text \<open>\<open>handleDeviceDetail\<close> looks the device up twice: \<open>requireDevice\<close> sees the server \<open>s1\<close>, the second
  \<open>GetDevice\<close> and the rest see \<open>s2\<close>.  A nil device is dereferenced, which panics.\<close>

definition deviceDetailAt :: "api_env \<Rightarrow> string \<Rightarrow> ADMSServer \<Rightarrow> ADMSServer \<Rightarrow> reply" where
  "deviceDetailAt e sn s1 s2 =
     (case requireDevice_api sn s1 of
        Inl rp \<Rightarrow> rp
      | Inr sn' \<Rightarrow>
          (case GetDevice sn' s2 of
             None \<Rightarrow> ReplyPanic
           | Some d \<Rightarrow> writeJSON 200 (DeviceEntry
               \<lparr>de_SerialNumber = SerialNumber d, de_LastActivity = LastActivity d,
                de_Online = IsDeviceOnline (ae_clock e sn') sn' s2, de_Options = Options d,
                de_Timezone = zoneName (GetDeviceTimezone sn' s2),
                de_PendingCmds = PendingCommandsCount sn' s2\<rparr>)))"

definition handleDeviceDetail :: api_handler where
  "handleDeviceDetail e sn r s = (deviceDetailAt e sn s s, s)"

subsection \<open>Routes\<close>

text \<open>The command endpoints, by the path after the serial number.\<close>

definition commandRoute :: "json_lib \<Rightarrow> string list \<Rightarrow> api_handler option" where
  "commandRoute lib action =
     map_of
       [([''reboot''], handleReboot),
        ([''info''], handleInfo),
        ([''check''], handleCheck),
        ([''sync-time''], handleSyncTime),
        ([''clear-data''], handleClearData),
        ([''clear-log''], handleClearLog),
        ([''users''], handleAddUser lib),
        ([''users'', ''delete''], handleDeleteUser lib),
        ([''users'', ''query''], handleQueryUsers),
        ([''open-door''], handleOpenDoor),
        ([''get-option''], handleGetOption lib),
        ([''shell''], handleShell lib),
        ([''log''], handleLog),
        ([''command''], handleRawCommand lib)] action"

text \<open>A reply as calls on the writer; \<open>Encode\<close> ends the text with a newline.\<close>

fun replyCalls :: "json_lib \<Rightarrow> reply \<Rightarrow> wcall list \<times> cb_exit" where
  "replyCalls lib (ReplyJSON status v) = ([WHeader status, WBody (jl_encode lib v @ [NL])], Returned)"
| "replyCalls lib (ReplyText rs) = (callsOf rs, Returned)"
| "replyCalls lib ReplyPanic = ([], Panicked)"

text \<open>What the surroundings decide for one request.\<close>

record mux_env =
  mx_env :: env
  mx_api :: api_env
  mx_exchange :: exchange_env

definition logged :: "json_lib \<Rightarrow> mux_env \<Rightarrow> (request \<Rightarrow> ADMSServer \<Rightarrow> reply \<times> ADMSServer)
    \<Rightarrow> request \<Rightarrow> ADMSServer \<Rightarrow> exchange \<times> ADMSServer" where
  "logged lib m h = logMiddleware (mx_exchange m) (\<lambda>r s. case h r s of (rp, s') \<Rightarrow> (replyCalls lib rp, s'))"

text \<open>The mux's own answers.\<close>

definition unlogged :: "response \<Rightarrow> exchange" where
  "unlogged rs = \<lparr>ex_calls = callsOf rs, ex_exit = Returned, ex_dump = []\<rparr>"

text \<open>
  The routes of \<open>newMux\<close>.  \<open>segs\<close> is the path as \<open>http.ServeMux\<close> matches it: cut at the slashes
  after the first one, each segment unescaped; a wildcard matches a segment that is not empty.  Paths
  that are not clean, and \<open>/iclock\<close> itself, are redirected before.
\<close>

definition commandsMux :: "json_lib \<Rightarrow> marshal \<Rightarrow> mux_env \<Rightarrow> string list
    \<Rightarrow> request \<Rightarrow> ADMSServer \<Rightarrow> exchange \<times> ADMSServer" where
  "commandsMux lib mj m segs r s =
     (let notFound = (unlogged httpNotFound, s);
          badMethod = (unlogged (httpError (StatusText 405) 405), s);
          get = rq_method r \<in> {''GET'', ''HEAD''};
          post = rq_method r = ''POST''
      in (case segs of
            [] \<Rightarrow> notFound
          | seg # rest \<Rightarrow>
              if seg = ''iclock'' \<and> rest \<noteq> [] then
                logged lib m (\<lambda>r s. case ServeHTTP mj (mx_env m) r s of (rs, s') \<Rightarrow> (ReplyText rs, s')) r s
              else if seg = ''api'' \<and> rest = [''devices''] then
                (if get then logged lib m (handleListDevices (mx_api m)) r s else badMethod)
              else if seg = ''api'' \<and> 2 \<le> length rest \<and> hd rest = ''devices'' \<and> rest ! 1 \<noteq> [] then
                (let sn = rest ! 1; action = drop 2 rest
                 in if action = [] then
                      (if get then logged lib m (handleDeviceDetail (mx_api m) sn) r s else badMethod)
                    else (case commandRoute lib action of
                            None \<Rightarrow> notFound
                          | Some h \<Rightarrow> if post then logged lib m (h (mx_api m) sn) r s else badMethod))
              else notFound))"

subsection \<open>Start-up\<close>

text \<open>The options of \<open>run\<close>; the four callbacks print and return.\<close>

definition commandsServer :: "location \<Rightarrow> ADMSServer" where
  "commandsServer l = NewADMSServer l
     [OptEnableInspect, OptMaxCommandsPerDevice 50, OptOnDeviceInfo (Some (\<lambda>_ _. Returned)),
      OptOnAttendance (Some (\<lambda>_ _. Returned)), OptOnCommandResult (Some (\<lambda>_ _. Returned)),
      OptOnQueryUsers (Some (\<lambda>_ _. Returned))]"

text \<open>The devices flag, and the loop that registers them until one is refused.\<close>

definition flagDevices :: "string \<Rightarrow> string list" where
  "flagDevices flag = (if flag = [] then [] else Split CHR '','' flag)"

fun preRegister :: "int \<Rightarrow> string list \<Rightarrow> ADMSServer \<Rightarrow> (string \<times> adms_error) option \<times> ADMSServer" where
  "preRegister now [] s = (None, s)"
| "preRegister now (d # ds) s =
     (let sn = TrimSpace d in
      if sn = [] then preRegister now ds s
      else (case RegisterDevice now sn [] s of
              (Some err, s') \<Rightarrow> (Some (sn, err), s')
            | (None, s') \<Rightarrow> preRegister now ds s'))"

subsection \<open>What an endpoint promises\<close>

text \<open>The command an endpoint stands for, if its body is acceptable, \<open>now\<close> being the wall clock.\<close>

definition textField :: "json_lib \<Rightarrow> string \<Rightarrow> req_body \<Rightarrow> string option" where
  "textField lib field b =
     (case jl_text lib field b of
        Inl _ \<Rightarrow> None
      | Inr t \<Rightarrow> if tr_text t = [] then None else Some (tr_text t))"

definition userField :: "json_lib \<Rightarrow> req_body \<Rightarrow> userRequest option" where
  "userField lib b =
     (case jl_user lib b of Inl _ \<Rightarrow> None | Inr u \<Rightarrow> if ur_PIN u = [] then None else Some u)"

definition requested :: "json_lib \<Rightarrow> string \<Rightarrow> string list \<Rightarrow> req_body \<Rightarrow> string option" where
  "requested lib now action b =
     (if action = [''users''] then
        map_option (\<lambda>u. userAddText (ur_PIN u) (ur_Name u) (ur_Privilege u) (ur_Card u)) (userField lib b)
      else if action = [''users'', ''delete''] then
        map_option (append ''DATA DELETE USERINFO PIN='') (textField lib ''pin'' b)
      else if action = [''get-option''] then
        map_option (append ''GET OPTION FROM '') (textField lib ''key'' b)
      else if action = [''shell''] then map_option (append ''Shell '') (textField lib ''command'' b)
      else if action = [''command''] then textField lib ''command'' b
      else if action = [''sync-time''] then Some (''SET OPTION ServerLocalTime='' @ now)
      else map_of
        [([''reboot''], ''REBOOT''), ([''info''], ''INFO''), ([''check''], ''CHECK''),
         ([''clear-data''], ''CLEAR DATA''), ([''clear-log''], ''CLEAR LOG''),
         ([''users'', ''query''], ''DATA QUERY USERINFO''), ([''open-door''], ''CONTROL DEVICE 1 1''),
         ([''log''], ''LOG'')] action)"

text \<open>Status and effect of queueing it.\<close>

definition apiQueue :: "string \<Rightarrow> string \<Rightarrow> ADMSServer \<Rightarrow> int \<times> ADMSServer" where
  "apiQueue sn c s =
     (case QueueCommand sn c s of
        (_, None, t) \<Rightarrow> (200, t)
      | (_, Some err, t) \<Rightarrow> (if err = ErrCommandQueueFull then 503 else 500, t))"

definition apiSpec :: "string \<Rightarrow> string option \<Rightarrow> ADMSServer \<Rightarrow> int \<times> ADMSServer" where
  "apiSpec sn req s = (case req of None \<Rightarrow> (400, s) | Some c \<Rightarrow> apiQueue sn c s)"

fun replyStatus :: "reply \<Rightarrow> int" where
  "replyStatus (ReplyJSON status _) = status"
| "replyStatus (ReplyText rs) = rs_status rs"
| "replyStatus ReplyPanic = 0"

definition outcome :: "reply \<times> ADMSServer \<Rightarrow> int \<times> ADMSServer" where
  "outcome p = (replyStatus (fst p), snd p)"

lemmas write_defs = writeJSON_def writeError_def writeCommandOK_def

lemma outcome_pair [simp]: "outcome (rp, s) = (replyStatus rp, s)"
  by (simp add: outcome_def)

lemma outcome_write [simp]:
  "replyStatus (writeError st msg) = st" "replyStatus (writeCommandOK sn c) = 200"
  by (simp_all add: write_defs)

lemma outcome_send:
  "outcome (acknowledge sn cmd (checkSend sn res)) =
     (case fst res of None \<Rightarrow> 200 | Some e \<Rightarrow> if e = ErrCommandQueueFull then 503 else 500, snd res)"
  by (cases res; cases "fst res") (simp_all add: acknowledge_def checkSend_def sendOrFail_def)

lemma outcome_queue: "outcome (acknowledge sn cmd (checkSend sn (snd (QueueCommand sn c s)))) = apiQueue sn c s"
  by (simp add: outcome_send apiQueue_def split: prod.split option.split)

lemma queueOrFail_eq: "queueOrFail sn c s = checkSend sn (snd (QueueCommand sn c s))"
  by (simp add: queueOrFail_def checkSend_def split: prod.split)

text \<open>A field with a line break is refused by its own check or by that of \<open>QueueCommand\<close>, alike.\<close>

lemma apiQueue_refused: "CR \<in> set c \<or> NL \<in> set c \<Longrightarrow> apiQueue sn c s = (500, s)"
  by (cases "validateCommandField ''command'' c")
    (auto simp: apiQueue_def QueueCommand_def validateCommandField_None,
     auto simp: validateCommandField_def split: if_splits)

lemma validate_Some:
  "validateCommandField name v = Some e \<Longrightarrow> (CR \<in> set v \<or> NL \<in> set v) \<and> e \<noteq> ErrCommandQueueFull"
  using validateCommandField_None [of name v] by (auto simp: validateCommandField_def split: if_splits)

lemma outcome_sendField:
  "outcome (acknowledge sn cmd (checkSend sn (ignoreID (sendField name verb sn v s)))) = apiQueue sn (verb @ v) s"
proof (cases "validateCommandField name v")
  case None
  then show ?thesis by (simp add: sendField_def ignoreID_def outcome_queue)
next
  case (Some e)
  with validate_Some [OF Some] show ?thesis
    using apiQueue_refused [of "verb @ v" sn s] by (auto simp: sendField_def ignoreID_def outcome_send)
qed

lemma outcome_userAdd:
  "outcome (acknowledge sn cmd (checkSend sn (ignoreID (SendUserAddCommand sn pin name priv cardno s))))
    = apiQueue sn (userAddText pin name priv cardno) s"
proof (cases "checkFields [(''pin'', pin), (''name'', name), (''card'', cardno)]")
  case None
  then show ?thesis by (simp add: SendUserAddCommand_def ignoreID_def outcome_queue)
next
  case (Some e)
  then have "(CR \<in> set (userAddText pin name priv cardno) \<or> NL \<in> set (userAddText pin name priv cardno))
      \<and> e \<noteq> ErrCommandQueueFull"
    by (auto simp: userAddText_def dest: validate_Some split: option.splits)
  with Some show ?thesis
    using apiQueue_refused [of "userAddText pin name priv cardno" sn s]
    by (auto simp: SendUserAddCommand_def ignoreID_def outcome_send)
qed

text \<open>The device is checked first.\<close>

definition guardedSpec :: "string \<Rightarrow> string option \<Rightarrow> ADMSServer \<Rightarrow> int \<times> ADMSServer" where
  "guardedSpec sn req s =
     (if sn = [] then (400, s) else if fmlookup (devices s) sn = None then (404, s) else apiSpec sn req s)"

lemma outcome_withDevice:
  assumes "\<And>s. outcome (body sn s) = apiSpec sn req s"
  shows "outcome (withDevice body sn s) = guardedSpec sn req s"
  using assms by (simp add: withDevice_def requireDevice_api_def guardedSpec_def GetDevice_def)

lemma outcome_withText:
  assumes "\<And>v s. outcome (body sn v s) = apiQueue sn (f v) s"
  shows "outcome (withText lib field body sn r s) = guardedSpec sn (map_option f (textField lib field (rq_body r))) s"
  unfolding withText_def
  by (rule outcome_withDevice) (simp add: decodeJSON_def textField_def apiSpec_def assms split: sum.split)

lemma outcome_fixed: "outcome (queueFixed c sn s) = guardedSpec sn (Some c) s"
  unfolding queueFixed_def
  by (rule outcome_withDevice) (simp add: queueOrFail_eq outcome_queue apiSpec_def)

lemma outcome_sender:
  assumes "\<And>s. send sn s = QueueCommand sn c s"
  shows "outcome (withDevice (\<lambda>sn s. acknowledge sn name (checkSend sn (ignoreID (send sn s)))) sn s)
    = guardedSpec sn (Some c) s"
  by (rule outcome_withDevice) (simp add: assms ignoreID_def outcome_queue apiSpec_def)

lemmas handle_defs = handleReboot_def handleInfo_def handleCheck_def handleSyncTime_def handleClearData_def
  handleClearLog_def handleOpenDoor_def handleQueryUsers_def handleLog_def
lemmas handle_body_defs = handleDeleteUser_def handleGetOption_def handleShell_def handleRawCommand_def

lemma outcome_addUser:
  "outcome (handleAddUser lib e sn r s) = guardedSpec sn (requested lib now [''users''] (rq_body r)) s"
  unfolding handleAddUser_def
  by (rule outcome_withDevice)
    (simp add: decodeJSON_def requested_def userField_def apiSpec_def outcome_userAdd split: sum.split)

lemma outcome_plain:
  "outcome (handleReboot e sn r s) = guardedSpec sn (Some ''REBOOT'') s"
  "outcome (handleInfo e sn r s) = guardedSpec sn (Some ''INFO'') s"
  "outcome (handleCheck e sn r s) = guardedSpec sn (Some ''CHECK'') s"
  "outcome (handleSyncTime e sn r s) = guardedSpec sn (Some (''SET OPTION ServerLocalTime='' @ ae_now e)) s"
  "outcome (handleClearData e sn r s) = guardedSpec sn (Some ''CLEAR DATA'') s"
  "outcome (handleClearLog e sn r s) = guardedSpec sn (Some ''CLEAR LOG'') s"
  "outcome (handleOpenDoor e sn r s) = guardedSpec sn (Some ''CONTROL DEVICE 1 1'') s"
  "outcome (handleQueryUsers e sn r s) = guardedSpec sn (Some ''DATA QUERY USERINFO'') s"
  "outcome (handleLog e sn r s) = guardedSpec sn (Some ''LOG'') s"
  unfolding handle_defs
  by (simp_all only: outcome_fixed outcome_sender [OF SendInfoCommand_def] outcome_sender [OF SendCheckCommand_def]
      outcome_sender [OF SendQueryUsersCommand_def] outcome_sender [OF SendLogCommand_def])

lemma outcome_body:
  "outcome (handleDeleteUser lib e sn r s)
    = guardedSpec sn (map_option (append ''DATA DELETE USERINFO PIN='') (textField lib ''pin'' (rq_body r))) s"
  "outcome (handleGetOption lib e sn r s)
    = guardedSpec sn (map_option (append ''GET OPTION FROM '') (textField lib ''key'' (rq_body r))) s"
  "outcome (handleShell lib e sn r s)
    = guardedSpec sn (map_option (append ''Shell '') (textField lib ''command'' (rq_body r))) s"
  "outcome (handleRawCommand lib e sn r s)
    = guardedSpec sn (map_option (\<lambda>c. c) (textField lib ''command'' (rq_body r))) s"
  unfolding handle_body_defs
  by (rule outcome_withText, simp add: SendUserDeleteCommand_def SendGetOptionCommand_def SendShellCommand_def
      outcome_sendField outcome_queue queueOrFail_eq)+

lemma route_cases:
  assumes "commandRoute lib action = Some h"
  shows "outcome (h e sn r s) = guardedSpec sn (requested lib (ae_now e) action (rq_body r)) s"
proof -
  have "(action, h) \<in> set
     [([''reboot''], handleReboot), ([''info''], handleInfo), ([''check''], handleCheck),
      ([''sync-time''], handleSyncTime), ([''clear-data''], handleClearData), ([''clear-log''], handleClearLog),
      ([''users''], handleAddUser lib), ([''users'', ''delete''], handleDeleteUser lib),
      ([''users'', ''query''], handleQueryUsers), ([''open-door''], handleOpenDoor),
      ([''get-option''], handleGetOption lib), ([''shell''], handleShell lib), ([''log''], handleLog),
      ([''command''], handleRawCommand lib)]"
    using assms unfolding commandRoute_def by (rule map_of_SomeD)
  then show ?thesis
    unfolding list.set insert_iff empty_iff prod.inject
    by (elim disjE conjE; simp only: outcome_plain outcome_body outcome_addUser [of lib e sn r s "ae_now e"])
      (simp_all add: requested_def option.map_ident)
qed

subsection \<open>Effects\<close>

lemma apiQueue_cases:
  obtains (queued) i t where "apiQueue sn c s = (200, t)" "QueueCommand sn c s = (i, None, t)"
  | (failed) st t where "apiQueue sn c s = (st, t)" "st \<in> {500, 503}" "t = s \<or> t = s\<lparr>cmdID := cmdID s + 1\<rparr>"
proof (cases rule: QueueCommand_cases [of sn c s])
  case (refused err)
  then show ?thesis by (intro failed [of "if err = ErrCommandQueueFull then 503 else 500" s]) (auto simp: apiQueue_def)
next
  case full
  then show ?thesis by (intro failed [of 503 "s\<lparr>cmdID := cmdID s + 1\<rparr>"]) (auto simp: apiQueue_def)
next
  case q: queued
  show ?thesis by (rule queued) (use q(1) in \<open>auto simp: apiQueue_def\<close>)
qed

lemma guardedSpec_failed:
  assumes "guardedSpec sn req s = (st, t)" "st \<noteq> 200"
  shows "st \<in> {400, 404, 500, 503} \<and> (t = s \<or> t = s\<lparr>cmdID := cmdID s + 1\<rparr>)"
proof (cases req)
  case (Some c)
  then show ?thesis
    using assms by (cases rule: apiQueue_cases [of sn c s]) (auto simp: guardedSpec_def apiSpec_def split: if_splits)
qed (use assms in \<open>auto simp: guardedSpec_def apiSpec_def split: if_splits\<close>)

lemma apiQueue_state: "snd (apiQueue sn c s) = snd (snd (QueueCommand sn c s))"
  by (auto simp: apiQueue_def split: prod.split option.split)

lemma guardedSpec_state:
  "snd (guardedSpec sn req s) = s \<or> (\<exists>c. snd (guardedSpec sn req s) = snd (snd (QueueCommand sn c s)))"
  by (auto simp: guardedSpec_def apiSpec_def apiQueue_state split: option.split)

lemma guardedSpec_ok:
  assumes "guardedSpec sn req s = (200, t)"
  obtains c i where "req = Some c" "QueueCommand sn c s = (i, None, t)" "fmlookup (devices s) sn \<noteq> None"
proof (cases req)
  case (Some c)
  then show ?thesis
    using assms that by (cases rule: apiQueue_cases [of sn c s]) (auto simp: guardedSpec_def apiSpec_def split: if_splits)
qed (use assms in \<open>auto simp: guardedSpec_def apiSpec_def split: if_splits\<close>)

subsection \<open>The API as a whole\<close>

lemma logged_eq:
  "snd (logged lib m h r s) = snd (h r s)"
  "ex_calls (fst (logged lib m h r s)) = fst (replyCalls lib (fst (h r s)))"
  by (auto simp: logged_def logMiddleware_eq Let_def split: prod.splits)

lemma commandRoute_nonempty: "commandRoute lib action = Some h \<Longrightarrow> action \<noteq> []"
  by (auto simp: commandRoute_def)

lemma mux_command:
  assumes "commandRoute lib action = Some h" "rq_method r = ''POST''" "sn \<noteq> []"
  shows "commandsMux lib mj m (''api'' # ''devices'' # sn # action) r s = logged lib m (h (mx_api m) sn) r s"
  using assms commandRoute_nonempty [OF assms(1)] by (simp add: commandsMux_def Let_def)

lemma sent_replyCalls: "replyStatus rp \<noteq> 0 \<Longrightarrow> sentStatus (fst (replyCalls lib rp)) = replyStatus rp"
  by (cases rp) (simp_all add: sent_callsOf)

lemma guardedSpec_status: "fst (guardedSpec sn req s) \<in> {200, 400, 404, 500, 503}"
  using guardedSpec_failed [of sn req s] by (cases "guardedSpec sn req s") fastforce

text \<open>What a client of a command endpoint sees, and what happens to the server.\<close>

lemma mux_command_outcome:
  assumes "commandRoute lib action = Some h" "rq_method r = ''POST''" "sn \<noteq> []"
    "commandsMux lib mj m (''api'' # ''devices'' # sn # action) r s = (ex, t)"
  shows "(sentStatus (ex_calls ex), t) = guardedSpec sn (requested lib (ae_now (mx_api m)) action (rq_body r)) s"
proof -
  let ?p = "h (mx_api m) sn r s"
  have o: "outcome ?p = guardedSpec sn (requested lib (ae_now (mx_api m)) action (rq_body r)) s"
    by (rule route_cases [OF assms(1)])
  then have "replyStatus (fst ?p) = fst (guardedSpec sn (requested lib (ae_now (mx_api m)) action (rq_body r)) s)"
    by (metis fst_conv outcome_def)
  then have "replyStatus (fst ?p) \<noteq> 0"
    using guardedSpec_status [of sn "requested lib (ae_now (mx_api m)) action (rq_body r)" s] by auto
  moreover have "ex_calls ex = fst (replyCalls lib (fst ?p))" "t = snd ?p"
    using assms(4) logged_eq [of lib m "h (mx_api m) sn" r s] unfolding mux_command [OF assms(1-3)] by simp_all
  ultimately show ?thesis using o sent_replyCalls by (simp add: outcome_def)
qed

text \<open>Every request, to any route, is a request to the server, one \<open>QueueCommand\<close>, or leaves the state.\<close>

lemma mux_state:
  "snd (commandsMux lib mj m segs r s) = s
   \<or> snd (commandsMux lib mj m segs r s) = snd (ServeHTTP mj (mx_env m) r s)
   \<or> (\<exists>sn c. snd (commandsMux lib mj m segs r s) = snd (snd (QueueCommand sn c s)))"
  (is "?P (snd (commandsMux lib mj m segs r s))")
proof (cases "\<exists>sn action h. segs = ''api'' # ''devices'' # sn # action \<and> sn \<noteq> []
    \<and> commandRoute lib action = Some h \<and> rq_method r = ''POST''")
  case True
  then obtain sn action h where r: "segs = ''api'' # ''devices'' # sn # action" "sn \<noteq> []"
    "commandRoute lib action = Some h" "rq_method r = ''POST''" by blast
  obtain ex t where m: "commandsMux lib mj m segs r s = (ex, t)" by (cases "commandsMux lib mj m segs r s")
  from mux_command_outcome [OF r(3,4,2) m [unfolded r(1)]]
  have g: "guardedSpec sn (requested lib (ae_now (mx_api m)) action (rq_body r)) s = (sentStatus (ex_calls ex), t)"
    by simp
  show ?thesis
    using guardedSpec_state [of sn "requested lib (ae_now (mx_api m)) action (rq_body r)" s]
    unfolding g m snd_conv by blast
next
  case False
  show ?thesis
  proof (cases segs)
    case (Cons seg rest)
    have command: "commandRoute lib (drop 2 rest) = None \<or> rq_method r \<noteq> ''POST''"
      if "2 \<le> length rest" "hd rest = ''devices''" "rest ! 1 \<noteq> []" "seg = ''api''"
      using False Cons that by (cases rest; cases "tl rest") auto
    show ?thesis
      using command
      by (auto simp: commandsMux_def Cons Let_def logged_eq handleListDevices_def handleDeviceDetail_def
          split: option.split prod.split)
  qed (simp add: commandsMux_def)
qed

lemma sys_inv_mux:
  assumes "sys_inv s" "id_room s"
  shows "sys_inv (snd (commandsMux lib mj m segs r s))"
  using mux_state [of lib mj m segs r s] inv.P_ServeHTTP [OF assms(1), of r mj "mx_env m"]
    sys_inv_QueueCommand [OF assms] assms(1)
  by auto

subsection \<open>Properties\<close>

text \<open>C27 Every command endpoint does what it promises: with an unknown device it answers 404, with a
  body it cannot read or that lacks its field 400, with a full queue 503, with a forbidden line break 500,
  each time without queueing anything; otherwise it answers 200 and has queued exactly the command of the
  endpoint for the device of the path.\<close>

theorem api_endpoint:
  assumes "commandRoute lib action = Some h"
  shows "outcome (h e sn r s) =
    (if sn = [] then (400, s)
     else if fmlookup (devices s) sn = None then (404, s)
     else (case requested lib (ae_now e) action (rq_body r) of
             None \<Rightarrow> (400, s)
           | Some c \<Rightarrow>
               (case QueueCommand sn c s of
                  (_, None, t) \<Rightarrow> (200, t)
                | (_, Some err, t) \<Rightarrow> (if err = ErrCommandQueueFull then 503 else 500, t))))"
  unfolding route_cases [OF assms] guardedSpec_def apiSpec_def apiQueue_def ..

text \<open>C19 From the API to the device: when a command endpoint has answered 200, the next poll of the device
  hands over what was queued before and, last, exactly the command of that request.\<close>

theorem command_reaches_device:
  assumes "sys_inv s" "id_room s" "commandRoute lib action = Some h" "rq_method r = ''POST''"
    "commandsMux lib mj m (''api'' # ''devices'' # sn # action) r s = (ex, t)" "sentStatus (ex_calls ex) = 200"
    "rq_method p = ''GET''" "requireDevice e p t = (Inr sn, u)" "HandleGetRequest e p t = (resp, v)"
  shows "\<exists>c i. requested lib (ae_now (mx_api m)) action (rq_body r) = Some c
    \<and> map readWire (butlast (Split NL (rs_text resp))) = map Some (queueOf sn s @ [\<lparr>ce_ID = i, ce_Command = c\<rparr>])
    \<and> queueOf sn v = []"
proof -
  have sn: "sn \<noteq> []"
    using requireDevice_Inr(1) [OF assms(8)] by (auto simp: requireSerialNumber_def Let_def split: if_splits)
  from mux_command_outcome [OF assms(3,4) sn assms(5)] assms(6)
  have g: "guardedSpec sn (requested lib (ae_now (mx_api m)) action (rq_body r)) s = (200, t)" by simp
  obtain c i where c: "requested lib (ae_now (mx_api m)) action (rq_body r) = Some c"
      "QueueCommand sn c s = (i, None, t)"
    by (rule guardedSpec_ok [OF g])
  have q: "queueOf sn t = queueOf sn s @ [\<lparr>ce_ID = i, ce_Command = c\<rparr>]" by (rule mail.put_ok [OF c(2)])
  have "sys_inv t" using sys_inv_QueueCommand [OF assms(1,2), of sn c] c(2) by simp
  from poll_answer [OF this assms(7-9)] c(1) q show ?thesis by auto
qed

text \<open>Requests one after another.\<close>

definition serve :: "json_lib \<Rightarrow> marshal \<Rightarrow> mux_env \<times> string list \<times> request \<Rightarrow> ADMSServer \<Rightarrow> ADMSServer" where
  "serve lib mj x s = snd (commandsMux lib mj (fst x) (fst (snd x)) (snd (snd x)) s)"

lemma cmdID_ServeHTTP: "cmdID (snd (ServeHTTP mj e r s)) = cmdID s"
proof -
  have "settings (snd (ServeHTTP mj e r s)) = settings s" by (rule conf.P_ServeHTTP) simp_all
  then show ?thesis by (rule settings_eqD(1))
qed

interpretation api: counted_machine "serve lib mj" for lib mj
proof unfold_locales
  fix s x assume "sys_inv s" "id_room s"
  then show "sys_inv (serve lib mj x s)" unfolding serve_def by (rule sys_inv_mux)
next
  fix s x
  show "cmdID (serve lib mj x s) \<in> {cmdID s, cmdID s + 1}"
    using mux_state [of lib mj "fst x" "fst (snd x)" "snd (snd x)" s] cmdID_QueueCommand cmdID_ServeHTTP
    unfolding serve_def by (elim disjE exE) simp_all
qed

lemma max_QueueCommand: "maxCommandsPerDevice (snd (snd (QueueCommand sn c s))) = maxCommandsPerDevice s"
  by (cases rule: QueueCommand_cases [of sn c s]) auto

lemma max_serve: "maxCommandsPerDevice (serve lib mj x s) = maxCommandsPerDevice s"
proof -
  have "settings (snd (ServeHTTP mj e r s)) = settings s" for e r by (rule conf.P_ServeHTTP) simp_all
  then have "maxCommandsPerDevice (snd (ServeHTTP mj e r s)) = maxCommandsPerDevice s" for e r
    by (rule settings_eqD(3))
  then show ?thesis
    using mux_state [of lib mj "fst x" "fst (snd x)" "snd (snd x)" s] max_QueueCommand
    unfolding serve_def by (elim disjE exE) simp_all
qed

lemma max_run: "maxCommandsPerDevice (fold (serve lib mj) xs s) = maxCommandsPerDevice s"
  by (induction xs arbitrary: s) (simp_all add: max_serve)

lemma preRegister_keeps:
  "sys_inv s \<Longrightarrow> sys_inv (snd (preRegister now ds s)) \<and> rest_of (snd (preRegister now ds s)) = rest_of s"
proof (induction now ds s rule: preRegister.induct)
  case (2 now d ds s)
  have "sys_inv (snd (RegisterDevice now (TrimSpace d) [] s))"
    by (rule sys_inv_RegisterDevice [OF "2.prems"]) (simp add: keeps_serial_def)
  then show ?case
    using "2.IH" "2.prems" rest_of_RegisterDevice [of now "TrimSpace d" "[]" s]
    by (auto simp: Let_def split: prod.splits option.splits)
qed simp

lemma commandsServer_start:
  "sys_inv (commandsServer l)" "cmdID (commandsServer l) = 0" "maxCommandsPerDevice (commandsServer l) = 50"
proof -
  show "sys_inv (commandsServer l)" unfolding commandsServer_def by (rule sys_inv_New)
  show "cmdID (commandsServer l) = 0"
    using pristine_New unfolding commandsServer_def by (simp add: pristine_def)
  show "maxCommandsPerDevice (commandsServer l) = 50"
    by (simp add: commandsServer_def NewADMSServer_def WithOnQueryUsers_def WithOnCommandResult_def
        WithOnAttendance_def WithOnDeviceInfo_def WithMaxCommandsPerDevice_def WithEnableInspect_def)
qed

text \<open>C31 The command server, started with any devices flag and serving any requests on any of its
  routes: the invariant of the server holds throughout, and no device ever has more than 50 commands
  queued or waiting for confirmation.\<close>

theorem commands_server_bounded:
  assumes "length xs < 9223372036854775808"
    "s = fold (serve lib mj) xs (snd (preRegister now (flagDevices flag) (commandsServer l)))"
  shows "sys_inv s \<and> outstanding sn s \<le> 50"
proof -
  let ?s = "snd (preRegister now (flagDevices flag) (commandsServer l))"
  have p: "sys_inv ?s" "rest_of ?s = rest_of (commandsServer l)"
    using preRegister_keeps [OF commandsServer_start(1)] by blast+
  have f: "cmdID ?s = 0" "maxCommandsPerDevice ?s = 50"
    using rest_of_eqD(3,8) [OF p(2)] commandsServer_start(2,3) by simp_all
  have inv: "sys_inv s" using api.run_room [OF p(1), of xs lib mj] f(1) assms by simp
  moreover have "maxCommandsPerDevice s = 50" using f(2) by (simp add: assms(2) max_run)
  ultimately show ?thesis by (auto simp: sys_inv_def cmd_inv_def limit_ok_def)
qed

text \<open>The device page looks the device up twice; an eviction between the two makes the handler
  dereference nil.  Without one it never panics.\<close>

lemma device_page_race:
  "deviceDetailAt e ''A'' (demoServer ''A'') (evictStaleDevices 86400000000001 [''A''] [] (demoServer ''A'')) = ReplyPanic
   \<and> fst (handleDeviceDetail e sn r s) \<noteq> ReplyPanic"
proof -
  have it: "iteration [''A''] (devices (demoServer ''A''))" "iteration [] (pendingCommands (demoServer ''A''))"
    by (simp_all add: iteration_def demo_fields)
  have "isStale 86400000000001 (demoServer ''A'') ''A''"
    by (simp add: isStale_def demoServer_A newServer_def defaultDeviceEvictionTimeout_def second_def
        Sub_def minInt64_def maxInt64_def)
  then have "GetDevice ''A'' (evictStaleDevices 86400000000001 [''A''] [] (demoServer ''A'')) = None"
    unfolding evictStaleDevices_eq [OF it] by (simp add: GetDevice_def lookup_evicted)
  moreover have "requireDevice_api ''A'' (demoServer ''A'') = Inr ''A''"
    by (simp add: requireDevice_api_def GetDevice_def demoServer_A)
  ultimately show ?thesis
    by (auto simp: deviceDetailAt_def handleDeviceDetail_def requireDevice_api_def write_defs GetDevice_def)
qed

subsection \<open>Examples\<close>

definition demoLib :: json_lib where
  "demoLib = \<lparr>jl_encode = (\<lambda>_. ''{}''), jl_user = (\<lambda>_. Inl ''EOF''), jl_text = (\<lambda>_ _. Inr (TextRequest ''ls''))\<rparr>"

definition demoApi :: api_env where
  "demoApi = \<lparr>ae_now = ''2024-05-01 08:00:00'', ae_clock = (\<lambda>_. 0), ae_order = [''A'']\<rparr>"

definition demoMux :: mux_env where
  "demoMux = \<lparr>mx_env = demoEnv, mx_api = demoApi, mx_exchange = \<lparr>xe_accept = (\<lambda>_. 1024), xe_proto = ''HTTP/1.1'',
     xe_host = ''h'', xe_header = [], xe_respHeader = [], xe_elapsed = ''1ms''\<rparr>\<rparr>"

theorem api_endpoint_witness:
  "fst (outcome (handleShell demoLib demoApi ''A'' (demoRequest ''POST'' [] []) (demoServer ''A''))) = 200"
proof -
  have route: "commandRoute demoLib [''shell''] = Some (handleShell demoLib)" by (simp add: commandRoute_def)
  have req: "requested demoLib now [''shell''] b = Some ''Shell ls''" for now b
    by (simp add: requested_def textField_def demoLib_def)
  have "validateCommandField ''command'' ''Shell ls'' = None"
    by (simp add: validateCommandField_def ContainsAny_def)
  from demo_queue [OF this] api_endpoint [OF route, of demoApi "''A''" _ "demoServer ''A''"] show ?thesis
    by (simp add: req demoServer_A)
qed

theorem command_reaches_device_witness:
  "\<exists>i. map readWire (butlast (Split NL (rs_text (fst (HandleGetRequest demoEnv (demoRequest ''GET'' ''SN=A'' [])
       (snd (commandsMux demoLib (\<lambda>_ _ _. None) demoMux [''api'', ''devices'', ''A'', ''shell'']
         (demoRequest ''POST'' [] []) (demoServer ''A'')))))))) = [Some \<lparr>ce_ID = i, ce_Command = ''Shell ls''\<rparr>]"
proof -
  let ?r = "demoRequest ''POST'' [] []" and ?p = "demoRequest ''GET'' ''SN=A'' []" and ?s = "demoServer ''A''"
  have route: "commandRoute demoLib [''shell''] = Some (handleShell demoLib)" by (simp add: commandRoute_def)
  have req: "requested demoLib now [''shell''] b = Some ''Shell ls''" for now b
    by (simp add: requested_def textField_def demoLib_def)
  have plain: "validateCommandField ''command'' ''Shell ls'' = None"
    by (simp add: validateCommandField_def ContainsAny_def)
  have post: "rq_method ?r = ''POST''" "rq_method ?p = ''GET''" by (simp_all add: demoRequest_def)
  obtain ex t where m: "commandsMux demoLib (\<lambda>_ _ _. None) demoMux [''api'', ''devices'', ''A'', ''shell''] ?r ?s = (ex, t)"
    by (cases "commandsMux demoLib (\<lambda>_ _ _. None) demoMux [''api'', ''devices'', ''A'', ''shell''] ?r ?s")
  have ex: "sentStatus (ex_calls ex) = 200"
    and t: "t = ?s\<lparr>cmdID := 1, commandQueue := fmupd ''A'' [\<lparr>ce_ID = 1, ce_Command = ''Shell ls''\<rparr>] fmempty\<rparr>"
    using mux_command_outcome [OF route post(1) _ m] demo_queue [OF plain]
    by (simp_all add: req guardedSpec_def apiSpec_def apiQueue_def demoServer_A)
  have "requireSerialNumber ?p = Inr ''A''"
    by (simp add: requireSerialNumber_def demo_query demoRequest_def valid_demo)
  then obtain u where u: "requireDevice demoEnv ?p t = (Inr ''A'', u)"
    by (simp add: requireDevice_def registerOrReject_def RegisterDevice_def valid_demo t demoServer_A)
  obtain resp v where h: "HandleGetRequest demoEnv ?p t = (resp, v)"
    by (cases "HandleGetRequest demoEnv ?p t")
  have room: "id_room ?s" by (simp add: id_room_def demo_fields)
  obtain i where "map readWire (butlast (Split NL (rs_text resp))) = [Some \<lparr>ce_ID = i, ce_Command = ''Shell ls''\<rparr>]"
    using command_reaches_device [OF demo_sys_inv room route post(1) m ex post(2) u h]
    by (auto simp: req demo_fields)
  with h m show ?thesis by (intro exI [of _ i]) simp
qed

theorem commands_server_bounded_witness:
  "outstanding ''A'' (snd (preRegister 0 (flagDevices ''A, B'') (commandsServer UTC))) \<le> 50"
  using commands_server_bounded [of "[]" _ demoLib "\<lambda>_ _ _. None" 0 "''A, B''" UTC] by simp

end
