(* ===== verification/Example_Basic.thy ===== *)
theory Example_Basic
  imports Example_Logging Adms_System "HOL-Library.List_Lexorder" "HOL-Library.Char_ord"
begin

section \<open>The minimal program (\<open>examples/basic/main.go\<close>)\<close>

text \<open>
  A status page and one endpoint that queues a command from the query string.  Handlers answer with
  plain text.  How a clock reading prints as \<open>time.RFC3339\<close> is an argument.
\<close>

subsection \<open>\<open>statusHandler\<close>\<close>

text \<open>\<open>%v\<close> of a \<open>map[string]string\<close>: the keys in byte order.\<close>

fun joinBlank :: "string list \<Rightarrow> string" where
  "joinBlank [] = []"
| "joinBlank [v] = v"
| "joinBlank (v # vs) = v @ '' '' @ joinBlank vs"

definition printMap :: "info \<Rightarrow> string" where
  "printMap m =
     ''map['' @ joinBlank (map (\<lambda>k. k @ '':'' @ the (fmlookup m k)) (sorted_list_of_fset (fmdom m))) @ '']''"

definition printBool :: "bool \<Rightarrow> string" where
  "printBool b = (if b then ''true'' else ''false'')"

text \<open>\<open>%s\<close> of a \<open>*time.Location\<close> is its name; that of nil is \<open>UTC\<close>.\<close>

definition printZone :: "location option \<Rightarrow> string" where
  "printZone l = (case l of None \<Rightarrow> ''UTC'' | Some l \<Rightarrow> loc_name l)"

text \<open>\<open>se_clock\<close> is the clock when the page looks at a device, \<open>se_order\<close> the order of the listing.  The page
  is shown for one state of the server, though the source takes the locks anew for each device.\<close>

record status_env =
  se_clock :: "string \<Rightarrow> int"
  se_order :: "string list"
  se_rfc3339 :: "int \<Rightarrow> string"

definition statusLines :: "status_env \<Rightarrow> Device \<Rightarrow> ADMSServer \<Rightarrow> string list" where
  "statusLines e d s =
     [''Serial Number: '' @ SerialNumber d,
      ''Last Activity: '' @ se_rfc3339 e (LastActivity d),
      ''Online: '' @ printBool (IsDeviceOnline (se_clock e (SerialNumber d)) (SerialNumber d) s),
      ''Timezone: '' @ printZone (GetDeviceTimezone (SerialNumber d) s),
      ''Options: '' @ printMap (Options d),
      ''---'']"

definition statusHandler :: "status_env \<Rightarrow> request \<Rightarrow> ADMSServer \<Rightarrow> response \<times> ADMSServer" where
  "statusHandler e r s =
     (let ds = ListDevices (se_order e) s
      in (okText (''Connected Devices: '' @ itoa (int (length ds)) @ [NL, NL]
            @ concat (map (\<lambda>d. concat (map (\<lambda>line. line @ [NL]) (statusLines e d s))) ds)), s))"

subsection \<open>\<open>commandHandler\<close>\<close>

definition commandHandler :: "request \<Rightarrow> ADMSServer \<Rightarrow> response \<times> ADMSServer" where
  "commandHandler r s =
     (if rq_method r \<noteq> ''POST'' then (httpError ''Method not allowed'' 405, s)
      else
        (let query = ParseQuery (rq_query r);
             sn = queryGet ''sn'' query;
             cmd = queryGet ''cmd'' query
         in if sn = [] \<or> cmd = [] then (httpError ''Missing sn or cmd parameter'' 400, s)
            else (case QueueCommand sn cmd s of
                    (_, Some err, s') \<Rightarrow> (httpError (Error err) 503, s')
                  | (_, None, s') \<Rightarrow>
                      (okText (''Command queued for device '' @ sn @ '': '' @ cmd @ [NL]), s'))))"

subsection \<open>The program\<close>

text \<open>Its copy of the middleware, which is that of \<open>Example_Logging\<close> word for word.\<close>

definition basicLogMiddleware :: "exchange_env \<Rightarrow> 's http_handler \<Rightarrow> request \<Rightarrow> 's \<Rightarrow> exchange \<times> 's" where
  "basicLogMiddleware = logMiddleware"

definition basicMux :: "marshal \<Rightarrow> env \<Rightarrow> status_env \<Rightarrow> exchange_env
    \<Rightarrow> request \<Rightarrow> ADMSServer \<Rightarrow> exchange \<times> ADMSServer" where
  "basicMux mj e se x r s =
     (let logged = (\<lambda>h. basicLogMiddleware x (\<lambda>r s. case h r s of (rs, s') \<Rightarrow> ((callsOf rs, Returned), s')) r s)
      in if prefix ''/iclock/'' (rq_path r) then logged (ServeHTTP mj e)
         else if rq_path r = ''/status'' then logged (statusHandler se)
         else if rq_path r = ''/command'' then logged commandHandler
         else (\<lparr>ex_calls = callsOf httpNotFound, ex_exit = Returned, ex_dump = []\<rparr>, s))"

text \<open>The server of \<open>run\<close>; its three callbacks print and return.\<close>

definition basicServer :: "location \<Rightarrow> ADMSServer" where
  "basicServer l = NewADMSServer l
     [OptEnableInspect, OptOnAttendance (Some (\<lambda>_ _. Returned)), OptOnDeviceInfo (Some (\<lambda>_ _. Returned)),
      OptOnRegistry (Some (\<lambda>_ _. Returned))]"

text \<open>The devices registered at the start, until one is refused; the error names it.\<close>

fun registerKnown :: "int \<Rightarrow> string list \<Rightarrow> ADMSServer \<Rightarrow> (string \<times> adms_error) option \<times> ADMSServer" where
  "registerKnown now [] s = (None, s)"
| "registerKnown now (sn # sns) s =
     (case RegisterDevice now sn [] s of
        (Some err, s') \<Rightarrow> (Some (sn, err), s')
      | (None, s') \<Rightarrow> registerKnown now sns s')"

definition basicStart :: "int \<Rightarrow> location \<Rightarrow> (string \<times> adms_error) option \<times> ADMSServer" where
  "basicStart now l = registerKnown now [''DEVICE001'', ''DEVICE002''] (basicServer l)"

subsection \<open>Properties\<close>

lemma known_serials: "validateSerialNumber ''DEVICE001'' = None" "validateSerialNumber ''DEVICE002'' = None"
  by code_simp+

lemma basicServer_fields:
  "devices (basicServer l) = fmempty" "maxDevices (basicServer l) = 1000" "enableInspect (basicServer l)"
  by (simp_all add: basicServer_def NewADMSServer_def WithEnableInspect_def WithOnAttendance_def
      WithOnDeviceInfo_def WithOnRegistry_def newServer_def defaultMaxDevices_def)

text \<open>The program starts: both devices are registered and nothing is refused.\<close>

lemma basic_starts:
  "fst (basicStart now l) = None
   \<and> fmdom (devices (snd (basicStart now l))) = {|''DEVICE001'', ''DEVICE002''|}
   \<and> enableInspect (snd (basicStart now l))"
  by (auto simp: basicStart_def RegisterDevice_def known_serials basicServer_fields fmsize_upd_new)

text \<open>The command endpoint queues exactly the command of the query, for the device of the query, and
  says so with 200; everything else is answered 405, 400 or 503 and queues nothing.\<close>

lemma basic_command:
  assumes "commandHandler r s = (resp, t)" "sn = queryGet ''sn'' (ParseQuery (rq_query r))"
    "cmd = queryGet ''cmd'' (ParseQuery (rq_query r))"
  shows "(if rs_status resp = 200
      then rq_method r = ''POST'' \<and> fmlookup (devices s) sn \<noteq> None
        \<and> (\<exists>i. queueOf sn t = queueOf sn s @ [\<lparr>ce_ID = i, ce_Command = cmd\<rparr>])
      else rs_status resp \<in> {400, 405, 503} \<and> queueOf sn t = queueOf sn s)
    \<and> devices t = devices s \<and> (k = sn \<or> queueOf k t = queueOf k s)"
proof (cases "rq_method r = ''POST'' \<and> sn \<noteq> [] \<and> cmd \<noteq> []")
  case False
  with assms show ?thesis by (auto simp: commandHandler_def httpError_def Let_def split: if_splits)
next
  case True
  have c: "commandHandler r s = (case QueueCommand sn cmd s of
        (_, Some err, s') \<Rightarrow> (httpError (Error err) 503, s')
      | (_, None, s') \<Rightarrow> (okText (''Command queued for device '' @ sn @ '': '' @ cmd @ [NL]), s'))"
    using True unfolding commandHandler_def Let_def assms(2,3) by simp
  have other: "k = sn \<or> queueOf k t = queueOf k s"
    using mail.put_other [of k sn cmd s] assms(1) unfolding c by (auto split: prod.splits option.splits)
  show ?thesis
    by (cases rule: QueueCommand_cases [of sn cmd s])
      (use assms(1) True other in \<open>auto simp: c httpError_def okText_def\<close>)
qed

end
