(* ===== verification/Example_Database.thy ===== *)
theory Example_Database
  imports Example_Logging
begin

section \<open>The attendance store (\<open>examples/database/main.go\<close>)\<close>

text \<open>
  A program that keeps the attendance records its callback receives and answers queries about them.
  The store is the list of records; as the callback only appends, the store at any time is a function
  of the calls the callback worker has made (\<open>storeOf\<close>).  The JSON text of the answers is left to an
  encoder, and so is the formatting of times, which the answers keep as times.
\<close>

subsection \<open>Comparing times\<close>

text \<open>\<open>After\<close>, \<open>Before\<close> and \<open>Add\<close> of \<open>time.Time\<close>, for times without a monotonic reading and durations of
  whole seconds.\<close>

definition timeAfter :: "gotime \<Rightarrow> gotime \<Rightarrow> bool" where
  "timeAfter t u \<longleftrightarrow> sint (gt_sec u) < sint (gt_sec t) \<or> gt_sec t = gt_sec u \<and> gt_nsec u < gt_nsec t"

definition timeBefore :: "gotime \<Rightarrow> gotime \<Rightarrow> bool" where
  "timeBefore t u \<longleftrightarrow> timeAfter u t"

definition addSeconds :: "int \<Rightarrow> gotime \<Rightarrow> gotime" where
  "addSeconds d t = t\<lparr>gt_sec := gt_sec t + word_of_int d\<rparr>"

subsection \<open>\<open>AttendanceStore\<close>\<close>

type_synonym AttendanceStore = "AttendanceRecord list"

definition NewAttendanceStore :: AttendanceStore where
  "NewAttendanceStore = []"

text \<open>The error is always nil.\<close>

definition SaveAttendance :: "AttendanceRecord \<Rightarrow> AttendanceStore \<Rightarrow> AttendanceStore" where
  "SaveAttendance record s = s @ [record]"

definition GetRecords :: "AttendanceStore \<Rightarrow> AttendanceRecord list" where
  "GetRecords s = s"

text \<open>The loops that append the matching records.\<close>

fun byUserLoop :: "string \<Rightarrow> AttendanceRecord list \<Rightarrow> AttendanceRecord list \<Rightarrow> AttendanceRecord list" where
  "byUserLoop user [] result = result"
| "byUserLoop user (rec # records) result =
     byUserLoop user records (if UserID rec = user then result @ [rec] else result)"

definition GetRecordsByUser :: "string \<Rightarrow> AttendanceStore \<Rightarrow> AttendanceRecord list" where
  "GetRecordsByUser user s = byUserLoop user s []"

fun byDateLoop :: "gotime \<Rightarrow> gotime \<Rightarrow> AttendanceRecord list \<Rightarrow> AttendanceRecord list \<Rightarrow> AttendanceRecord list" where
  "byDateLoop start stop [] result = result"
| "byDateLoop start stop (rec # records) result =
     byDateLoop start stop records
       (if timeAfter (Timestamp rec) start \<and> timeBefore (Timestamp rec) stop then result @ [rec] else result)"

definition GetRecordsByDateRange :: "gotime \<Rightarrow> gotime \<Rightarrow> AttendanceStore \<Rightarrow> AttendanceRecord list" where
  "GetRecordsByDateRange start stop s = byDateLoop start stop s []"

subsection \<open>Answers\<close>

text \<open>A field that the source omits when it is empty is still there, with its zero value.\<close>

record attendanceEntry =
  at_UserID :: string
  at_Timestamp :: gotime
  at_Status :: int
  at_Device :: string

record attendanceResponse =
  ar_UserID :: string
  ar_Total :: nat
  ar_Count :: nat
  ar_Records :: "attendanceEntry list"

record summaryResponse =
  sm_Date :: gotime
  sm_Count :: nat
  sm_Records :: "attendanceEntry list"

definition entryOf :: "string \<Rightarrow> AttendanceRecord \<Rightarrow> attendanceEntry" where
  "entryOf user rec =
     \<lparr>at_UserID = user, at_Timestamp = Timestamp rec, at_Status = Status rec, at_Device = ar_SerialNumber rec\<rparr>"

definition attendanceHandler :: "AttendanceStore \<Rightarrow> request \<Rightarrow> attendanceResponse" where
  "attendanceHandler store r =
     (let userID = queryGet ''user_id'' (ParseQuery (rq_query r)) in
      if userID \<noteq> [] then
        (let records = GetRecordsByUser userID store
         in \<lparr>ar_UserID = userID, ar_Total = 0, ar_Count = length records,
             ar_Records = map (entryOf []) records\<rparr>)
      else
        (let records = GetRecords store
         in \<lparr>ar_UserID = [], ar_Total = length records, ar_Count = 0,
             ar_Records = map (\<lambda>rec. entryOf (UserID rec) rec) records\<rparr>))"

text \<open>\<open>now\<close> is the wall clock in the location \<open>l\<close> of the process.\<close>

definition summaryHandler :: "location \<Rightarrow> stamp \<Rightarrow> AttendanceStore \<Rightarrow> summaryResponse" where
  "summaryHandler l now store =
     (let startOfDay = Date l \<lparr>st_year = st_year now, st_month = st_month now, st_day = st_day now,
            st_hour = 0, st_min = 0, st_sec = 0, st_nsec = 0\<rparr>;
          endOfDay = addSeconds (24 * 3600) startOfDay;
          records = GetRecordsByDateRange startOfDay endOfDay store
      in \<lparr>sm_Date = startOfDay, sm_Count = length records,
          sm_Records = map (\<lambda>rec. entryOf (UserID rec) rec) records\<rparr>)"

subsection \<open>The program\<close>

text \<open>The server of \<open>run\<close>, whose attendance callback saves and returns, and the store after the calls
  made so far.\<close>

definition databaseServer :: "location \<Rightarrow> ADMSServer" where
  "databaseServer l = NewADMSServer l
     [OptOnAttendance (Some (\<lambda>_ _. Returned)), OptOnDeviceInfo (Some (\<lambda>_ _. Returned))]"

fun deliver :: "event \<Rightarrow> AttendanceStore \<Rightarrow> AttendanceStore" where
  "deliver (AttendanceEv record) store = SaveAttendance record store"
| "deliver _ store = store"

definition storeOf :: "event list \<Rightarrow> AttendanceStore" where
  "storeOf log = fold deliver log NewAttendanceStore"

text \<open>\<open>newMux\<close>; the encoder prints an answer, with the newline \<open>Encode\<close> ends it with.\<close>

datatype dbBody = AttendanceBody attendanceResponse | SummaryBody summaryResponse

definition jsonReply :: "(dbBody \<Rightarrow> string) \<Rightarrow> dbBody \<Rightarrow> response" where
  "jsonReply encode v = okText (encode v @ [NL])"

text \<open>Its copy of the middleware, which is that of \<open>Example_Logging\<close> word for word.\<close>

definition databaseLogMiddleware :: "exchange_env \<Rightarrow> 's http_handler \<Rightarrow> request \<Rightarrow> 's \<Rightarrow> exchange \<times> 's" where
  "databaseLogMiddleware = logMiddleware"

definition databaseMux :: "(dbBody \<Rightarrow> string) \<Rightarrow> marshal \<Rightarrow> env \<Rightarrow> location \<Rightarrow> stamp \<Rightarrow> exchange_env
    \<Rightarrow> request \<Rightarrow> ADMSServer \<Rightarrow> exchange \<times> ADMSServer" where
  "databaseMux encode mj e l now x r s =
     (let store = storeOf (cbLog s);
          page = (\<lambda>v. databaseLogMiddleware x (\<lambda>r s. ((callsOf (jsonReply encode v), Returned), s)) r s)
      in if prefix ''/iclock/'' (rq_path r) then
           databaseLogMiddleware x (\<lambda>r s. case ServeHTTP mj e r s of (rs, s') \<Rightarrow> ((callsOf rs, Returned), s')) r s
         else if rq_path r = ''/api/attendance'' then page (AttendanceBody (attendanceHandler store r))
         else if rq_path r = ''/api/summary/today'' then page (SummaryBody (summaryHandler l now store))
         else (\<lparr>ex_calls = callsOf httpNotFound, ex_exit = Returned, ex_dump = []\<rparr>, s))"

subsection \<open>Facts\<close>

lemma byUserLoop_filter: "byUserLoop user rs acc = acc @ filter (\<lambda>r. UserID r = user) rs"
  by (induction rs arbitrary: acc) simp_all

lemma byDateLoop_filter:
  "byDateLoop start stop rs acc
    = acc @ filter (\<lambda>r. timeAfter (Timestamp r) start \<and> timeBefore (Timestamp r) stop) rs"
  by (induction rs arbitrary: acc) simp_all

lemma storeOf_append: "storeOf (evs @ map AttendanceEv rs) = storeOf evs @ rs"
  by (induction rs rule: rev_induct) (simp_all add: storeOf_def SaveAttendance_def flip: append_assoc)

text \<open>In a zone with a fixed offset, times of the years 0 to 9999 compare as their seconds.\<close>

lemma sint_of_int64: "is_int64 x \<Longrightarrow> sint (word_of_int x :: 64 word) = x"
  by (simp add: signed_of_int is_int64_def minInt64_def maxInt64_def signed_take_bit_int_eq_self)

lemma sint_seconds:
  "is_int64 (sec + unixToInternal) \<Longrightarrow> sint (gt_sec (unixTime l sec ns)) = sec + unixToInternal"
  using sint_of_int64 [of "sec + unixToInternal"] by (simp add: unixTime_def)

lemma daysBefore_range: "0 \<le> daysBefore m \<and> daysBefore m \<le> 334"
proof (cases "m < 1 \<or> 12 < m")
  case False
  then have "m \<in> {1, 2, 3, 4, 5, 6, 7, 8, 9, 10, 11, 12}" unfolding insert_iff empty_iff by arith
  then show ?thesis by (auto simp: daysBefore_def)
qed (auto simp: daysBefore_def)

lemma civilDays_range:
  assumes "0 \<le> y" "y \<le> 9999" "1 \<le> d" "d \<le> 31"
  shows "-720000 \<le> civilDays y m d \<and> civilDays y m d \<le> 3000000"
proof -
  have div: "-1 \<le> (y - 1) div n \<and> (y - 1) div n \<le> 9998 div n" if "0 < n" for n
    using zdiv_mono1 [of "-1" "y - 1" n] zdiv_mono1 [of "y - 1" 9998 n] assms that div_eq_minus1 [of n] by simp
  define a b c where "a = (y - 1) div 4" and "b = (y - 1) div 100" and "c = (y - 1) div 400"
  define leap :: int where "leap = (if isLeap y \<and> 2 < m then 1 else 0)"
  have eq: "civilDays y m d = 365 * y + a - b + c + daysBefore m + leap + d - 719528"
    unfolding civilDays_def a_def b_def c_def leap_def by simp
  have bounds: "-1 \<le> a" "a \<le> 2499" "-1 \<le> b" "b \<le> 99" "-1 \<le> c" "c \<le> 24" "0 \<le> leap" "leap \<le> 1"
    using div [of 4] div [of 100] div [of 400] by (simp_all add: a_def b_def c_def leap_def)
  show ?thesis
    unfolding eq using bounds daysBefore_range [of m, THEN conjunct1] daysBefore_range [of m, THEN conjunct2] assms
    by (intro conjI) linarith+
qed

definition dayOf :: "stamp \<Rightarrow> int" where
  "dayOf t = civilDays (st_year t) (st_month t) (st_day t)"

definition timeOfDay :: "stamp \<Rightarrow> int" where
  "timeOfDay t = st_hour t * 3600 + st_min t * 60 + st_sec t"

lemma wallSeconds_split: "wallSeconds t = dayOf t * 86400 + timeOfDay t"
  by (simp add: wallSeconds_def dayOf_def timeOfDay_def)

lemma stamp_ranges:
  assumes "valid_stamp t"
  shows "-720000 \<le> dayOf t \<and> dayOf t \<le> 3000000 \<and> 0 \<le> timeOfDay t \<and> timeOfDay t < 86400"
proof -
  have "st_day t \<le> 31" using assms daysIn_le [of "st_month t" "st_year t"] by (simp add: valid_stamp_def)
  then have "-720000 \<le> dayOf t \<and> dayOf t \<le> 3000000"
    unfolding dayOf_def using assms by (intro civilDays_range) (simp_all add: valid_stamp_def)
  then show ?thesis using assms by (simp add: timeOfDay_def valid_stamp_def)
qed

lemma dateUnix_fixed:
  "is_int64 (w - off) \<Longrightarrow> w - off < maxInt64 \<Longrightarrow> dateUnix (FixedZone name off) w = w - off"
  by (simp add: dateUnix_def FixedZone_def is_int64_def Let_def)

lemma Date_fixed:
  assumes "valid_stamp t" "-86400 \<le> off" "off \<le> 86400"
  shows "sint (gt_sec (Date (FixedZone name off) t)) = dayOf t * 86400 + timeOfDay t - off + unixToInternal"
    and "gt_nsec (Date (FixedZone name off) t) = 0"
proof -
  have r: "-72000000000 \<le> dayOf t * 86400 + timeOfDay t - off" "dayOf t * 86400 + timeOfDay t - off \<le> 300000000000"
    using stamp_ranges [OF assms(1)] assms(2,3) by linarith+
  have d: "dateUnix (FixedZone name off) (wallSeconds t) = dayOf t * 86400 + timeOfDay t - off"
    unfolding wallSeconds_split using r by (intro dateUnix_fixed) (simp_all add: is_int64_def minInt64_def maxInt64_def)
  show "sint (gt_sec (Date (FixedZone name off) t)) = dayOf t * 86400 + timeOfDay t - off + unixToInternal"
    unfolding Date_def d using r
    by (intro sint_seconds) (simp add: is_int64_def minInt64_def maxInt64_def unixToInternal_def)
  show "gt_nsec (Date (FixedZone name off) t) = 0"
    using assms(1) by (simp add: Date_def unixTime_def valid_stamp_def)
qed

text \<open>The start of a day, and the instant a day later.\<close>

definition midnightOf :: "stamp \<Rightarrow> stamp" where
  "midnightOf now = \<lparr>st_year = st_year now, st_month = st_month now, st_day = st_day now,
     st_hour = 0, st_min = 0, st_sec = 0, st_nsec = 0\<rparr>"

lemma midnight_facts:
  "valid_stamp now \<Longrightarrow> valid_stamp (midnightOf now)" "dayOf (midnightOf now) = dayOf now" "timeOfDay (midnightOf now) = 0"
  by (simp_all add: midnightOf_def valid_stamp_def dayOf_def timeOfDay_def)

lemma next_midnight:
  assumes "valid_stamp now" "-86400 \<le> off" "off \<le> 86400"
  shows "sint (gt_sec (addSeconds (24 * 3600) (Date (FixedZone name off) (midnightOf now))))
    = dayOf now * 86400 + 86400 - off + unixToInternal"
proof -
  let ?w = "gt_sec (Date (FixedZone name off) (midnightOf now))"
  have w: "sint ?w = dayOf now * 86400 - off + unixToInternal"
    using Date_fixed(1) [OF midnight_facts(1) [OF assms(1)] assms(2,3)] by (simp add: midnight_facts)
  let ?next = "dayOf now * 86400 - off + unixToInternal + 86400"
  have "?w = word_of_int (dayOf now * 86400 - off + unixToInternal)" by (simp only: w [symmetric]) simp
  then have "gt_sec (addSeconds (24 * 3600) (Date (FixedZone name off) (midnightOf now))) = word_of_int ?next"
    unfolding of_int_add [of _ 86400] by (simp add: addSeconds_def)
  moreover have "sint (word_of_int ?next :: 64 word) = ?next"
    using stamp_ranges [OF assms(1)] assms(2,3)
    by (intro sint_of_int64) (simp add: is_int64_def minInt64_def maxInt64_def unixToInternal_def)
  ultimately show ?thesis by simp
qed

text \<open>Which stamps fall strictly between the two.\<close>

lemma in_day:
  assumes "valid_stamp t" "valid_stamp now" "-86400 \<le> off" "off \<le> 86400"
  shows "timeAfter (Date (FixedZone name off) t) (Date (FixedZone name off) (midnightOf now))
      \<and> timeBefore (Date (FixedZone name off) t) (addSeconds (24 * 3600) (Date (FixedZone name off) (midnightOf now)))
    \<longleftrightarrow> dayOf t = dayOf now \<and> timeOfDay t \<noteq> 0"
proof -
  note m = midnight_facts(1) [OF assms(2)]
  have ns: "gt_nsec (Date (FixedZone name off) t) = 0" "gt_nsec (Date (FixedZone name off) (midnightOf now)) = 0"
    using Date_fixed(2) assms(1,3,4) m by blast+
  then have "gt_nsec (addSeconds (24 * 3600) (Date (FixedZone name off) (midnightOf now))) = 0"
    by (simp add: addSeconds_def)
  then show ?thesis
    using stamp_ranges [OF assms(1)] stamp_ranges [OF assms(2)] ns
    unfolding timeAfter_def timeBefore_def Date_fixed(1) [OF assms(1,3,4)] Date_fixed(1) [OF m assms(3,4)]
      next_midnight [OF assms(2-4)] midnight_facts(2,3)
    by auto
qed

subsection \<open>Properties\<close>

text \<open>C28 From the device to the API: an attendance upload that is not answered 503 is, once the worker has
  made the queued calls, in the store after everything accepted before, record by record in order, and
  the API lists it.\<close>

theorem upload_is_stored:
  assumes "rq_method r \<in> {''GET'', ''POST''}" "requireDevice e r s = (Inr sn, t)"
    "queryGet paramTable (ParseQuery (rq_query r)) = tableATTLOG" "readBody r t = Inr body"
    "parseAttendanceRecords t body sn (Some (deviceLocationLocked sn t)) = records"
    "HandleCData e r s = (resp, u)" "rs_status resp \<noteq> 503" "onAttendance s \<noteq> None"
    "queryGet ''user_id'' (ParseQuery (rq_query q)) = []"
  shows "storeOf (cbLog (workerRun (length (callbackCh u)) u)) = storeOf (committed s) @ records
    \<and> ar_Total (attendanceHandler (storeOf (cbLog (workerRun (length (callbackCh u)) u))) q)
        = length (storeOf (committed s)) + length records
    \<and> ar_Records (attendanceHandler (storeOf (cbLog (workerRun (length (callbackCh u)) u))) q)
        = map (\<lambda>rec. entryOf (UserID rec) rec) (storeOf (committed s) @ records)"
proof -
  have "cbLog (workerRun (length (callbackCh u)) u) = committed s @ map AttendanceEv records"
    using workerRun_drains [of u "length (callbackCh u)"] attlog_answer [OF assms(1-6)] assms(7,8)
    by (simp add: attendanceEvents_def)
  then have "storeOf (cbLog (workerRun (length (callbackCh u)) u)) = storeOf (committed s) @ records"
    by (simp add: storeOf_append)
  then show ?thesis using assms(9) by (simp add: attendanceHandler_def GetRecords_def Let_def)
qed

text \<open>The list of a user is exactly the user's records, in order.\<close>

lemma user_list_exact:
  assumes "queryGet ''user_id'' (ParseQuery (rq_query r)) = user" "user \<noteq> []"
  shows "ar_Records (attendanceHandler store r) = map (entryOf []) (filter (\<lambda>rec. UserID rec = user) store)
    \<and> ar_Count (attendanceHandler store r) = length (filter (\<lambda>rec. UserID rec = user) store)"
  using assms by (simp add: attendanceHandler_def GetRecordsByUser_def byUserLoop_filter Let_def)

text \<open>C37 The summary of a day in a zone with a fixed offset has exactly the punches of that calendar day,
  in order, except those at midnight, which no day's summary has.\<close>

theorem summary_of_day:
  assumes "list_all punch_ok ps" "valid_stamp now" "-86400 \<le> off" "off \<le> 86400"
    "l = FixedZone name off"
  shows "sm_Records (summaryHandler l now (map (punchRecord l sn) ps))
    = map (\<lambda>p. entryOf (pu_user p) (punchRecord l sn p))
        (filter (\<lambda>p. dayOf (pu_stamp p) = dayOf now \<and> timeOfDay (pu_stamp p) \<noteq> 0) ps)"
proof -
  have "filter (\<lambda>r. timeAfter (Timestamp r) (Date l (midnightOf now))
        \<and> timeBefore (Timestamp r) (addSeconds (24 * 3600) (Date l (midnightOf now)))) (map (punchRecord l sn) ps)
      = map (punchRecord l sn) (filter (\<lambda>p. dayOf (pu_stamp p) = dayOf now \<and> timeOfDay (pu_stamp p) \<noteq> 0) ps)"
    using assms(1) in_day [OF _ assms(2-4), of _ name]
    by (induction ps) (simp_all add: punchRecord_def punch_ok_def assms(5))
  then show ?thesis
    by (simp add: summaryHandler_def GetRecordsByDateRange_def byDateLoop_filter midnightOf_def Let_def
        punchRecord_def comp_def)
qed

subsection \<open>Examples\<close>

definition demoPunch :: punch where
  "demoPunch = \<lparr>pu_user = ''7'', pu_stamp = \<lparr>st_year = 2024, st_month = 5, st_day = 1, st_hour = 8,
     st_min = 30, st_sec = 0, st_nsec = 0\<rparr>, pu_status = 0, pu_verify = 1, pu_work = []\<rparr>"

lemma demoPunch_ok: "punch_ok demoPunch"
  by (simp add: demoPunch_def punch_ok_def field_ok_def tidy_def graphic_def valid_stamp_def daysIn_def isLeap_def
      is_int64_def minInt64_def maxInt64_def)

definition demoUploaded :: ADMSServer where
  "demoUploaded = snd (HandleCData demoEnv (demoRequest ''POST'' ''SN=A&table=ATTLOG'' (punchLog [demoPunch]))
     ((demoServer ''A'')\<lparr>onAttendance := Some (\<lambda>_ _. Returned)\<rparr>))"

theorem upload_is_stored_witness:
  "map UserID (storeOf (cbLog (workerRun (length (callbackCh demoUploaded)) demoUploaded))) = [''7'']"
proof -
  let ?s = "(demoServer ''A'')\<lparr>onAttendance := Some (\<lambda>_ _. Returned)\<rparr>"
  let ?t = "demoTouched\<lparr>onAttendance := Some (\<lambda>_ _. Returned)\<rparr>"
  let ?r = "demoRequest ''POST'' ''SN=A&table=ATTLOG'' (punchLog [demoPunch])"
  let ?rec = "punchRecord (deviceLocationLocked ''A'' ?t) ''A'' demoPunch"
  have q: "queryGet paramSN (ParseQuery ''SN=A&table=ATTLOG'') = ''A''"
    "queryGet paramTable (ParseQuery ''SN=A&table=ATTLOG'') = tableATTLOG" "queryGet ''user_id'' (ParseQuery []) = []"
    by code_simp+
  have adm: "requireDevice demoEnv ?r ?s = (Inr ''A'', ?t)"
    by (simp add: requireDevice_def registerOrReject_def RegisterDevice_def valid_demo demoServer_A
        requireSerialNumber_def demoRequest_def q updateDeviceActivity_def demoTouched_def demoEnv_def)
  have "int (length (punchLog [demoPunch])) \<le> 10485760" by code_simp
  then have body: "readBody ?r ?t = Inr (punchLog [demoPunch])"
    by (simp add: readBody_def readAll_def demoRequest_def demoTouched_def demoServer_A newServer_def defaultMaxBodySize_def)
  have recs: "parseAttendanceRecords ?t (punchLog [demoPunch]) ''A'' (Some (deviceLocationLocked ''A'' ?t)) = [?rec]"
    using parse_punchLog [of "[demoPunch]"] demoPunch_ok by simp
  have m: "rq_method ?r \<in> {''GET'', ''POST''}" and tb: "queryGet paramTable (ParseQuery (rq_query ?r)) = tableATTLOG"
    by (simp_all add: demoRequest_def q)
  obtain resp u where h: "HandleCData demoEnv ?r ?s = (resp, u)" by (cases "HandleCData demoEnv ?r ?s")
  have "HandleCData demoEnv ?r ?s = cdataAttlog demoEnv ?r ''A'' ?t"
    using m by (simp add: HandleCData_def guarded_pass [OF _ adm] cdataBody_def tb Let_def)
  moreover have "\<exists>d. dispatchAttendance (ev_sched demoEnv 0) [rec] ?t = (True, d)" for rec
    by (simp add: dispatchAttendance_def dispatchCallback_def demoEnv_def demoTouched_def demoServer_A newServer_def
        defaultCallbackBufferSize_def)
  then obtain d where "dispatchAttendance (ev_sched demoEnv 0) [?rec] ?t = (True, d)" by blast
  ultimately have ok: "rs_status resp \<noteq> 503"
    using h by (simp add: cdataAttlog_def body recs okText_def Let_def)
  have "storeOf (committed ?s) = []"
    by (simp add: committed_def storeOf_def NewAttendanceStore_def demoServer_A newServer_def)
  with upload_is_stored [OF m adm tb body recs h ok, of "demoRequest ''GET'' [] []"]
  have "storeOf (cbLog (workerRun (length (callbackCh u)) u)) = [?rec]" by (simp add: demoRequest_def q(3))
  moreover have "demoUploaded = u" using h by (simp add: demoUploaded_def)
  ultimately show ?thesis by (simp add: punchRecord_def demoPunch_def)
qed

theorem summary_of_day_witness:
  "length (sm_Records (summaryHandler (FixedZone ''UTC'' 0) (pu_stamp demoPunch)
     (map (punchRecord (FixedZone ''UTC'' 0) ''A'')
        [demoPunch, demoPunch\<lparr>pu_stamp := midnightOf (pu_stamp demoPunch)\<rparr>]))) = 1"
proof -
  let ?ps = "[demoPunch, demoPunch\<lparr>pu_stamp := midnightOf (pu_stamp demoPunch)\<rparr>]"
  have now: "valid_stamp (pu_stamp demoPunch)" using demoPunch_ok by (simp add: punch_ok_def)
  have "list_all punch_ok ?ps"
    using demoPunch_ok midnight_facts(1) [OF now] by (simp add: punch_ok_def)
  from summary_of_day [OF this now, of 0 "FixedZone ''UTC'' 0" "''UTC''"] show ?thesis
    by (simp add: midnight_facts(2,3)) (simp add: timeOfDay_def demoPunch_def)
qed

end
