(* ===== verification/Example_Programs.thy ===== *)
theory Example_Programs
  imports Adms_Callbacks Example_Commands Example_Basic Example_Database
begin

section \<open>The example programs as users of the package\<close>

text \<open>
  A program changes its server only through the package's operations.  The functions of this theory say
  which: a request on one of its routes is translated to the operation it stands for, and the state of the
  program is the one that the run of these operations reaches.  So what holds over every run of
  operations (\<open>Adms_System\<close>, \<open>Adms_Delivery\<close>, \<open>Adms_Callbacks\<close>) holds of every program, whatever it is
  sent.
\<close>

subsection \<open>What happens to a program\<close>

text \<open>A request is served, or one of the package's goroutines moves: the eviction loop, the callback
  worker, or the start of \<open>Close\<close>.\<close>

datatype 'x happening =
    Serve 'x | Evicts int "string list" "64 word list" | WorkerTakes | CloseBegins

fun happen :: "marshal \<Rightarrow> ('x \<Rightarrow> ADMSServer \<Rightarrow> ADMSServer) \<Rightarrow> 'x happening \<Rightarrow> ADMSServer \<Rightarrow> ADMSServer" where
  "happen mj exec (Serve x) s = exec x s"
| "happen mj exec (Evicts now order ids) s = step mj (OpEvict now order ids) s"
| "happen mj exec WorkerTakes s = workerTake s"
| "happen mj exec CloseBegins s = s\<lparr>closing := True\<rparr>"

fun happenOps :: "('x \<Rightarrow> op list) \<Rightarrow> 'x happening \<Rightarrow> op list" where
  "happenOps ops (Serve x) = ops x"
| "happenOps ops (Evicts now order ids) = [OpEvict now order ids]"
| "happenOps ops WorkerTakes = [OpWorker]"
| "happenOps ops CloseBegins = [OpCloseSignal]"

lemma run_ops_append: "run_ops mj (xs @ ys) s = run_ops mj ys (run_ops mj xs s)"
  by (induction xs arbitrary: s) simp_all

text \<open>A program whose requests stand for the operations \<open>ops_of\<close>.\<close>

locale package_user =
  fixes exec :: "'x \<Rightarrow> ADMSServer \<Rightarrow> ADMSServer"
    and ops_of :: "'x \<Rightarrow> op list"
    and mj :: marshal
  assumes exec_ops: "exec x s = run_ops mj (ops_of x) s"
begin

lemma happen_ops: "happen mj exec x s = run_ops mj (happenOps ops_of x) s"
  by (cases x) (simp_all add: exec_ops)

lemma history_ops: "fold (happen mj exec) xs s = run_ops mj (concat (map (happenOps ops_of) xs)) s"
  by (induction xs arbitrary: s) (simp_all add: happen_ops run_ops_append)

end

subsection \<open>The command program\<close>

text \<open>A request below \<open>/iclock/\<close> is one to the package; one to a command endpoint queues the command the
  endpoint stands for (\<open>requested\<close>), if its body is acceptable; every other changes nothing.\<close>

definition commandsOps :: "json_lib \<Rightarrow> mux_env \<times> string list \<times> request \<Rightarrow> op list" where
  "commandsOps lib x =
     (case x of (m, segs, r) \<Rightarrow>
        (case segs of
           seg # dev # rest \<Rightarrow>
             if seg = ''iclock'' then [OpHttp (mx_env m) r]
             else if seg = ''api'' \<and> dev = ''devices'' \<and> rq_method r = ''POST'' then
               (case rest of
                  sn # action \<Rightarrow>
                    if sn = [] then []
                    else (case requested lib (ae_now (mx_api m)) action (rq_body r) of
                            Some c \<Rightarrow> [OpQueue sn c]
                          | None \<Rightarrow> [])
                | [] \<Rightarrow> [])
             else []
         | _ \<Rightarrow> []))"

lemma QueueCommand_unregistered:
  "fmlookup (devices s) sn = None \<Longrightarrow> snd (snd (QueueCommand sn c s)) = s"
  by (cases rule: QueueCommand_cases [of sn c s]) auto

lemma requested_routed: "commandRoute lib action = None \<Longrightarrow> requested lib now action b = None"
  by (simp add: commandRoute_def requested_def split: if_splits)

lemma guardedSpec_ops:
  assumes "sn \<noteq> []"
  shows "snd (guardedSpec sn req s) = run_ops mj (case req of Some c \<Rightarrow> [OpQueue sn c] | None \<Rightarrow> []) s"
  using assms QueueCommand_unregistered [of s sn]
  by (auto simp: guardedSpec_def apiSpec_def apiQueue_state split: option.split)

lemma mux_endpoint:
  assumes "rq_method r = ''POST''" "sn \<noteq> []"
  shows "snd (commandsMux lib mj m (''api'' # ''devices'' # sn # action) r s)
    = snd (guardedSpec sn (requested lib (ae_now (mx_api m)) action (rq_body r)) s)"
proof (cases "commandRoute lib action")
  case None
  then show ?thesis
    using assms by (auto simp: requested_routed guardedSpec_def apiSpec_def commandsMux_def Let_def)
next
  case (Some h)
  obtain ex t where m: "commandsMux lib mj m (''api'' # ''devices'' # sn # action) r s = (ex, t)"
    by (cases "commandsMux lib mj m (''api'' # ''devices'' # sn # action) r s")
  from mux_command_outcome [OF Some assms m] show ?thesis by (metis m snd_conv)
qed

lemma mux_elsewhere:
  assumes "\<nexists>sn action. segs = ''api'' # ''devices'' # sn # action \<and> sn \<noteq> [] \<and> rq_method r = ''POST''"
  shows "snd (commandsMux lib mj m segs r s)
    = (if 2 \<le> length segs \<and> hd segs = ''iclock'' then snd (ServeHTTP mj (mx_env m) r s) else s)"
proof (cases segs)
  case (Cons seg rest)
  have command: "rq_method r \<noteq> ''POST''"
    if "2 \<le> length rest" "hd rest = ''devices''" "rest ! 1 \<noteq> []" "seg = ''api''"
    using assms Cons that by (cases rest; cases "tl rest") auto
  have "2 \<le> length segs \<longleftrightarrow> rest \<noteq> []" using Cons by (cases rest) auto
  then show ?thesis
    using command
    by (auto simp: commandsMux_def Cons Let_def logged_eq handleListDevices_def handleDeviceDetail_def
        split: option.split prod.split)
qed (simp add: commandsMux_def)

interpretation commands_user: package_user "serve lib mj" "commandsOps lib" mj for lib mj
proof unfold_locales
  fix x :: "mux_env \<times> string list \<times> request" and s
  obtain m segs r where x: "x = (m, segs, r)" by (cases x)
  show "serve lib mj x s = run_ops mj (commandsOps lib x) s"
  proof (cases "\<exists>sn action. segs = ''api'' # ''devices'' # sn # action \<and> sn \<noteq> [] \<and> rq_method r = ''POST''")
    case True
    then obtain sn action where r: "segs = ''api'' # ''devices'' # sn # action" "sn \<noteq> []" "rq_method r = ''POST''"
      by blast
    then show ?thesis
      by (simp add: x serve_def commandsOps_def mux_endpoint guardedSpec_ops [of sn _ _ mj])
  next
    case False
    from mux_elsewhere [OF this] have "serve lib mj x s
        = (if 2 \<le> length segs \<and> hd segs = ''iclock'' then snd (ServeHTTP mj (mx_env m) r s) else s)"
      by (simp add: x serve_def)
    also have "\<dots> = run_ops mj (commandsOps lib x) s"
      using False by (auto simp: x commandsOps_def numeral_2_eq_2 Suc_le_length_iff split: list.split)
    finally show ?thesis .
  qed
qed

text \<open>The devices of the flag, in its order, without the blanks around them and without empty ones.\<close>

definition flagOps :: "int \<Rightarrow> string \<Rightarrow> op list" where
  "flagOps now flag =
     map (\<lambda>sn. OpRegister now sn []) (filter (\<lambda>sn. sn \<noteq> []) (map TrimSpace (flagDevices flag)))"

lemma preRegister_ops:
  "fst (preRegister now ds s) = None \<Longrightarrow> snd (preRegister now ds s)
    = run_ops mj (map (\<lambda>sn. OpRegister now sn []) (filter (\<lambda>sn. sn \<noteq> []) (map TrimSpace ds))) s"
  by (induction now ds s rule: preRegister.induct) (auto simp: Let_def split: if_splits prod.splits option.splits)

subsection \<open>The minimal program and the database program\<close>

text \<open>One request to the minimal program: one to the package, or a command for a device, if the request
  is a POST and names both.\<close>

definition basicServe :: "marshal \<Rightarrow> env \<times> status_env \<times> exchange_env \<times> request \<Rightarrow> ADMSServer \<Rightarrow> ADMSServer" where
  "basicServe mj x s = (case x of (e, se, xe, r) \<Rightarrow> snd (basicMux mj e se xe r s))"

definition basicOps :: "env \<times> status_env \<times> exchange_env \<times> request \<Rightarrow> op list" where
  "basicOps x =
     (case x of (e, se, xe, r) \<Rightarrow>
        let query = ParseQuery (rq_query r); sn = queryGet ''sn'' query; cmd = queryGet ''cmd'' query
        in if prefix ''/iclock/'' (rq_path r) then [OpHttp e r]
           else if rq_path r = ''/command'' \<and> rq_method r = ''POST'' \<and> sn \<noteq> [] \<and> cmd \<noteq> [] then [OpQueue sn cmd]
           else [])"

lemma commandHandler_state:
  "snd (commandHandler r s) =
     (let query = ParseQuery (rq_query r); sn = queryGet ''sn'' query; cmd = queryGet ''cmd'' query
      in if rq_method r = ''POST'' \<and> sn \<noteq> [] \<and> cmd \<noteq> [] then snd (snd (QueueCommand sn cmd s)) else s)"
  by (auto simp: commandHandler_def Let_def split: prod.split option.split)

interpretation basic_user: package_user "basicServe mj" basicOps mj for mj
proof unfold_locales
  fix x :: "env \<times> status_env \<times> exchange_env \<times> request" and s
  obtain e se xe r where x: "x = (e, se, xe, r)" by (cases x)
  show "basicServe mj x s = run_ops mj (basicOps x) s"
    using commandHandler_state [of r s]
    by (auto simp: x basicServe_def basicOps_def basicMux_def basicLogMiddleware_def logMiddleware_eq
        statusHandler_def Let_def split: prod.splits)
qed

text \<open>One request to the database program: only those below \<open>/iclock/\<close> reach the package.\<close>

definition databaseServe :: "(dbBody \<Rightarrow> string) \<Rightarrow> marshal \<Rightarrow> env \<times> location \<times> stamp \<times> exchange_env \<times> request
    \<Rightarrow> ADMSServer \<Rightarrow> ADMSServer" where
  "databaseServe encode mj x s = (case x of (e, l, now, xe, r) \<Rightarrow> snd (databaseMux encode mj e l now xe r s))"

definition databaseOps :: "env \<times> location \<times> stamp \<times> exchange_env \<times> request \<Rightarrow> op list" where
  "databaseOps x = (case x of (e, l, now, xe, r) \<Rightarrow> if prefix ''/iclock/'' (rq_path r) then [OpHttp e r] else [])"

interpretation database_user: package_user "databaseServe encode mj" databaseOps mj for encode mj
proof unfold_locales
  fix x :: "env \<times> location \<times> stamp \<times> exchange_env \<times> request" and s
  obtain e l now xe r where x: "x = (e, l, now, xe, r)" by (cases x)
  show "databaseServe encode mj x s = run_ops mj (databaseOps x) s"
    by (auto simp: x databaseServe_def databaseOps_def databaseMux_def databaseLogMiddleware_def logMiddleware_eq
        Let_def split: prod.splits)
qed

lemma basicStart_ops:
  "snd (basicStart now l)
    = run_ops mj [OpRegister now ''DEVICE001'' [], OpRegister now ''DEVICE002'' []] (basicServer l)"
  using basic_starts [of now l] by (auto simp: basicStart_def split: prod.splits option.splits)

subsection \<open>Properties\<close>

text \<open>C24 The state of each of the three example programs, whatever requests it serves on whatever routes and whatever
  evictions, worker steps and the start of \<open>Close\<close> come in between, is the one that a run of the package's
  operations on its new server reaches, and the run is this: the registrations of the start, which for the
  command program are the devices of its flag (when none is refused, else it does not start), for the
  minimal one its two devices; then, for each request below \<open>/iclock/\<close>, that request to the package; for each
  request to a command endpoint whose body is acceptable, the command that the endpoint stands for, to the
  device of the path; for each POST that names a device and a command to the endpoint of the minimal
  program, that command; and for every other request, nothing.\<close>

theorem programs_are_runs:
  assumes "fst (preRegister now (flagDevices flag) (commandsServer l)) = None"
  shows "fold (happen mj (serve lib mj)) xs (snd (preRegister now (flagDevices flag) (commandsServer l)))
      = run_ops mj (flagOps now flag @ concat (map (happenOps (commandsOps lib)) xs)) (commandsServer l)
   \<and> fold (happen mj (basicServe mj)) ys (snd (basicStart now l))
      = run_ops mj ([OpRegister now ''DEVICE001'' [], OpRegister now ''DEVICE002'' []]
          @ concat (map (happenOps basicOps) ys)) (basicServer l)
   \<and> fold (happen mj (databaseServe encode mj)) zs (databaseServer l)
      = run_ops mj (concat (map (happenOps databaseOps) zs)) (databaseServer l)"
  unfolding run_ops_append flagOps_def preRegister_ops [OF assms, of mj] basicStart_ops [of now l mj]
  by (simp only: commands_user.history_ops basic_user.history_ops database_user.history_ops simp_thms)

text \<open>Two devices of a flag, a request that asks the first for its log, and one on a path that is not served.\<close>

lemma demo_flag: "fst (preRegister 0 (flagDevices ''A, B'') (commandsServer UTC)) = None"
  by code_simp

lemma demo_flagOps: "flagOps 0 ''A, B'' = [OpRegister 0 ''A'' [], OpRegister 0 ''B'' []]"
proof -
  have "map TrimSpace (flagDevices ''A, B'') = [''A'', ''B'']" by code_simp
  then show ?thesis by (simp add: flagOps_def)
qed

theorem programs_are_runs_witness:
  "fold (happen (\<lambda>_ _ _. None) (serve demoLib (\<lambda>_ _ _. None)))
     [Serve (demoMux, [''api'', ''devices'', ''A'', ''log''], demoRequest ''POST'' [] []), WorkerTakes,
      Serve (demoMux, [''api'', ''devices'', ''A'', ''logs''], demoRequest ''POST'' [] [])]
     (snd (preRegister 0 (flagDevices ''A, B'') (commandsServer UTC)))
   = run_ops (\<lambda>_ _ _. None) [OpRegister 0 ''A'' [], OpRegister 0 ''B'' [], OpQueue ''A'' ''LOG'', OpWorker] (commandsServer UTC)"
proof -
  let ?xs = "[Serve (demoMux, [''api'', ''devices'', ''A'', ''log''], demoRequest ''POST'' [] []), WorkerTakes,
      Serve (demoMux, [''api'', ''devices'', ''A'', ''logs''], demoRequest ''POST'' [] [])]"
  have "flagOps 0 ''A, B'' @ concat (map (happenOps (commandsOps demoLib)) ?xs)
      = [OpRegister 0 ''A'' [], OpRegister 0 ''B'' [], OpQueue ''A'' ''LOG'', OpWorker]"
    by (simp add: demo_flagOps commandsOps_def requested_def demoRequest_def)
  with conjunct1 [OF programs_are_runs [OF demo_flag, of "\<lambda>_ _ _. None" demoLib ?xs]] show ?thesis by simp
qed

end
