(* ===== verification/Example_Console.thy ===== *)
theory Example_Console
  imports Adms_Callbacks Example_Commands Example_Basic Example_Database
begin

section \<open>What the callbacks of the programs print\<close>

text \<open>
  The callbacks that the command program, the minimal program, the database program and the probe pass
  to the server print what they receive.  How a time prints as \<open>time.RFC3339\<close>, how \<open>%q\<close> quotes a
  text and the order the runtime ranges over a map are arguments.  The texts are put together with the
  type of the callbacks' arguments: what a device sends cannot forge a line of the command program's
  console, but it can in the minimal program.
\<close>

record console =
  cs_quote :: "string \<Rightarrow> string"
  cs_rfc3339 :: "gotime \<Rightarrow> string"
  cs_order :: "info \<Rightarrow> string list"

definition printLine :: "string \<Rightarrow> string" where
  "printLine t = t @ [NL]"

text \<open>The loop over a map that prints one pair per line.\<close>

fun pairLines :: "string \<Rightarrow> info \<Rightarrow> string list \<Rightarrow> string" where
  "pairLines sep info [] = []"
| "pairLines sep info (k # ks) = printLine (''  '' @ k @ sep @ fmget info k) @ pairLines sep info ks"

subsection \<open>The command program\<close>







subsection \<open>The minimal program, the database program and the probe\<close>

definition basicAttendance :: "console \<Rightarrow> AttendanceRecord \<Rightarrow> string" where
  "basicAttendance cs r =
     printLine ''Attendance Record:''
     @ printLine (''  Device: '' @ ar_SerialNumber r)
     @ printLine (''  User ID: '' @ UserID r)
     @ printLine (''  Timestamp: '' @ cs_rfc3339 cs (Timestamp r))
     @ printLine (''  Status: '' @ itoa (Status r)
         @ '' (0=Check In, 1=Check Out, 2=Break Out, 3=Break In, 4=Overtime In, 5=Overtime Out)'')
     @ printLine (''  Verify Mode: '' @ VerifyModeName (VerifyMode r) @ '' ('' @ itoa (VerifyMode r) @ '')'')
     @ printLine (''  Work Code: '' @ WorkCode r)
     @ printLine ''---''"

definition basicInfo :: "console \<Rightarrow> string \<Rightarrow> info \<Rightarrow> string" where
  "basicInfo cs sn info =
     printLine (''Device Info for '' @ sn @ '':'') @ pairLines '': '' info (cs_order cs info)
     @ printLine ''---''"

text \<open>The loop with its counter, which stops after eight pairs.\<close>

fun registryLoop :: "info \<Rightarrow> nat \<Rightarrow> string list \<Rightarrow> string" where
  "registryLoop info shown [] = []"
| "registryLoop info shown (k # ks) =
     printLine (''  '' @ k @ '': '' @ fmget info k)
     @ (let shown' = shown + 1 in if 8 \<le> shown' then [] else registryLoop info shown' ks)"

definition basicRegistry :: "console \<Rightarrow> string \<Rightarrow> info \<Rightarrow> string" where
  "basicRegistry cs sn info =
     printLine (''Registry Info for '' @ sn @ '' (partial):'')
     @ registryLoop info 0 (cs_order cs info) @ printLine ''---''"

definition probeInfo :: "console \<Rightarrow> string \<Rightarrow> info \<Rightarrow> string" where
  "probeInfo cs sn info =
     [NL] @ printLine (''--- Device Info from '' @ sn @ '' ---'')
     @ pairLines '' = '' info (cs_order cs info) @ printLine ''---''"

text \<open>The text of the log call.\<close>

definition databaseInfo :: "string \<Rightarrow> info \<Rightarrow> string" where
  "databaseInfo sn info = ''Device '' @ sn @ '' info updated: '' @ printMap info"

subsection \<open>Lines\<close>

text \<open>The lines a text ends.\<close>

definition lineCount :: "string \<Rightarrow> nat" where
  "lineCount t = count_list t NL"

lemma lineCount_simps [simp]:
  "lineCount [] = 0" "lineCount (s @ t) = lineCount s + lineCount t"
  "NL \<notin> set t \<Longrightarrow> lineCount (printLine t) = 1"
  by (simp_all add: lineCount_def printLine_def count_list_0_iff)

lemma registryLoop_take:
  "shown < 8 \<Longrightarrow> registryLoop info shown ks = pairLines '': '' info (take (8 - shown) ks)"
proof (induction ks arbitrary: shown)
  case (Cons k ks)
  show ?case
  proof (cases "shown = 7")
    case True
    then show ?thesis by (simp add: Let_def)
  next
    case False
    then have "8 - shown = Suc (8 - Suc shown)" using Cons.prems by simp
    with False Cons show ?thesis by (simp add: Let_def)
  qed
qed simp


lemma VerifyModeName_line [simp]: "NL \<notin> set (VerifyModeName m)"
proof (cases "fmlookup verifyModeNames m")
  case (Some name)
  then have "(m, name) \<in> set [(0, ''Password''), (1, ''Fingerprint''), (2, ''Card''), (3, ''Password''),
      (4, ''Card''), (5, ''Fingerprint+Card''), (6, ''Fingerprint+Password''), (7, ''Card+Password''),
      (8, ''Card+Fingerprint+Password''), (9, ''Other''), (15, ''Face''), (25, ''Palm'')]"
    unfolding verifyModeNames_def fmlookup_of_list by (rule map_of_SomeD)
  then have "NL \<notin> set name" by auto
  with Some show ?thesis by (simp add: VerifyModeName_def)
qed (simp add: VerifyModeName_unknown)








subsection \<open>Properties\<close>






text \<open>Values of the registry are separated by commas, so one can hold a line break, which the minimal
  program prints: this registration forges the report of a punch.\<close>

lemma registry_line_forged:
  "basicRegistry \<lparr>cs_quote = id, cs_rfc3339 = (\<lambda>_. []), cs_order = (\<lambda>_. [''A''])\<rparr> ''D1''
     (parseKVPairs (''~A=1'' @ [NL] @ ''Attendance Record:'') CHR '','' (Some trimTildePrefix))
   = printLine ''Registry Info for D1 (partial):'' @ printLine ''  A: 1'' @ printLine ''Attendance Record:''
     @ printLine ''---''"
  by code_simp

text \<open>The registry callback prints at most eight pairs.\<close>

lemma registry_partial:
  "basicRegistry cs sn info =
     printLine (''Registry Info for '' @ sn @ '' (partial):'')
     @ pairLines '': '' info (take 8 (cs_order cs info)) @ printLine ''---''"
  by (simp add: basicRegistry_def registryLoop_take)

end
