(* ===== verification/Example_Listing.thy ===== *)
theory Example_Listing
  imports Example_Console
begin

section \<open>The listings of endpoints (\<open>run\<close> in the examples and the probe)\<close>

text \<open>
  Before it serves, each program prints the endpoints it has; the command program also prints how to
  call them with \<open>curl\<close>.  The texts are read back here and held against the routes: the command
  program lists exactly what it serves under a device, and the minimal program serves what it lists.
\<close>

subsection \<open>What is printed\<close>

abbreviation APOS :: char where
  "APOS \<equiv> CHR 0x27"

abbreviation BSL :: char where
  "BSL \<equiv> CHR 0x5C"

definition commandsEndpoints :: "string list" where
  "commandsEndpoints =
     [''Endpoints:'',
      ''  /iclock/                          - ZKTeco device ADMS endpoints'',
      ''  /iclock/inspect                   - JSON device snapshot (debug)'',
      '''',
      ''  GET  /api/devices                 - List all devices'',
      ''  GET  /api/devices/{sn}            - Device detail'',
      '''',
      ''  POST /api/devices/{sn}/reboot     - Reboot device'',
      ''  POST /api/devices/{sn}/info       - Request device info'',
      ''  POST /api/devices/{sn}/check      - Heartbeat / connectivity check'',
      ''  POST /api/devices/{sn}/sync-time  - Sync device clock'',
      ''  POST /api/devices/{sn}/clear-data - Clear attendance data'',
      ''  POST /api/devices/{sn}/clear-log  - Clear operation log'',
      ''  POST /api/devices/{sn}/users      - Add/update user (JSON body)'',
      ''  POST /api/devices/{sn}/users/delete - Delete user (JSON body)'',
      ''  POST /api/devices/{sn}/users/query  - Query all users from device'',
      ''  POST /api/devices/{sn}/open-door  - Trigger door relay'',
      ''  POST /api/devices/{sn}/get-option - Get device option (JSON body)'',
      ''  POST /api/devices/{sn}/shell      - Execute shell command (JSON body)'',
      ''  POST /api/devices/{sn}/log        - Request log data'',
      ''  POST /api/devices/{sn}/command    - Send raw command (JSON body)'',
      '''',
      ''Example usage with curl:'',
      ''  curl -X POST http://localhost:8080/api/devices/<SN>/info'',
      ''  curl -X POST http://localhost:8080/api/devices/<SN>/check'',
      ''  curl -X POST http://localhost:8080/api/devices/<SN>/reboot'',
      '''',
      ''  # Add a user'',
      ''  curl -X POST http://localhost:8080/api/devices/<SN>/users '' @ [BSL],
      ''       -H '' @ [APOS] @ ''Content-Type: application/json'' @ [APOS] @ '' '' @ [BSL],
      ''       -d '' @ [APOS] @ ''{\"pin\":\"1001\",\"name\":\"John Doe\",\"privilege\":0,\"card\":\"12345678\"}'' @ [APOS],
      '''',
      ''  # Delete a user'',
      ''  curl -X POST http://localhost:8080/api/devices/<SN>/users/delete '' @ [BSL],
      ''       -H '' @ [APOS] @ ''Content-Type: application/json'' @ [APOS] @ '' '' @ [BSL],
      ''       -d '' @ [APOS] @ ''{\"pin\":\"1001\"}'' @ [APOS],
      '''',
      ''  # Query all users from device (data pushed via /iclock/cdata)'',
      ''  curl -X POST http://localhost:8080/api/devices/<SN>/users/query'',
      '''',
      ''  # Get a device option'',
      ''  curl -X POST http://localhost:8080/api/devices/<SN>/get-option '' @ [BSL],
      ''       -H '' @ [APOS] @ ''Content-Type: application/json'' @ [APOS] @ '' '' @ [BSL],
      ''       -d '' @ [APOS] @ ''{\"key\":\"DeviceName\"}'' @ [APOS],
      '''',
      ''  # Execute a shell command on the device (use with caution!)'',
      ''  curl -X POST http://localhost:8080/api/devices/<SN>/shell '' @ [BSL],
      ''       -H '' @ [APOS] @ ''Content-Type: application/json'' @ [APOS] @ '' '' @ [BSL],
      ''       -d '' @ [APOS] @ ''{\"command\":\"date\"}'' @ [APOS],
      '''',
      ''  # Request log data'',
      ''  curl -X POST http://localhost:8080/api/devices/<SN>/log'',
      '''',
      ''  # Send a raw command'',
      ''  curl -X POST http://localhost:8080/api/devices/<SN>/command '' @ [BSL],
      ''       -H '' @ [APOS] @ ''Content-Type: application/json'' @ [APOS] @ '' '' @ [BSL],
      ''       -d '' @ [APOS] @ ''{\"command\":\"CHECK\"}'' @ [APOS],
      '''']"

definition commandsBanner :: "string \<Rightarrow> string" where
  "commandsBanner addr =
     concat (map printLine ((''ZKTeco Device Command Server starting on '' @ addr) # commandsEndpoints))"

definition basicEndpoints :: "string list" where
  "basicEndpoints =
     [''Endpoints:'',
      ''  /iclock/cdata      - Attendance data endpoint'',
      ''  /iclock/registry   - Device registry/capabilities endpoint'',
      ''  /iclock/getrequest - Device polling endpoint'',
      ''  /iclock/devicecmd  - Command confirmation endpoint'',
      ''  /iclock/inspect    - JSON device snapshot (opt-in via WithEnableInspect)'',
      ''  /status            - View connected devices'',
      ''  /command           - Send commands to devices (POST)'',
      '''']"

definition basicBanner :: "string \<Rightarrow> string" where
  "basicBanner addr =
     concat (map printLine ((''ZKTeco iClock Server starting on '' @ addr) # basicEndpoints))"

text \<open>The database program logs its listing, a message per line.\<close>

definition databaseBanner :: "string \<Rightarrow> string list" where
  "databaseBanner addr =
     [''Server with database integration starting on '' @ addr @ [NL],
      ''Endpoints:'',
      ''  /iclock/*            - ZKTeco device endpoints'',
      ''  /api/attendance      - Query attendance records'',
      ''  /api/summary/today   - Get today'' @ [APOS] @ ''s attendance summary'']"

definition probeBanner :: "string \<Rightarrow> string \<Rightarrow> string" where
  "probeBanner addr sn =
     concat (map printLine
       [''ADMS Probe Server listening on '' @ addr, ''Device: '' @ sn,
        ''Endpoints: /iclock/* (ADMS protocol)'', ''''])"

subsection \<open>Reading a listing\<close>

text \<open>The words of a line.\<close>

definition words :: "string \<Rightarrow> string list" where
  "words line = filter (\<lambda>w. w \<noteq> []) (Split CHR '' '' line)"

text \<open>The part of a path behind the device, cut at the slashes.\<close>

definition actionOf :: "string \<Rightarrow> string \<Rightarrow> string list option" where
  "actionOf device path =
     (if prefix device path then Some (filter (\<lambda>w. w \<noteq> []) (Split CHR ''/'' (drop (length device) path)))
      else None)"

text \<open>A line that lists a method and a path under one device.\<close>

fun listedRoute :: "string list \<Rightarrow> (string \<times> string list) option" where
  "listedRoute (verb # path # _) =
     (if verb = ''GET'' \<or> verb = ''POST''
      then map_option (Pair verb) (actionOf ''/api/devices/{sn}'' path) else None)"
| "listedRoute _ = None"

text \<open>A line that shows a call.\<close>

fun curlRoute :: "string list \<Rightarrow> (string \<times> string list) option" where
  "curlRoute (cmd # flag # verb # url # _) =
     (if cmd = ''curl'' \<and> flag = ''-X''
      then map_option (Pair verb) (actionOf ''http://localhost:8080/api/devices/<SN>'' url) else None)"
| "curlRoute _ = None"

definition listedRoutes :: "string list \<Rightarrow> (string \<times> string list) list" where
  "listedRoutes ls = List.map_filter (\<lambda>l. listedRoute (words l)) ls"

definition curlRoutes :: "string list \<Rightarrow> (string \<times> string list) list" where
  "curlRoutes ls = List.map_filter (\<lambda>l. curlRoute (words l)) ls"

text \<open>The first words of the lines that start with a path.\<close>

definition listedPaths :: "string list \<Rightarrow> string list" where
  "listedPaths ls = filter (prefix ''/'') (concat (map (\<lambda>l. take 1 (words l)) ls))"

lemma listed_commands:
  "listedRoutes commandsEndpoints =
     [(''GET'', []), (''POST'', [''reboot'']), (''POST'', [''info'']), (''POST'', [''check'']),
      (''POST'', [''sync-time'']), (''POST'', [''clear-data'']), (''POST'', [''clear-log'']),
      (''POST'', [''users'']), (''POST'', [''users'', ''delete'']), (''POST'', [''users'', ''query'']),
      (''POST'', [''open-door'']), (''POST'', [''get-option'']), (''POST'', [''shell'']), (''POST'', [''log'']),
      (''POST'', [''command''])]"
  by code_simp

lemma curl_commands:
  "curlRoutes commandsEndpoints =
     [(''POST'', [''info'']), (''POST'', [''check'']), (''POST'', [''reboot'']), (''POST'', [''users'']),
      (''POST'', [''users'', ''delete'']), (''POST'', [''users'', ''query'']), (''POST'', [''get-option'']),
      (''POST'', [''shell'']), (''POST'', [''log'']), (''POST'', [''command''])]"
  by code_simp

lemma basic_paths:
  "listedPaths basicEndpoints = [''/iclock/cdata'', ''/iclock/registry'', ''/iclock/getrequest'', ''/iclock/devicecmd'',
     ''/iclock/inspect'', ''/status'', ''/command'']"
  by code_simp

subsection \<open>The listings are true\<close>

lemma listed_iff:
  "(verb, action) \<in> set (listedRoutes commandsEndpoints)
   \<longleftrightarrow> verb = ''GET'' \<and> action = [] \<or> verb = ''POST'' \<and> commandRoute lib action \<noteq> None"
  unfolding listed_commands commandRoute_def by (auto split: if_splits)

text \<open>Every call that is shown is one that is listed.\<close>

lemma curl_listed: "set (curlRoutes commandsEndpoints) \<subseteq> set (listedRoutes commandsEndpoints)"
  unfolding listed_commands curl_commands by simp

text \<open>The minimal program hands every path it lists to a handler, and the package serves those under
  \<open>/iclock\<close>.\<close>

lemma basic_kinds:
  "list_all (\<lambda>p. prefix ''/iclock/'' p
       \<and> list_ex (HasSuffix p) [routeCData, routeRegistry, routeGetRequest, routeDeviceCmd, routeInspect]
     \<or> p = ''/status'' \<or> p = ''/command'') (listedPaths basicEndpoints)"
  unfolding basic_paths by code_simp

lemma basic_listing:
  assumes "rq_path r \<in> set (listedPaths basicEndpoints)"
  shows "\<exists>h. h \<in> {ServeHTTP mj e, statusHandler se, commandHandler}
      \<and> basicMux mj e se x r s
        = basicLogMiddleware x (\<lambda>r s. case h r s of (rs, s') \<Rightarrow> ((callsOf rs, Returned), s')) r s"
proof -
  have "prefix ''/iclock/'' (rq_path r) \<or> rq_path r = ''/status'' \<or> rq_path r = ''/command''"
    using basic_kinds assms by (auto simp: list_all_iff)
  then show ?thesis
  proof (elim disjE)
    assume "prefix ''/iclock/'' (rq_path r)"
    then show ?thesis by (intro exI [of _ "ServeHTTP mj e"]) (simp add: basicMux_def Let_def)
  next
    assume "rq_path r = ''/status''"
    then show ?thesis by (intro exI [of _ "statusHandler se"]) (simp add: basicMux_def Let_def)
  next
    assume "rq_path r = ''/command''"
    then show ?thesis by (intro exI [of _ commandHandler]) (simp add: basicMux_def Let_def)
  qed
qed

text \<open>The method under which a request is listed: the mux serves HEAD where it serves GET.\<close>

definition listedMethod :: "request \<Rightarrow> string" where
  "listedMethod r = (if rq_method r = ''HEAD'' then ''GET'' else rq_method r)"

text \<open>C32 The command program lists exactly what it serves under a device, whatever the method: a request
  whose method and path are listed, a HEAD counting as a GET, reaches the handler of that name, and any
  other is answered 404 or 405 by the mux and changes nothing.\<close>

theorem listing_exact:
  assumes "sn \<noteq> []"
  shows "if (listedMethod r, action) \<in> set (listedRoutes commandsEndpoints)
    then commandsMux lib mj m (''api'' # ''devices'' # sn # action) r s
      = logged lib m (case commandRoute lib action of
          None \<Rightarrow> handleDeviceDetail (mx_api m) sn | Some h \<Rightarrow> h (mx_api m) sn) r s
    else \<exists>rs. commandsMux lib mj m (''api'' # ''devices'' # sn # action) r s = (unlogged rs, s)
      \<and> rs_status rs \<in> {404, 405}"
proof (cases "commandRoute lib action")
  case None
  then show ?thesis
    using assms unfolding listed_iff [of _ _ lib]
    by (auto simp: listedMethod_def commandsMux_def Let_def httpNotFound_def httpError_def)
next
  case (Some h)
  then show ?thesis
    using assms commandRoute_nonempty [OF Some] unfolding listed_iff [of _ _ lib]
    by (auto simp: listedMethod_def commandsMux_def Let_def httpError_def)
qed

theorem listing_exact_witness:
  "commandsMux demoLib (\<lambda>_ _ _. None) demoMux [''api'', ''devices'', ''A'', ''log''] (demoRequest ''POST'' [] [])
      (demoServer ''A'')
    = logged demoLib demoMux (handleLog (mx_api demoMux) ''A'') (demoRequest ''POST'' [] []) (demoServer ''A'')
   \<and> snd (commandsMux demoLib (\<lambda>_ _ _. None) demoMux [''api'', ''devices'', ''A'', ''log''] (demoRequest ''PUT'' [] [])
      (demoServer ''A'')) = demoServer ''A''"
proof -
  have r: "listedMethod (demoRequest ''POST'' [] []) = ''POST''" "listedMethod (demoRequest ''PUT'' [] []) = ''PUT''"
    and sn: "''A'' \<noteq> []" by (simp_all add: demoRequest_def listedMethod_def)
  have route: "commandRoute demoLib [''log''] = Some handleLog" by (simp add: commandRoute_def)
  have "snd (commandsMux demoLib (\<lambda>_ _ _. None) demoMux [''api'', ''devices'', ''A'', ''log'']
      (demoRequest ''PUT'' [] []) (demoServer ''A'')) = demoServer ''A''"
    using listing_exact [OF sn, of "demoRequest ''PUT'' [] []" "[''log'']" demoLib "\<lambda>_ _ _. None" demoMux "demoServer ''A''"]
    unfolding r(2) listed_commands by auto
  then show ?thesis
    using listing_exact [OF sn, of "demoRequest ''POST'' [] []" "[''log'']" demoLib "\<lambda>_ _ _. None" demoMux "demoServer ''A''"]
    unfolding r(1) listed_commands route by simp
qed

end
