(* ===== verification/Adms_Shutdown.thy ===== *)
theory Adms_Shutdown
  imports Adms_Options
begin

section \<open>The closing protocol (\<open>Close\<close> in \<open>adms.go\<close>)\<close>

text \<open>
  \<open>Close\<close>, the dispatchers, the callback worker and the eviction worker as one step relation, each
  goroutine by its program counter, at the granularity of the channel and lock operations.  Any number
  of dispatch calls run at once; each holds \<open>callbackMu\<close> for reading between \<open>RLock\<close> and
  \<open>RUnlock\<close>, and Go's lock admits no new reader once a writer waits.  The body of \<open>closeOnce\<close> runs
  once.  Sending on a closed channel panics in Go; here it sets a flag.  The context of the callbacks ends
  when \<open>Close\<close> cancels it, or with the one it is derived from, if the caller passed one.
\<close>

subsection \<open>State and steps\<close>

text \<open>The places of a dispatch call: before \<open>RLock\<close>, at the test of \<open>closeCh\<close>, at the non-blocking
  send, at the blocking \<open>select\<close>, before the deferred \<open>RUnlock\<close> with its result, returned.\<close>

datatype dispatcher =
  DIdle closure | DCheck closure | DTry closure | DSlow closure | DExit bool | DDone bool

datatype worker = WIdle | WRun closure | WDone

datatype evictor = EIdle | EEvict | EDone

text \<open>The body of \<open>Close\<close>: before it, waiting for \<open>evictionDone\<close>, in \<open>Lock\<close>, holding the lock before
  and after \<open>close(s.callbackCh)\<close>, waiting for \<open>callbackDone\<close>, after \<open>baseCtxCancel\<close>.\<close>

datatype closer = CIdle | CWaitEviction | CWantLock | CLocked | CUnlock | CWaitWorker | CDone

record shutdown =
  sd_cap :: nat
  sd_disp :: "dispatcher list"
  sd_worker :: worker
  sd_evictor :: evictor
  sd_closer :: closer
  sd_chan :: "closure list"
  sd_closeCh :: bool
  sd_chanClosed :: bool
  sd_evictionDone :: bool
  sd_callbackDone :: bool
  sd_cancelled :: bool
  sd_base :: go_context
  sd_parentDone :: bool
  sd_panicked :: bool
  sd_accepted :: "closure list"
  sd_ran :: "closure list"

fun holdsRead :: "dispatcher \<Rightarrow> bool" where
  "holdsRead (DIdle _) = False"
| "holdsRead (DDone _) = False"
| "holdsRead _ = True"

definition sd_start :: "nat \<Rightarrow> closure list \<Rightarrow> shutdown" where
  "sd_start cap qs =
     \<lparr>sd_cap = cap, sd_disp = map DIdle qs, sd_worker = WIdle, sd_evictor = EIdle, sd_closer = CIdle,
      sd_chan = [], sd_closeCh = False, sd_chanClosed = False, sd_evictionDone = False,
      sd_callbackDone = False, sd_cancelled = False, sd_base = Background,
      sd_parentDone = False, sd_panicked = False, sd_accepted = [], sd_ran = []\<rparr>"

definition sd_init :: "shutdown \<Rightarrow> bool" where
  "sd_init s \<longleftrightarrow> (\<exists>cap qs opts. s = (sd_start cap qs)\<lparr>sd_base := baseContext opts\<rparr>)"

text \<open>The context the callbacks get has ended: cancelled by \<open>Close\<close>, or with the one it is derived from.\<close>

definition ctxDone :: "shutdown \<Rightarrow> bool" where
  "ctxDone s \<longleftrightarrow> sd_cancelled s \<or> sd_parentDone s"

definition sd_move :: "nat \<Rightarrow> dispatcher \<Rightarrow> shutdown \<Rightarrow> shutdown" where
  "sd_move i d s = s\<lparr>sd_disp := (sd_disp s)[i := d]\<rparr>"

text \<open>\<open>s.callbackCh <- fn\<close>.\<close>

definition sd_send :: "nat \<Rightarrow> closure \<Rightarrow> shutdown \<Rightarrow> shutdown" where
  "sd_send i q s =
     (if sd_chanClosed s then s\<lparr>sd_panicked := True\<rparr>
      else sd_move i (DExit True) (s\<lparr>sd_chan := sd_chan s @ [q], sd_accepted := sd_accepted s @ [q]\<rparr>))"

inductive work :: "shutdown \<Rightarrow> shutdown \<Rightarrow> bool" where
  rlock: "i < length (sd_disp s) \<Longrightarrow> sd_disp s ! i = DIdle q
    \<Longrightarrow> sd_closer s \<notin> {CWantLock, CLocked, CUnlock} \<Longrightarrow> work s (sd_move i (DCheck q) s)"
| check_closed: "i < length (sd_disp s) \<Longrightarrow> sd_disp s ! i = DCheck q \<Longrightarrow> sd_closeCh s
    \<Longrightarrow> work s (sd_move i (DExit False) s)"
| check_open: "i < length (sd_disp s) \<Longrightarrow> sd_disp s ! i = DCheck q \<Longrightarrow> \<not> sd_closeCh s
    \<Longrightarrow> work s (sd_move i (DTry q) s)"
| try_send: "i < length (sd_disp s) \<Longrightarrow> sd_disp s ! i = DTry q
    \<Longrightarrow> sd_chanClosed s \<or> length (sd_chan s) < sd_cap s \<Longrightarrow> work s (sd_send i q s)"
| try_full: "i < length (sd_disp s) \<Longrightarrow> sd_disp s ! i = DTry q
    \<Longrightarrow> \<not> sd_chanClosed s \<Longrightarrow> sd_cap s \<le> length (sd_chan s) \<Longrightarrow> work s (sd_move i (DSlow q) s)"
| slow_send: "i < length (sd_disp s) \<Longrightarrow> sd_disp s ! i = DSlow q
    \<Longrightarrow> sd_chanClosed s \<or> length (sd_chan s) < sd_cap s \<Longrightarrow> work s (sd_send i q s)"
| slow_timeout: "i < length (sd_disp s) \<Longrightarrow> sd_disp s ! i = DSlow q
    \<Longrightarrow> work s (sd_move i (DExit False) s)"
| slow_closed: "i < length (sd_disp s) \<Longrightarrow> sd_disp s ! i = DSlow q \<Longrightarrow> sd_closeCh s
    \<Longrightarrow> work s (sd_move i (DExit False) s)"
| runlock: "i < length (sd_disp s) \<Longrightarrow> sd_disp s ! i = DExit b \<Longrightarrow> work s (sd_move i (DDone b) s)"
| receive: "sd_worker s = WIdle \<Longrightarrow> sd_chan s = q # qs
    \<Longrightarrow> work s (s\<lparr>sd_chan := qs, sd_worker := WRun q\<rparr>)"
| run: "sd_worker s = WRun q \<Longrightarrow> work s (s\<lparr>sd_worker := WIdle, sd_ran := sd_ran s @ [q]\<rparr>)"
| drained: "sd_worker s = WIdle \<Longrightarrow> sd_chan s = [] \<Longrightarrow> sd_chanClosed s
    \<Longrightarrow> work s (s\<lparr>sd_worker := WDone, sd_callbackDone := True\<rparr>)"
| evicted_: "sd_evictor s = EEvict \<Longrightarrow> work s (s\<lparr>sd_evictor := EIdle\<rparr>)"
| evict_exit: "sd_evictor s = EIdle \<Longrightarrow> sd_closeCh s
    \<Longrightarrow> work s (s\<lparr>sd_evictor := EDone, sd_evictionDone := True\<rparr>)"
| await_eviction: "sd_closer s = CWaitEviction \<Longrightarrow> sd_evictionDone s \<Longrightarrow> work s (s\<lparr>sd_closer := CWantLock\<rparr>)"
| lock: "sd_closer s = CWantLock \<Longrightarrow> list_all (\<lambda>d. \<not> holdsRead d) (sd_disp s)
    \<Longrightarrow> work s (s\<lparr>sd_closer := CLocked\<rparr>)"
| close_chan: "sd_closer s = CLocked \<Longrightarrow> work s (s\<lparr>sd_closer := CUnlock, sd_chanClosed := True\<rparr>)"
| unlock: "sd_closer s = CUnlock \<Longrightarrow> work s (s\<lparr>sd_closer := CWaitWorker\<rparr>)"
| cancel: "sd_closer s = CWaitWorker \<Longrightarrow> sd_callbackDone s
    \<Longrightarrow> work s (s\<lparr>sd_closer := CDone, sd_cancelled := True\<rparr>)"

text \<open>What the surroundings do: a tick of the eviction timer, the first call of \<open>Close\<close>, and the end of a
  context that was passed with \<open>WithBaseContext\<close>.\<close>

inductive env_step :: "shutdown \<Rightarrow> shutdown \<Rightarrow> bool" where
  tick: "sd_evictor s = EIdle \<Longrightarrow> env_step s (s\<lparr>sd_evictor := EEvict\<rparr>)"
| close_call: "sd_closer s = CIdle \<Longrightarrow> env_step s (s\<lparr>sd_closer := CWaitEviction, sd_closeCh := True\<rparr>)"
| parent_done: "sd_base s \<noteq> Background \<Longrightarrow> env_step s (s\<lparr>sd_parentDone := True\<rparr>)"

definition sd_step :: "shutdown \<Rightarrow> shutdown \<Rightarrow> bool" where
  "sd_step s t \<longleftrightarrow> work s t \<or> env_step s t"

inductive_cases workE: "work s t"
inductive_cases env_stepE: "env_step s t"

subsection \<open>The invariant\<close>

text \<open>The channel is closed only with no dispatcher between its test of \<open>closeCh\<close> and its
  \<open>RUnlock\<close>, and what was accepted is what ran, runs or waits.\<close>

fun sending :: "dispatcher \<Rightarrow> bool" where
  "sending (DTry _) = True"
| "sending (DSlow _) = True"
| "sending _ = False"

fun running :: "worker \<Rightarrow> closure list" where
  "running (WRun q) = [q]"
| "running _ = []"

definition sd_inv :: "shutdown \<Rightarrow> bool" where
  "sd_inv s \<longleftrightarrow>
     \<not> sd_panicked s
     \<and> (sd_closeCh s \<longleftrightarrow> sd_closer s \<noteq> CIdle)
     \<and> (sd_chanClosed s \<longleftrightarrow> sd_closer s \<in> {CUnlock, CWaitWorker, CDone})
     \<and> (sd_evictionDone s \<longleftrightarrow> sd_evictor s = EDone)
     \<and> (sd_callbackDone s \<longleftrightarrow> sd_worker s = WDone)
     \<and> (sd_cancelled s \<longleftrightarrow> sd_closer s = CDone)
     \<and> (sd_closer s \<in> {CLocked, CUnlock} \<longrightarrow> list_all (\<lambda>d. \<not> holdsRead d) (sd_disp s))
     \<and> (sd_chanClosed s \<longrightarrow> list_all (\<lambda>d. \<not> sending d) (sd_disp s))
     \<and> (sd_worker s = WDone \<longrightarrow> sd_chan s = [] \<and> sd_chanClosed s)
     \<and> (sd_cancelled s \<longrightarrow> sd_worker s = WDone)
     \<and> sd_accepted s = sd_ran s @ running (sd_worker s) @ sd_chan s"

lemma sending_holds: "sending d \<Longrightarrow> holdsRead d"
  by (cases d) auto

lemma not_holding_not_sending:
  "list_all (\<lambda>d. \<not> holdsRead d) ds \<Longrightarrow> list_all (\<lambda>d. \<not> sending d) ds"
  by (auto simp: list_all_iff dest: sending_holds)

lemma sd_inv_init: "sd_init s \<Longrightarrow> sd_inv s"
  by (auto simp: sd_init_def sd_inv_def sd_start_def)

lemma sd_init_start: "sd_init (sd_start cap qs)"
  unfolding sd_init_def by (intro exI [of _ cap] exI [of _ qs] exI [of _ "[]"])
    (simp add: sd_start_def baseContext_def)

text \<open>A dispatcher about to send excludes a closed channel.\<close>

lemma sending_open:
  "sd_inv s \<Longrightarrow> i < length (sd_disp s) \<Longrightarrow> sending (sd_disp s ! i) \<Longrightarrow> \<not> sd_chanClosed s"
  by (auto simp: sd_inv_def dest: list_all_nthD)

lemma holding_unlocked:
  "sd_inv s \<Longrightarrow> i < length (sd_disp s) \<Longrightarrow> holdsRead (sd_disp s ! i) \<Longrightarrow> sd_closer s \<notin> {CLocked, CUnlock}"
  by (auto simp: sd_inv_def dest: list_all_nthD)

text \<open>A dispatcher moves: to a place without the lock, or one that already holds it and does not
  start to send on a closed channel.\<close>

lemma sd_inv_move:
  assumes "sd_inv s" "holdsRead d \<Longrightarrow> sd_closer s \<notin> {CLocked, CUnlock}"
    "sending d \<Longrightarrow> \<not> sd_chanClosed s"
  shows "sd_inv (sd_move i d s)"
  using assms by (auto simp: sd_inv_def sd_move_def intro!: list_all_update)

lemma sd_inv_send:
  assumes "sd_inv s" "i < length (sd_disp s)" "sending (sd_disp s ! i)"
  shows "sd_inv (sd_send i q s)"
proof -
  have op: "\<not> sd_chanClosed s" by (rule sending_open [OF assms])
  have un: "sd_closer s \<notin> {CLocked, CUnlock}"
    using assms holding_unlocked sending_holds by blast
  have "sd_inv (s\<lparr>sd_chan := sd_chan s @ [q], sd_accepted := sd_accepted s @ [q]\<rparr>)"
    using assms(1) op by (auto simp: sd_inv_def)
  then show ?thesis
    unfolding sd_send_def using op un by (auto intro!: sd_inv_move)
qed

text \<open>A move between two places that hold the lock, and the moves in and out of them.\<close>

lemma sd_inv_move_held:
  assumes "sd_inv s" "i < length (sd_disp s)" "holdsRead (sd_disp s ! i)"
    "sending d \<Longrightarrow> \<not> sd_chanClosed s"
  shows "sd_inv (sd_move i d s)"
  using holding_unlocked [OF assms(1-3)] by (intro sd_inv_move assms) simp_all

lemma open_until_signal: "sd_inv s \<Longrightarrow> \<not> sd_closeCh s \<Longrightarrow> \<not> sd_chanClosed s"
  by (auto simp: sd_inv_def)

lemma sd_inv_work:
  assumes "work s t" "sd_inv s"
  shows "sd_inv t"
  using assms
proof (induction rule: work.induct)
  case (rlock i s q)
  then show ?case by (intro sd_inv_move) auto
next
  case (check_open i s q)
  then show ?case by (intro sd_inv_move_held) (auto dest: open_until_signal)
next
  case (try_full i s q)
  then show ?case by (intro sd_inv_move_held) auto
next
  case (close_chan s)
  then show ?case by (auto simp: sd_inv_def intro: not_holding_not_sending)
next
  case (check_closed i s q)
  then show ?case by (intro sd_inv_move_held) simp_all
next
  case (slow_timeout i s q)
  then show ?case by (intro sd_inv_move_held) simp_all
next
  case (slow_closed i s q)
  then show ?case by (intro sd_inv_move_held) simp_all
next
  case (try_send i s q)
  then show ?case by (intro sd_inv_send) simp_all
next
  case (slow_send i s q)
  then show ?case by (intro sd_inv_send) simp_all
next
  case (runlock i s b)
  then show ?case by (intro sd_inv_move) simp_all
qed (simp_all add: sd_inv_def, blast+)

lemma sd_inv_env:
  assumes "sd_inv s" "env_step s t"
  shows "sd_inv t"
  using assms(2,1) by (cases rule: env_step.cases) (auto simp: sd_inv_def)

interpretation closing: rel_machine sd_init sd_step sd_inv
  by unfold_locales (auto simp: sd_step_def intro: sd_inv_init sd_inv_work sd_inv_env)

subsection \<open>Progress and termination\<close>

text \<open>How many steps are left, at most, while no timer ticks.\<close>

fun disp_todo :: "dispatcher \<Rightarrow> nat" where
  "disp_todo (DIdle _) = 8"
| "disp_todo (DCheck _) = 7"
| "disp_todo (DTry _) = 6"
| "disp_todo (DSlow _) = 5"
| "disp_todo (DExit _) = 2"
| "disp_todo (DDone _) = 0"

fun worker_todo :: "worker \<Rightarrow> nat" where
  "worker_todo WIdle = 1"
| "worker_todo (WRun _) = 2"
| "worker_todo WDone = 0"

fun evictor_todo :: "evictor \<Rightarrow> nat" where
  "evictor_todo EIdle = 1"
| "evictor_todo EEvict = 2"
| "evictor_todo EDone = 0"

fun closer_todo :: "closer \<Rightarrow> nat" where
  "closer_todo CIdle = 6"
| "closer_todo CWaitEviction = 5"
| "closer_todo CWantLock = 4"
| "closer_todo CLocked = 3"
| "closer_todo CUnlock = 2"
| "closer_todo CWaitWorker = 1"
| "closer_todo CDone = 0"

definition sd_todo :: "shutdown \<Rightarrow> nat" where
  "sd_todo s = sum_list (map disp_todo (sd_disp s)) + 2 * length (sd_chan s)
     + worker_todo (sd_worker s) + evictor_todo (sd_evictor s) + closer_todo (sd_closer s)"

lemma sum_list_move:
  "i < length ds \<Longrightarrow>
    sum_list (map f (ds[i := d])) + f (ds ! i) = sum_list (map f ds) + (f d :: nat)"
proof (induction ds arbitrary: i)
  case (Cons e ds)
  then show ?case by (cases i) auto
qed simp

lemma sd_todo_move:
  assumes "i < length (sd_disp s)" "disp_todo d + n \<le> disp_todo (sd_disp s ! i)"
  shows "sd_todo (sd_move i d s) + n \<le> sd_todo s"
  using sum_list_move [OF assms(1), of disp_todo d] assms(2) by (simp add: sd_todo_def sd_move_def)

lemma sd_todo_send:
  assumes "sd_inv s" "i < length (sd_disp s)" "sending (sd_disp s ! i)"
  shows "Suc (sd_todo (sd_send i q s)) \<le> sd_todo s"
proof -
  have "5 \<le> disp_todo (sd_disp s ! i)"
    using assms(3) by (cases "sd_disp s ! i") auto
  then show ?thesis
    using sending_open [OF assms] sum_list_move [OF assms(2), of disp_todo "DExit True"]
    by (simp add: sd_send_def sd_move_def sd_todo_def)
qed

lemma work_decreases:
  assumes "work s t" "sd_inv s"
  shows "Suc (sd_todo t) \<le> sd_todo s"
  using assms
proof (induction rule: work.induct)
  case (try_send i s q)
  then show ?case by (intro sd_todo_send) simp_all
next
  case (slow_send i s q)
  then show ?case by (intro sd_todo_send) simp_all
next
  case (rlock i s q)
  then show ?case using sd_todo_move [of i s "DCheck q" 1] by simp
next
  case (check_closed i s q)
  then show ?case using sd_todo_move [of i s "DExit False" 1] by simp
next
  case (check_open i s q)
  then show ?case using sd_todo_move [of i s "DTry q" 1] by simp
next
  case (try_full i s q)
  then show ?case using sd_todo_move [of i s "DSlow q" 1] by simp
next
  case (slow_timeout i s q)
  then show ?case using sd_todo_move [of i s "DExit False" 1] by simp
next
  case (slow_closed i s q)
  then show ?case using sd_todo_move [of i s "DExit False" 1] by simp
next
  case (runlock i s b)
  then show ?case using sd_todo_move [of i s "DDone b" 1] by simp
qed (simp_all add: sd_todo_def)

lemma disp_only [simp]:
  "sd_worker (sd_move i d s) = sd_worker s" "sd_worker (sd_send i q s) = sd_worker s"
  by (simp_all add: sd_move_def sd_send_def)

text \<open>A reader of the lock can always go on once the server is closing, without the worker.\<close>

lemma holder_moves:
  assumes "i < length (sd_disp s)" "holdsRead (sd_disp s ! i)" "sd_closeCh s"
  shows "\<exists>t. work s t \<and> sd_worker t = sd_worker s"
proof -
  have "\<exists>d. work s (sd_move i d s) \<or> (\<exists>q. work s (sd_send i q s))"
  proof (cases "sd_disp s ! i")
    case (DCheck q)
    then show ?thesis using assms by (blast intro: work.check_closed)
  next
    case (DTry q)
    then show ?thesis using assms
      by (cases "sd_chanClosed s \<or> length (sd_chan s) < sd_cap s")
        (auto intro: work.try_send work.try_full simp: not_less)
  next
    case (DSlow q)
    then show ?thesis using assms by (blast intro: work.slow_timeout)
  next
    case (DExit b)
    then show ?thesis using assms by (blast intro: work.runlock)
  qed (use assms in auto)
  then show ?thesis using disp_only by blast
qed

text \<open>\<open>Close\<close> gets as far as its wait for the callback worker without the worker.\<close>

lemma closing_progress:
  assumes "sd_inv s" "sd_closer s \<notin> {CIdle, CWaitWorker, CDone}"
  shows "\<exists>t. work s t \<and> sd_worker t = sd_worker s"
proof (cases "sd_closer s")
  case CWaitEviction
  then show ?thesis using assms
    by (cases "sd_evictor s")
      (auto simp: sd_inv_def dest: work.evicted_ work.evict_exit work.await_eviction intro!: exI)
next
  case CWantLock
  have "sd_closeCh s" using assms by (simp add: sd_inv_def)
  then show ?thesis
    using CWantLock holder_moves [of _ s] work.lock [of s]
    by (cases "list_all (\<lambda>d. \<not> holdsRead d) (sd_disp s)") (force simp: list_all_length)+
next
  case CLocked
  from work.close_chan [OF this] show ?thesis by (intro exI conjI, assumption) simp
next
  case CUnlock
  from work.unlock [OF this] show ?thesis by (intro exI conjI, assumption) simp
qed (use assms in auto)

lemma work_progress:
  assumes "sd_inv s" "sd_closer s \<noteq> CIdle" "sd_closer s \<noteq> CDone"
  shows "\<exists>t. work s t"
proof (cases "sd_closer s = CWaitWorker")
  case True
  then show ?thesis using assms
    by (cases "sd_worker s"; cases "sd_chan s")
      (auto simp: sd_inv_def intro: work.receive work.run work.drained work.cancel)
qed (use assms closing_progress in auto)

subsection \<open>Runs\<close>

abbreviation sd_reach :: "shutdown \<Rightarrow> bool" where
  "sd_reach \<equiv> reach sd_init sd_step"

lemma env_todo: "env_step s t \<Longrightarrow> sd_todo t \<le> Suc (sd_todo s)"
  by (induction rule: env_step.induct) (simp_all add: sd_todo_def)

lemma sd_steps_inv: "sd_step\<^sup>*\<^sup>* s t \<Longrightarrow> sd_inv s \<Longrightarrow> sd_inv t"
  by (induction rule: rtranclp_induct) (auto intro: closing.step_inv)

lemma closer_stays:
  "work s t \<Longrightarrow> sd_closer s \<noteq> CIdle \<Longrightarrow> sd_closer t \<noteq> CIdle"
  "env_step s t \<Longrightarrow> sd_closer s \<noteq> CIdle \<Longrightarrow> sd_closer t \<noteq> CIdle"
  by (elim workE env_stepE; simp add: sd_move_def sd_send_def)+

text \<open>Once \<open>Close\<close> has been called, the goroutines work towards its return.\<close>

interpretation returning: progress_machine work env_step sd_inv "\<lambda>s. sd_closer s \<noteq> CIdle"
    "\<lambda>s. sd_closer s = CDone" sd_todo 1
proof unfold_locales
  show "\<exists>t. work s t" if "sd_inv s" "sd_closer s \<noteq> CIdle" "sd_closer s \<noteq> CDone" for s
    by (rule work_progress [OF that])
qed (use env_todo in \<open>auto simp: sd_step_def intro: sd_inv_work sd_inv_env work_decreases
  dest: closer_stays\<close>)

subsection \<open>Callbacks that wait for their context\<close>

text \<open>\<open>context.Background()\<close> never ends.\<close>

definition ctx_ok :: "shutdown \<Rightarrow> bool" where
  "ctx_ok s \<longleftrightarrow> (sd_parentDone s \<longrightarrow> sd_base s \<noteq> Background)"

text \<open>What the steps of the goroutines and of the surroundings leave alone.\<close>

lemma work_keeps_context: "work s t \<Longrightarrow> sd_base t = sd_base s \<and> sd_parentDone t = sd_parentDone s"
  by (elim workE) (simp_all add: sd_move_def sd_send_def)

lemma env_keeps:
  "env_step s t \<Longrightarrow> sd_worker t = sd_worker s \<and> sd_ran t = sd_ran s \<and> sd_base t = sd_base s
    \<and> (sd_parentDone s \<longrightarrow> sd_parentDone t)"
  by (elim env_stepE) simp_all

lemma ctx_ok_work: "work s t \<Longrightarrow> ctx_ok s \<Longrightarrow> ctx_ok t"
  using work_keeps_context by (simp add: ctx_ok_def)

lemma ctx_ok_env: "env_step s t \<Longrightarrow> ctx_ok s \<Longrightarrow> ctx_ok t"
  by (elim env_stepE) (simp_all add: ctx_ok_def)

lemma ctx_ok_init: "sd_init s \<Longrightarrow> ctx_ok s"
  by (auto simp: sd_init_def sd_start_def ctx_ok_def)

interpretation contexts: rel_machine sd_init sd_step ctx_ok
  by unfold_locales (auto simp: sd_step_def intro: ctx_ok_init ctx_ok_work ctx_ok_env)

text \<open>The callbacks in \<open>W\<close> return only once their context has ended: they wait for \<open>ctx.Done()\<close>.  With
  the default base context, those that call \<open>Close\<close> are of this kind: \<open>closeOnce\<close> lets nobody by before
  the cancellation.\<close>

definition awaiting :: "(closure \<Rightarrow> bool) \<Rightarrow> shutdown \<Rightarrow> shutdown \<Rightarrow> bool" where
  "awaiting W s t \<longleftrightarrow> work s t
     \<and> (\<forall>q. W q \<and> sd_worker s = WRun q \<and> sd_worker t \<noteq> WRun q \<longrightarrow> ctxDone s)"

abbreviation stalled :: "(closure \<Rightarrow> bool) \<Rightarrow> shutdown \<Rightarrow> bool" where
  "stalled W s \<equiv> sd_inv s \<and> ctx_ok s \<and> sd_base s = Background \<and> (\<exists>q. W q \<and> sd_worker s = WRun q)"

lemma running_live:
  "sd_inv s \<Longrightarrow> sd_worker s = WRun q \<Longrightarrow> \<not> sd_cancelled s \<and> sd_closer s \<noteq> CDone"
  "sd_inv s \<Longrightarrow> sd_worker s = WRun q \<Longrightarrow> ctx_ok s \<Longrightarrow> sd_base s = Background \<Longrightarrow> \<not> ctxDone s"
  by (auto simp: sd_inv_def ctxDone_def ctx_ok_def)

lemma awaiting_stays:
  assumes "awaiting W s t" "sd_inv s" "ctx_ok s" "sd_base s = Background" "sd_worker s = WRun q" "W q"
  shows "sd_inv t \<and> ctx_ok t \<and> sd_base t = Background \<and> sd_worker t = WRun q \<and> sd_ran t = sd_ran s"
proof -
  have w: "work s t" "sd_worker t = WRun q"
    using assms running_live(2) [OF assms(2,5,3,4)] by (auto simp: awaiting_def)
  have "sd_ran t = sd_ran s"
    using w assms(5) by (elim workE) (simp_all add: sd_move_def sd_send_def)
  with w sd_inv_work [OF w(1) assms(2)] ctx_ok_work [OF w(1) assms(3)] work_keeps_context [OF w(1)] assms(4)
  show ?thesis by simp
qed

lemma awaiting_runs:
  assumes "mixed_run (awaiting W) env_step k n s t"
    "sd_inv s" "ctx_ok s" "sd_base s = Background" "sd_worker s = WRun q" "W q"
  shows "sd_inv t \<and> ctx_ok t \<and> sd_base t = Background \<and> sd_worker t = WRun q \<and> sd_ran t = sd_ran s"
  using assms
proof (induction rule: mixed_run.induct)
  case (run_go k n s t u)
  then show ?case using awaiting_stays [of W t u q] by simp
next
  case (run_around k n s t u)
  then show ?case using env_keeps [of t u] sd_inv_env [of t u] ctx_ok_env [of t u] by simp
qed simp

text \<open>Such a callback lets \<open>Close\<close> get to the wait for the worker, and no further.\<close>

interpretation hanging: progress_machine "awaiting W" env_step "stalled W"
    "\<lambda>s. sd_closer s \<noteq> CIdle" "\<lambda>s. sd_closer s = CWaitWorker" sd_todo 1 for W
proof unfold_locales
  show "\<exists>t. awaiting W s t"
    if "stalled W s" "sd_closer s \<noteq> CIdle" "sd_closer s \<noteq> CWaitWorker" for s
    using that closing_progress [of s] running_live(1) [of s] by (fastforce simp: awaiting_def)
  show "stalled W t" if "stalled W s" "awaiting W s t" for s t
    using that awaiting_stays [of W s t] by blast
  show "stalled W t" if "stalled W s" "env_step s t" for s t
    using that env_keeps [of s t] sd_inv_env [of s t] ctx_ok_env [of s t] by simp
qed (use env_todo in \<open>auto simp: awaiting_def intro: work_decreases dest: closer_stays\<close>)

text \<open>Once a context that was passed with \<open>WithBaseContext\<close> has ended, they hold up nothing.\<close>

interpretation released: progress_machine "awaiting W" env_step sd_inv
    "\<lambda>s. sd_closer s \<noteq> CIdle \<and> sd_parentDone s" "\<lambda>s. sd_closer s = CDone" sd_todo 1 for W
proof unfold_locales
  show "\<exists>t. awaiting W s t"
    if "sd_inv s" "sd_closer s \<noteq> CIdle \<and> sd_parentDone s" "sd_closer s \<noteq> CDone" for s
    using that work_progress [of s] by (auto simp: awaiting_def ctxDone_def)
qed (use env_todo in \<open>auto simp: awaiting_def intro: sd_inv_work sd_inv_env work_decreases
  dest: closer_stays work_keeps_context env_keeps\<close>)

lemma parent_releases:
  assumes "sd_reach s" "sd_closer s \<noteq> CIdle" "sd_parentDone s"
  shows "\<exists>t. (awaiting W)\<^sup>*\<^sup>* s t \<and> sd_closer t = CDone \<and> sd_ran t = sd_accepted t"
proof -
  have inv: "sd_inv s" by (rule closing.reach_inv [OF assms(1)])
  obtain t where t: "(awaiting W)\<^sup>*\<^sup>* s t" "sd_closer t = CDone"
    using released.goal_reached [OF inv] assms(2,3) by blast
  from t(1) have "sd_inv t"
    by (induction rule: rtranclp_induct) (use inv in \<open>auto simp: awaiting_def intro: sd_inv_work\<close>)
  then have "sd_ran t = sd_accepted t" using t(2) by (auto simp: sd_inv_def)
  with t show ?thesis by blast
qed

text \<open>Nothing is accepted or run once the context is cancelled.\<close>

lemma cancelled_step:
  assumes "sd_inv s" "sd_cancelled s" "sd_step s t"
  shows "sd_cancelled t \<and> sd_accepted t = sd_accepted s \<and> sd_ran t = sd_ran s"
proof -
  have w: "sd_worker s = WDone" "sd_closer s = CDone" "sd_chanClosed s"
    using assms(1,2) by (simp_all add: sd_inv_def)
  show ?thesis
    using assms(3) unfolding sd_step_def
    by (elim disjE workE env_stepE) (simp_all add: sd_move_def sd_send_def w assms(2))
qed

lemma cancelled_steps:
  assumes "sd_step\<^sup>*\<^sup>* s t" "sd_inv s" "sd_cancelled s"
  shows "sd_cancelled t \<and> sd_accepted t = sd_accepted s \<and> sd_ran t = sd_ran s"
  using assms
proof (induction rule: rtranclp_induct)
  case (step t u)
  then show ?case using cancelled_step [of t u] sd_steps_inv [of s t] by auto
qed simp

subsection \<open>The sequential model is a run\<close>

text \<open>What a state of the server shows of the protocol.\<close>

definition sd_sim :: "ADMSServer \<Rightarrow> shutdown \<Rightarrow> bool" where
  "sd_sim s c \<longleftrightarrow> callbackCh s = sd_chan c \<and> closing s = sd_closeCh c
     \<and> callbackBufferSize s = int (sd_cap c) \<and> sd_worker c = WIdle \<and> \<not> sd_chanClosed c"

lemma sim_workerTake:
  assumes "sd_sim s c"
  shows "\<exists>d. sd_step\<^sup>*\<^sup>* c d \<and> sd_sim (workerTake s) d \<and> sd_disp d = sd_disp c \<and> sd_closer d = sd_closer c"
proof (cases "sd_chan c")
  case Nil
  then show ?thesis using assms by (intro exI [of _ c]) (simp add: sd_sim_def workerTake_def)
next
  case (Cons q qs)
  let ?d1 = "c\<lparr>sd_chan := qs, sd_worker := WRun q\<rparr>"
  let ?d2 = "?d1\<lparr>sd_worker := WIdle, sd_ran := sd_ran c @ [q]\<rparr>"
  have "sd_step c ?d1" "sd_step ?d1 ?d2"
    using assms Cons work.receive [of c q qs] work.run [of ?d1 q] by (auto simp: sd_sim_def sd_step_def)
  then have "sd_step\<^sup>*\<^sup>* c ?d2" by auto
  moreover have "sd_sim (workerTake s) ?d2"
    using assms Cons by (simp add: sd_sim_def workerTake_def)
  ultimately show ?thesis by (intro exI [of _ ?d2]) simp
qed

lemma sim_workerRun:
  "sd_sim s c \<Longrightarrow>
    \<exists>d. sd_step\<^sup>*\<^sup>* c d \<and> sd_sim (workerRun n s) d \<and> sd_disp d = sd_disp c \<and> sd_closer d = sd_closer c"
proof (induction n arbitrary: s c)
  case (Suc n)
  obtain d where d: "sd_step\<^sup>*\<^sup>* c d" "sd_sim (workerTake s) d" "sd_disp d = sd_disp c"
      "sd_closer d = sd_closer c"
    using sim_workerTake [OF Suc.prems] by blast
  from Suc.IH [OF d(2)] d show ?case by (metis rtranclp_trans workerRun.simps(2))
qed auto

text \<open>One move of a dispatcher that keeps the rest.\<close>

lemma sim_move: "sd_sim s c \<Longrightarrow> sd_sim s (sd_move i d c)"
  by (simp add: sd_sim_def sd_move_def)

lemma sim_send: "sd_sim s c \<Longrightarrow> sd_sim (s\<lparr>callbackCh := callbackCh s @ [q]\<rparr>) (sd_send i q c)"
  by (simp add: sd_sim_def sd_send_def sd_move_def)

lemma move_fields [simp]:
  "sd_closer (sd_move i d c) = sd_closer c" "sd_closeCh (sd_move i d c) = sd_closeCh c"
  "sd_chan (sd_move i d c) = sd_chan c" "sd_cap (sd_move i d c) = sd_cap c"
  "sd_chanClosed (sd_move i d c) = sd_chanClosed c"
  "sd_disp (sd_move i d c) = (sd_disp c)[i := d]"
  by (simp_all add: sd_move_def)

text \<open>Dispatch call \<open>i\<close> can go on to return \<open>b\<close>, the server then showing \<open>s\<close>.\<close>

definition finishes :: "nat \<Rightarrow> bool \<Rightarrow> ADMSServer \<Rightarrow> shutdown \<Rightarrow> bool" where
  "finishes i b s c \<longleftrightarrow>
     (\<exists>d. sd_step\<^sup>*\<^sup>* c d \<and> sd_disp d = (sd_disp c)[i := DDone b] \<and> sd_sim s d)"

lemma finishes_step:
  assumes "work c d" "sd_disp d = (sd_disp c)[i := x]" "finishes i b s d"
  shows "finishes i b s c"
  using assms unfolding finishes_def sd_step_def
  by (metis (mono_tags, lifting) converse_rtranclp_into_rtranclp list_update_overwrite)

lemma finishes_steps:
  assumes "sd_step\<^sup>*\<^sup>* c d" "sd_disp d = sd_disp c" "finishes i b s d"
  shows "finishes i b s c"
  using assms unfolding finishes_def by (metis rtranclp_trans)

lemma finishes_exit:
  assumes "i < length (sd_disp c)" "sd_disp c ! i = DExit b" "sd_sim s c"
  shows "finishes i b s c"
proof -
  have "sd_step c (sd_move i (DDone b) c)"
    using assms by (auto simp: sd_step_def intro: work.runlock)
  then show ?thesis
    unfolding finishes_def using sim_move [OF assms(3)] by (intro exI [of _ "sd_move i (DDone b) c"]) auto
qed

lemma finishes_send:
  assumes "i < length (sd_disp c)" "sd_disp c ! i = DTry q \<or> sd_disp c ! i = DSlow q"
    "sd_sim s c" "length (sd_chan c) < sd_cap c"
  shows "finishes i True (s\<lparr>callbackCh := callbackCh s @ [q]\<rparr>) c"
proof -
  have d: "sd_disp (sd_send i q c) = (sd_disp c)[i := DExit True]"
    using assms(3) by (simp add: sd_send_def sd_sim_def)
  have "work c (sd_send i q c)"
    using assms by (auto intro: work.try_send work.slow_send)
  then show ?thesis
    by (rule finishes_step [OF _ d]) (simp add: finishes_exit sim_send assms d)
qed

text \<open>The blocking \<open>select\<close>, for each of its cases.\<close>

lemma finishes_slow:
  assumes "i < length (sd_disp c)" "sd_disp c ! i = DSlow q" "sd_sim s c" "chan_ok s" "sd_inv c"
    "\<not> closing s"
  shows "finishes i True (let t = workerTake s in t\<lparr>callbackCh := callbackCh t @ [q]\<rparr>) c"
    and "finishes i False s c" and "finishes i False (s\<lparr>closing := True\<rparr>) c"
proof -
  obtain d where d: "sd_step\<^sup>*\<^sup>* c d" "sd_sim (workerTake s) d" "sd_disp d = sd_disp c"
    using sim_workerTake [OF assms(3)] by blast
  have "length (sd_chan d) < sd_cap d"
    using assms(4) d(2) length_workerTake [of s] core_eqD(10) [OF core_workerTake [of s]]
    by (simp add: sd_sim_def chan_ok_def, linarith)
  then show "finishes i True (let t = workerTake s in t\<lparr>callbackCh := callbackCh t @ [q]\<rparr>) c"
    unfolding Let_def using d assms(1,2)
    by (intro finishes_steps [OF d(1,3)] finishes_send) simp_all
  have "work c (sd_move i (DExit False) c)"
    using assms by (blast intro: work.slow_timeout)
  then show "finishes i False s c"
    by (rule finishes_step) (use assms in \<open>auto intro: finishes_exit sim_move\<close>)
  let ?e = "c\<lparr>sd_closer := CWaitEviction, sd_closeCh := True\<rparr>"
  have e: "sd_step c ?e" "sd_sim (s\<lparr>closing := True\<rparr>) ?e"
    using assms by (auto simp: sd_step_def sd_inv_def sd_sim_def intro: env_step.close_call)
  have "work ?e (sd_move i (DExit False) ?e)"
    using assms by (intro work.slow_timeout) simp_all
  then have "finishes i False (s\<lparr>closing := True\<rparr>) ?e"
    by (rule finishes_step) (use assms e in \<open>auto intro: finishes_exit sim_move\<close>)
  with e show "finishes i False (s\<lparr>closing := True\<rparr>) c"
    by (auto intro: finishes_steps [of c ?e])
qed

text \<open>From each place of a dispatch call to its return, in the order of the code.\<close>

abbreviation dispatched :: "sched \<Rightarrow> closure \<Rightarrow> ADMSServer \<Rightarrow> nat \<Rightarrow> shutdown \<Rightarrow> bool" where
  "dispatched e q s i c \<equiv> finishes i (fst (dispatchCallback e q s)) (snd (dispatchCallback e q s)) c"

lemma dispatched_try:
  assumes "i < length (sd_disp c)" "sd_disp c ! i = DTry q" "sd_sim s c" "chan_ok s" "sd_inv c"
    "\<not> closing s" "sch_runs e = 0"
  shows "dispatched e q s i c"
proof (cases "int (length (callbackCh s)) < callbackBufferSize s")
  case True
  then show ?thesis
    using assms finishes_send [OF assms(1) _ assms(3), of q]
    by (simp add: dispatchCallback_def Let_def sd_sim_def)
next
  case False
  let ?d = "sd_move i (DSlow q) c"
  have w: "work c ?d" using False assms by (intro work.try_full) (simp_all add: sd_sim_def)
  have i: "i < length (sd_disp ?d)" "sd_disp ?d ! i = DSlow q" using assms by simp_all
  note slow = finishes_slow [OF i sim_move [OF assms(3)] assms(4) sd_inv_work [OF w assms(5)] assms(6)]
  have "dispatched e q s i ?d"
    using False assms slow by (simp add: dispatchCallback_def Let_def split: slow_wait.split)
  then show ?thesis by (rule finishes_step [OF w, of i "DSlow q", rotated]) simp
qed

lemma dispatched_check:
  assumes "i < length (sd_disp c)" "sd_disp c ! i = DCheck q" "sd_sim s c" "chan_ok s" "sd_inv c"
    "sch_runs e = 0"
  shows "dispatched e q s i c"
proof (cases "closing s")
  case True
  let ?d = "sd_move i (DExit False) c"
  have w: "work c ?d" using True assms by (intro work.check_closed) (simp_all add: sd_sim_def)
  have "finishes i False s ?d" using assms by (intro finishes_exit) (simp_all add: sim_move)
  with True assms(6) have "dispatched e q s i ?d" by (simp add: dispatchCallback_def Let_def)
  then show ?thesis by (rule finishes_step [OF w, of i "DExit False", rotated]) simp
next
  case False
  let ?d = "sd_move i (DTry q) c"
  have w: "work c ?d" using False assms by (intro work.check_open) (simp_all add: sd_sim_def)
  have "dispatched e q s i ?d"
    using assms False sd_inv_work [OF w] by (intro dispatched_try) (simp_all add: sim_move)
  then show ?thesis by (rule finishes_step [OF w, of i "DTry q", rotated]) simp
qed

lemma dispatched_start:
  assumes "i < length (sd_disp c)" "sd_disp c ! i = DIdle q" "sd_sim s c" "chan_ok s" "sd_inv c"
    "sd_closer c \<notin> {CWantLock, CLocked, CUnlock}"
  shows "dispatched e q s i c"
proof -
  let ?s = "workerRun (sch_runs e) s" and ?e = "e\<lparr>sch_runs := 0\<rparr>"
  obtain d where d: "sd_step\<^sup>*\<^sup>* c d" "sd_sim ?s d" "sd_disp d = sd_disp c" "sd_closer d = sd_closer c"
    using sim_workerRun [OF assms(3)] by blast
  let ?d = "sd_move i (DCheck q) d"
  have w: "work d ?d" using assms d by (intro work.rlock) simp_all
  have "sd_inv ?d" by (rule sd_inv_work [OF w sd_steps_inv [OF d(1) assms(5)]])
  then have "dispatched ?e q ?s i ?d"
    using assms d by (intro dispatched_check) (simp_all add: sim_move chan_ok_workerRun)
  moreover have "dispatchCallback ?e q ?s = dispatchCallback e q s"
    by (cases "sch_slow e") (simp_all add: dispatchCallback_def Let_def)
  ultimately have "dispatched e q s i ?d" by simp
  then have "dispatched e q s i d" by (rule finishes_step [OF w, of i "DCheck q", rotated]) simp
  then show ?thesis by (rule finishes_steps [OF d(1,3)])
qed

subsection \<open>Properties of closing\<close>

text \<open>C9 In every reachable state, with any number of dispatch calls racing with \<open>Close\<close>: nobody
  has sent on the closed channel, which would panic, and the accepted callbacks are, in order, those
  that ran, the one running and those waiting.\<close>

theorem no_send_after_close:
  "sd_reach s \<Longrightarrow> \<not> sd_panicked s \<and> sd_accepted s = sd_ran s @ running (sd_worker s) @ sd_chan s"
  using closing.reach_inv [of s] by (simp add: sd_inv_def)

text \<open>The server cancels the base context only after every accepted callback has run, in order of
  acceptance; from then on no callback is accepted and none runs.\<close>

lemma cancelled_after_callbacks:
  assumes "sd_reach s" "sd_cancelled s" "sd_step\<^sup>*\<^sup>* s t"
  shows "sd_ran t = sd_accepted t \<and> sd_accepted t = sd_accepted s \<and> sd_ran t = sd_ran s \<and> sd_cancelled t"
proof -
  have inv: "sd_inv s" by (rule closing.reach_inv [OF assms(1)])
  then have "sd_ran s = sd_accepted s" using assms(2) by (simp add: sd_inv_def)
  with cancelled_steps [OF assms(3) inv assms(2)] show ?thesis by simp
qed

text \<open>C14 Provided that every callback ends, \<open>Close\<close>, once called, can always go on until it returns, whatever
  has happened so far: the goroutines are never stuck before, and they make at most
  \<open>sd_todo\<close> steps plus one for each step of the surroundings (a tick of the eviction timer).\<close>

theorem close_returns:
  assumes "sd_reach s" "sd_closer s \<noteq> CIdle"
  shows "(\<exists>t. work\<^sup>*\<^sup>* s t \<and> sd_closer t = CDone)
    \<and> (\<forall>k n t. \<not> (mixed_run work env_step k n s t \<and> sd_todo s + k < n))
    \<and> (\<forall>k n t. \<not> (mixed_run work env_step k n s t \<and> sd_closer t \<noteq> CDone \<and> (\<nexists>u. work t u)))"
proof -
  have inv: "sd_inv s" by (rule closing.reach_inv [OF assms(1)])
  show ?thesis
    using returning.goal_reached [OF inv assms(2)] returning.run_bound [OF _ inv]
      returning.never_stuck [OF _ inv assms(2)] by fastforce
qed

text \<open>C16 With the default base context, a callback that waits for its context to end, as one that calls
  \<open>Close\<close> does, makes \<open>Close\<close> hang, because the context is cancelled only after the callbacks: it runs for
  ever, no other callback runs, and once \<open>Close\<close> has been called every run, however its steps are
  ordered, comes to the wait for the callback worker within \<open>sd_todo\<close> steps plus the timer's ticks, and
  stops there.\<close>

theorem close_hangs:
  assumes "sd_reach s" "sd_base s = Background" "sd_worker s = WRun q" "W q"
    and run: "mixed_run (awaiting W) env_step k n s t"
  shows "sd_worker t = WRun q \<and> sd_ran t = sd_ran s \<and> \<not> ctxDone t \<and> sd_closer t \<noteq> CDone
      \<and> (sd_closer s \<noteq> CIdle \<longrightarrow> n \<le> sd_todo s + k \<and> (sd_closer t = CWaitWorker \<or> (\<exists>u. awaiting W t u)))"
proof -
  have inv: "stalled W s"
    using closing.reach_inv [OF assms(1)] contexts.reach_inv [OF assms(1)] assms(2-4) by auto
  have t: "sd_inv t" "sd_worker t = WRun q" "sd_ran t = sd_ran s" "sd_base t = Background"
    and c: "ctx_ok t"
    using awaiting_runs [OF run _ _ assms(2-4)] inv by simp_all
  show ?thesis
    using t running_live(1) [OF t(1,2)] running_live(2) [OF t(1,2) c t(4)] hanging.run_bound [OF run inv] hanging.never_stuck [OF run inv]
    by auto
qed

text \<open>C25 The sequential model of \<open>dispatchCallback\<close> is sound for the protocol: from a state that shows
  the server, each of its outcomes is the outcome of a run of the goroutines in which the call returns
  that result, and which ends in a state that shows the resulting server.\<close>

theorem dispatch_refines_protocol:
  assumes "sd_reach c" "sd_sim s c" "chan_ok s" "i < length (sd_disp c)" "sd_disp c ! i = DIdle q"
    "sd_closer c \<notin> {CWantLock, CLocked, CUnlock}" "dispatchCallback e q s = (b, s')"
  shows "\<exists>d. sd_step\<^sup>*\<^sup>* c d \<and> sd_disp d = (sd_disp c)[i := DDone b] \<and> sd_sim s' d"
  using dispatched_start [OF assms(4,5,2,3) closing.reach_inv [OF assms(1)] assms(6), of e] assms(7)
  by (simp add: finishes_def)

subsection \<open>One callback and a \<open>Close\<close>, step by step\<close>

lemma work_is_step: "work s t \<Longrightarrow> sd_step s t"
  by (simp add: sd_step_def)

lemma env_is_step: "env_step s t \<Longrightarrow> sd_step s t"
  by (simp add: sd_step_def)

lemma go_on: "sd_reach s \<Longrightarrow> work s t \<Longrightarrow> sd_reach t"
  by (erule reach_step) (erule work_is_step)

abbreviation demoCall :: closure where
  "demoCall \<equiv> RegistryCall ''D1'' fmempty"

definition demoSent :: shutdown where
  "demoSent = (sd_start 1 [demoCall])\<lparr>sd_disp := [DDone True], sd_chan := [demoCall], sd_accepted := [demoCall]\<rparr>"

definition demoClosing :: shutdown where
  "demoClosing = demoSent\<lparr>sd_closer := CWaitEviction, sd_closeCh := True\<rparr>"

definition demoClosed :: shutdown where
  "demoClosed = demoClosing\<lparr>sd_worker := WDone, sd_evictor := EDone, sd_closer := CDone, sd_chan := [],
     sd_chanClosed := True, sd_evictionDone := True, sd_callbackDone := True, sd_cancelled := True,
     sd_ran := [demoCall]\<rparr>"

lemma demo_start: "sd_reach (sd_start 1 [demoCall])"
  by (rule reach_init) (rule sd_init_start)

lemma demo_sent: "sd_reach demoSent"
proof -
  note s0 = demo_start
  note s1 = go_on [OF s0 work.rlock [of 0 _ demoCall]]
  note s2 = go_on [OF s1 work.check_open [of 0 _ demoCall]]
  note s3 = go_on [OF s2 work.try_send [of 0 _ demoCall]]
  note s4 = go_on [OF s3 work.runlock [of 0 _ True]]
  show ?thesis using s4 by (simp add: sd_start_def sd_move_def sd_send_def demoSent_def)
qed

lemma demo_closing: "sd_reach demoClosing"
proof -
  have "env_step demoSent demoClosing"
    unfolding demoClosing_def by (rule env_step.close_call) (simp add: demoSent_def sd_start_def)
  then show ?thesis by (rule reach_step [OF demo_sent env_is_step])
qed

lemma demo_closed: "sd_reach demoClosed"
proof -
  note s0 = demo_closing
  note s1 = go_on [OF s0 work.evict_exit]
  note s2 = go_on [OF s1 work.await_eviction]
  note s3 = go_on [OF s2 work.lock]
  note s4 = go_on [OF s3 work.close_chan]
  note s5 = go_on [OF s4 work.unlock]
  note s6 = go_on [OF s5 work.receive [of _ demoCall "[]"]]
  note s7 = go_on [OF s6 work.run [of _ demoCall]]
  note s8 = go_on [OF s7 work.drained]
  note s9 = go_on [OF s8 work.cancel]
  show ?thesis using s9
    by (simp add: sd_start_def demoSent_def demoClosing_def demoClosed_def)
qed

theorem no_send_after_close_witness: "\<not> sd_panicked demoClosed"
  using no_send_after_close [OF demo_closed] by (rule conjunct1)

theorem close_returns_witness: "\<exists>t. work\<^sup>*\<^sup>* demoClosing t \<and> sd_closer t = CDone"
proof -
  have "sd_closer demoClosing \<noteq> CIdle" by (simp add: demoClosing_def)
  from close_returns [OF demo_closing this] show ?thesis by (rule conjunct1)
qed

text \<open>The callback has been received, \<open>Close\<close> is called, and everything else is done.\<close>

definition demoRunning :: shutdown where
  "demoRunning = demoSent\<lparr>sd_chan := [], sd_worker := WRun demoCall\<rparr>"

definition demoStuck :: shutdown where
  "demoStuck = demoRunning\<lparr>sd_evictor := EDone, sd_closer := CWaitWorker, sd_closeCh := True,
     sd_chanClosed := True, sd_evictionDone := True\<rparr>"

lemma demo_running: "sd_reach demoRunning"
  using go_on [OF demo_sent work.receive [of _ demoCall "[]"]]
  by (simp add: demoSent_def demoRunning_def sd_start_def)

lemma go_other:
  "mixed_run (awaiting W) env_step k n s t \<Longrightarrow> work t u \<Longrightarrow> sd_worker u = sd_worker t
    \<Longrightarrow> mixed_run (awaiting W) env_step k (Suc n) s u"
  by (erule mixed_run.run_go) (simp add: awaiting_def)

lemma go_closing:
  "sd_closer s = CIdle \<Longrightarrow> mixed_run (awaiting W) env_step (Suc 0) 0 s
     (s\<lparr>sd_closer := CWaitEviction, sd_closeCh := True\<rparr>)"
  by (blast intro: mixed_run.intros env_step.close_call)

lemma demo_stuck: "mixed_run (awaiting W) env_step (Suc 0) 5 demoRunning demoStuck"
proof -
  note s0 = go_closing [of demoRunning W]
  note s1 = go_other [OF s0 work.evict_exit]
  note s2 = go_other [OF s1 work.await_eviction]
  note s3 = go_other [OF s2 work.lock]
  note s4 = go_other [OF s3 work.close_chan]
  note s5 = go_other [OF s4 work.unlock]
  show ?thesis using s5
    by (simp add: sd_start_def demoSent_def demoRunning_def demoStuck_def numeral_eq_Suc)
qed

theorem close_hangs_witness:
  "sd_reach demoRunning \<and> mixed_run (awaiting (\<lambda>q. q = demoCall)) env_step 1 5 demoRunning demoStuck
    \<and> sd_closer demoStuck = CWaitWorker \<and> sd_worker demoStuck = WRun demoCall \<and> \<not> ctxDone demoStuck"
proof -
  have r: "sd_worker demoRunning = WRun demoCall" by (simp add: demoRunning_def)
  have b: "sd_base demoRunning = Background" by (simp add: demoRunning_def demoSent_def sd_start_def)
  note run = demo_stuck [of "\<lambda>q. q = demoCall"]
  have "sd_closer demoStuck = CWaitWorker" by (simp add: demoStuck_def)
  with close_hangs [OF demo_running b r, of "\<lambda>q. q = demoCall", OF refl run] run demo_running
  show ?thesis by simp
qed

theorem dispatch_refines_protocol_witness:
  "\<exists>d. sd_step\<^sup>*\<^sup>* (sd_start 1 [demoCall]) d \<and> sd_disp d = [DDone True]"
proof -
  let ?s = "(newServer UTC)\<lparr>callbackBufferSize := 1\<rparr>" and ?e = "\<lparr>sch_runs = 0, sch_slow = TimerExpired\<rparr>"
  have sim: "sd_sim ?s (sd_start 1 [demoCall])" "chan_ok ?s"
    by (simp_all add: sd_sim_def sd_start_def newServer_def chan_ok_def)
  have d: "dispatchCallback ?e demoCall ?s = (True, ?s\<lparr>callbackCh := [demoCall]\<rparr>)"
    by (simp add: dispatchCallback_def newServer_def)
  have c: "sd_closer (sd_start 1 [demoCall]) \<notin> {CWantLock, CLocked, CUnlock}"
    "0 < length (sd_disp (sd_start 1 [demoCall]))" "sd_disp (sd_start 1 [demoCall]) ! 0 = DIdle demoCall"
    by (simp_all add: sd_start_def)
  from dispatch_refines_protocol [OF demo_start sim c(2,3,1) d] show ?thesis
    by (auto simp: sd_start_def)
qed

end
