(* ===== verification/Example_Run.thy ===== *)
theory Example_Run
  imports Adms_Shutdown
begin

section \<open>How the programs run and stop (\<open>run\<close> in the examples and the probe)\<close>

text \<open>
  The four programs share their life cycle: an HTTP server in front of the ADMS server, a goroutine
  that calls \<open>srv.Shutdown\<close> with a timeout when the context is done, and a main goroutine that
  returns from \<open>ListenAndServe\<close>, which \<open>net/http\<close> documents to return as soon as \<open>Shutdown\<close> is
  called, and then runs the deferred \<open>server.Close()\<close>.  When main has returned the process is gone.  Of
  a request in flight the one call of \<open>dispatchCallback\<close> of an upload is seen, as a dispatcher of the
  closing protocol, and the moment its answer is written.
\<close>

subsection \<open>State and steps\<close>

text \<open>The goroutine: before \<open>ctx.Done()\<close> fires, inside \<open>srv.Shutdown\<close>, returned.  The main
  goroutine: in \<open>ListenAndServe\<close>, in the deferred \<open>server.Close()\<close>, returned.\<close>

datatype shutter = ShutWait | ShutActive | ShutDone

datatype main_place = MServe | MClose | MExit

text \<open>\<open>pg_waited\<close> is the time since \<open>srv.Shutdown\<close> was called, \<open>pg_seen\<close> what the callbacks had
  run when \<open>ListenAndServe\<close> returned, \<open>pg_answered\<close> the requests whose answer is written.\<close>

record program =
  pg_adms :: shutdown
  pg_ctxDone :: bool
  pg_shutter :: shutter
  pg_waited :: int
  pg_main :: main_place
  pg_answered :: "nat list"
  pg_seen :: "closure list"

definition pg_start :: "nat \<Rightarrow> program" where
  "pg_start cap =
     \<lparr>pg_adms = sd_start cap [], pg_ctxDone = False, pg_shutter = ShutWait, pg_waited = 0,
      pg_main = MServe, pg_answered = [], pg_seen = []\<rparr>"

definition pg_init :: "program \<Rightarrow> bool" where
  "pg_init p \<longleftrightarrow> (\<exists>cap. p = pg_start cap)"

text \<open>The requests that have not been answered yet.\<close>

definition inFlight :: "program \<Rightarrow> nat list" where
  "inFlight p = filter (\<lambda>i. i \<notin> set (pg_answered p)) [0..<length (sd_disp (pg_adms p))]"

text \<open>The goroutine, for a timeout: \<open>Shutdown\<close> returns when no connection is active, or at the timeout.\<close>

inductive shutterStep :: "int \<Rightarrow> program \<Rightarrow> program \<Rightarrow> bool" for limit where
  ctx_done: "pg_shutter p = ShutWait \<Longrightarrow> pg_ctxDone p \<Longrightarrow> shutterStep limit p (p\<lparr>pg_shutter := ShutActive\<rparr>)"
| idle: "pg_shutter p = ShutActive \<Longrightarrow> inFlight p = [] \<Longrightarrow> shutterStep limit p (p\<lparr>pg_shutter := ShutDone\<rparr>)"
| timed_out: "pg_shutter p = ShutActive \<Longrightarrow> limit \<le> pg_waited p
    \<Longrightarrow> shutterStep limit p (p\<lparr>pg_shutter := ShutDone\<rparr>)"

text \<open>The deferred call of \<open>server.Close()\<close>, when \<open>ListenAndServe\<close> returns.\<close>

definition beginClose :: "program \<Rightarrow> program" where
  "beginClose p = p\<lparr>pg_main := MClose, pg_seen := sd_ran (pg_adms p),
     pg_adms := (pg_adms p)\<lparr>sd_closer := CWaitEviction, sd_closeCh := True\<rparr>\<rparr>"

inductive mainStep :: "program \<Rightarrow> program \<Rightarrow> bool" where
  server_closed: "pg_main p = MServe \<Longrightarrow> pg_shutter p \<noteq> ShutWait \<Longrightarrow> mainStep p (beginClose p)"
| close_returned: "pg_main p = MClose \<Longrightarrow> sd_closer (pg_adms p) = CDone
    \<Longrightarrow> mainStep p (p\<lparr>pg_main := MExit\<rparr>)"

text \<open>One step of the program, while the process is there.\<close>

inductive runStep :: "int \<Rightarrow> program \<Rightarrow> program \<Rightarrow> bool" for limit where
  shutting: "pg_main p \<noteq> MExit \<Longrightarrow> shutterStep limit p q \<Longrightarrow> runStep limit p q"
| main: "pg_main p \<noteq> MExit \<Longrightarrow> mainStep p q \<Longrightarrow> runStep limit p q"
| serving: "pg_main p \<noteq> MExit \<Longrightarrow> work (pg_adms p) a \<Longrightarrow> runStep limit p (p\<lparr>pg_adms := a\<rparr>)"
| answer: "pg_main p \<noteq> MExit \<Longrightarrow> i < length (sd_disp (pg_adms p)) \<Longrightarrow> sd_disp (pg_adms p) ! i = DDone b
    \<Longrightarrow> i \<notin> set (pg_answered p) \<Longrightarrow> runStep limit p (p\<lparr>pg_answered := pg_answered p @ [i]\<rparr>)"

text \<open>What the surroundings do: send a request while the listener is open, tick, cancel the context,
  let time pass, or make \<open>ListenAndServe\<close> fail.\<close>

inductive aroundStep :: "program \<Rightarrow> program \<Rightarrow> bool" where
  arrive: "pg_main p = MServe \<Longrightarrow> pg_shutter p = ShutWait
    \<Longrightarrow> aroundStep p (p\<lparr>pg_adms := (pg_adms p)\<lparr>sd_disp := sd_disp (pg_adms p) @ [DIdle q]\<rparr>\<rparr>)"
| timer: "pg_main p \<noteq> MExit \<Longrightarrow> sd_evictor (pg_adms p) = EIdle
    \<Longrightarrow> aroundStep p (p\<lparr>pg_adms := (pg_adms p)\<lparr>sd_evictor := EEvict\<rparr>\<rparr>)"
| cancelled_ctx: "aroundStep p (p\<lparr>pg_ctxDone := True\<rparr>)"
| elapse: "0 < d \<Longrightarrow> pg_shutter p = ShutActive \<Longrightarrow> aroundStep p (p\<lparr>pg_waited := pg_waited p + d\<rparr>)"
| serve_failed: "pg_main p = MServe \<Longrightarrow> aroundStep p (beginClose p)"

definition pg_step :: "int \<Rightarrow> program \<Rightarrow> program \<Rightarrow> bool" where
  "pg_step limit p q \<longleftrightarrow> runStep limit p q \<or> aroundStep p q"

inductive_cases shutterStepE: "shutterStep limit p q"
inductive_cases mainStepE: "mainStep p q"
inductive_cases runStepE: "runStep limit p q"
inductive_cases aroundStepE: "aroundStep p q"

text \<open>The four programs differ in the timeout.\<close>

definition commandsRun :: "program \<Rightarrow> program \<Rightarrow> bool" where
  "commandsRun = runStep (10 * second)"

definition basicRun :: "program \<Rightarrow> program \<Rightarrow> bool" where
  "basicRun = runStep (10 * second)"

definition databaseRun :: "program \<Rightarrow> program \<Rightarrow> bool" where
  "databaseRun = runStep (10 * second)"

definition probeRun :: "program \<Rightarrow> program \<Rightarrow> bool" where
  "probeRun = runStep (5 * second)"

lemmas run_defs = commandsRun_def basicRun_def databaseRun_def probeRun_def

subsection \<open>The invariant\<close>

definition pg_inv :: "program \<Rightarrow> bool" where
  "pg_inv p \<longleftrightarrow>
     sd_inv (pg_adms p)
     \<and> (pg_main p = MServe \<longleftrightarrow> sd_closer (pg_adms p) = CIdle)
     \<and> (pg_main p = MExit \<longrightarrow> sd_closer (pg_adms p) = CDone)
     \<and> (pg_shutter p = ShutWait \<or> pg_ctxDone p)
     \<and> distinct (pg_answered p)
     \<and> list_all (\<lambda>i. i < length (sd_disp (pg_adms p)) \<and> (\<exists>b. sd_disp (pg_adms p) ! i = DDone b)) (pg_answered p)"

lemma sd_inv_arrive: "sd_inv s \<Longrightarrow> sd_inv (s\<lparr>sd_disp := sd_disp s @ [DIdle q]\<rparr>)"
  by (auto simp: sd_inv_def)

lemma sd_inv_close: "sd_inv s \<Longrightarrow> sd_closer s = CIdle \<Longrightarrow> sd_inv (s\<lparr>sd_closer := CWaitEviction, sd_closeCh := True\<rparr>)"
  by (rule sd_inv_env [OF _ env_step.close_call])

lemma sd_inv_tick: "sd_inv s \<Longrightarrow> sd_evictor s = EIdle \<Longrightarrow> sd_inv (s\<lparr>sd_evictor := EEvict\<rparr>)"
  by (rule sd_inv_env [OF _ env_step.tick])

text \<open>A dispatch that has returned stays so.\<close>

lemma work_keeps_done:
  "work s t \<Longrightarrow> length (sd_disp t) = length (sd_disp s)
    \<and> (i < length (sd_disp s) \<longrightarrow> sd_disp s ! i = DDone b \<longrightarrow> sd_disp t ! i = DDone b)"
  by (induction rule: work.induct) (auto simp: sd_send_def nth_list_update)

text \<open>The goroutines never call \<open>Close\<close>.\<close>

lemma work_not_closing: "work s t \<Longrightarrow> (sd_closer t = CIdle) = (sd_closer s = CIdle) \<and> (sd_closer s = CDone \<longrightarrow> sd_closer t = CDone)"
  by (induction rule: work.induct) (auto simp: sd_send_def)

lemma pg_inv_begin: "pg_inv p \<Longrightarrow> pg_main p = MServe \<Longrightarrow> pg_inv (beginClose p)"
  by (auto simp: pg_inv_def beginClose_def intro: sd_inv_close)

lemma pg_inv_run:
  assumes "pg_inv p" "runStep limit p q"
  shows "pg_inv q"
  using assms(2)
proof (cases rule: runStep.cases)
  case shutting
  from shutting(2) show ?thesis
    by (cases rule: shutterStep.cases) (use assms(1) in \<open>auto simp: pg_inv_def\<close>)
next
  case main
  from main(2) show ?thesis
    by (cases rule: mainStep.cases) (use assms(1) pg_inv_begin in \<open>auto simp: pg_inv_def\<close>)
next
  case (serving a)
  then show ?thesis
    using assms(1) sd_inv_work [OF serving(3)] work_keeps_done [OF serving(3)] work_not_closing [OF serving(3)]
    by (auto simp: pg_inv_def list_all_iff)
next
  case (answer i b)
  then show ?thesis using assms(1) by (auto simp: pg_inv_def)
qed

lemma pg_inv_around:
  assumes "pg_inv p" "aroundStep p q"
  shows "pg_inv q"
  using assms(2)
proof (cases rule: aroundStep.cases)
  case (arrive c)
  then show ?thesis using assms(1) sd_inv_arrive by (auto simp: pg_inv_def list_all_iff nth_append)
next
  case timer
  then show ?thesis using assms(1) sd_inv_tick by (auto simp: pg_inv_def)
qed (use assms(1) pg_inv_begin in \<open>auto simp: pg_inv_def\<close>)

lemma sd_start_facts: "sd_inv (sd_start cap qs)" "sd_closer (sd_start cap qs) = CIdle"
  by (rule sd_inv_init [OF sd_init_start]) (simp add: sd_start_def)

interpretation programs: rel_machine pg_init "pg_step limit" pg_inv for limit
proof unfold_locales
  show "pg_inv p" if "pg_init p" for p
    using that by (auto simp: pg_init_def pg_start_def pg_inv_def sd_start_facts)
qed (auto simp: pg_step_def intro: pg_inv_run pg_inv_around)

subsection \<open>Progress\<close>

fun shutter_todo :: "shutter \<Rightarrow> nat" where
  "shutter_todo ShutWait = 2"
| "shutter_todo ShutActive = 1"
| "shutter_todo ShutDone = 0"

fun main_todo :: "main_place \<Rightarrow> nat" where
  "main_todo MServe = 2"
| "main_todo MClose = 1"
| "main_todo MExit = 0"

definition pg_todo :: "program \<Rightarrow> nat" where
  "pg_todo p = sd_todo (pg_adms p) + length (inFlight p) + shutter_todo (pg_shutter p) + main_todo (pg_main p)"

lemma inFlight_answer:
  assumes "i < length (sd_disp (pg_adms p))" "i \<notin> set (pg_answered p)"
  shows "Suc (length (inFlight (p\<lparr>pg_answered := pg_answered p @ [i]\<rparr>))) = length (inFlight p)"
proof -
  have "filter (\<lambda>j. j \<notin> set (pg_answered p @ [i])) [0..<length (sd_disp (pg_adms p))]
      = remove1 i (inFlight p)"
    unfolding inFlight_def by (simp add: distinct_remove1_removeAll removeAll_filter_not_eq)
      (rule filter_cong; auto)
  moreover have "i \<in> set (inFlight p)" using assms by (simp add: inFlight_def)
  ultimately show ?thesis
    by (simp add: inFlight_def [of "p\<lparr>pg_answered := pg_answered p @ [i]\<rparr>"] length_remove1)
      (use length_pos_if_in_set in fastforce)
qed

lemma inFlight_cong:
  "length (sd_disp (pg_adms q)) = length (sd_disp (pg_adms p)) \<Longrightarrow> pg_answered q = pg_answered p
    \<Longrightarrow> inFlight q = inFlight p"
  by (simp add: inFlight_def)

lemma inFlight_fields [simp]:
  "inFlight (p\<lparr>pg_shutter := x\<rparr>) = inFlight p" "inFlight (p\<lparr>pg_main := y\<rparr>) = inFlight p"
  "inFlight (p\<lparr>pg_ctxDone := b\<rparr>) = inFlight p" "inFlight (p\<lparr>pg_waited := d\<rparr>) = inFlight p"
  "inFlight (beginClose p) = inFlight p"
  by (rule inFlight_cong; simp add: beginClose_def)+

lemma begin_todo:
  assumes "pg_inv p" "pg_main p = MServe"
  shows "Suc (pg_todo (beginClose p)) \<le> pg_todo p"
  using assms by (simp add: pg_todo_def) (simp add: beginClose_def pg_inv_def sd_todo_def)

lemma run_less:
  assumes "pg_inv p" "runStep limit p q"
  shows "Suc (pg_todo q) \<le> pg_todo p"
  using assms(2)
proof (cases rule: runStep.cases)
  case shutting
  from shutting(2) show ?thesis by (cases rule: shutterStep.cases) (simp_all add: pg_todo_def)
next
  case main
  from main(2) show ?thesis
    by (cases rule: mainStep.cases) (use begin_todo [OF assms(1)] in \<open>simp_all add: pg_todo_def\<close>)
next
  case (serving a)
  have "length (sd_disp a) = length (sd_disp (pg_adms p))" using work_keeps_done [OF serving(3)] by blast
  then have "inFlight (p\<lparr>pg_adms := a\<rparr>) = inFlight p" by (intro inFlight_cong) simp_all
  moreover have "Suc (sd_todo a) \<le> sd_todo (pg_adms p)"
    using assms(1) by (intro work_decreases serving(3)) (simp add: pg_inv_def)
  ultimately show ?thesis by (simp add: pg_todo_def serving(1))
next
  case (answer i b)
  then show ?thesis using inFlight_answer [of i p] by (simp add: pg_todo_def)
qed

lemma around_more:
  assumes "pg_inv p" "aroundStep p q"
  shows "pg_todo q \<le> pg_todo p + 9"
  using assms(2)
proof (cases rule: aroundStep.cases)
  case (arrive c)
  have "length (inFlight q) \<le> Suc (length (inFlight p))"
    by (simp add: inFlight_def arrive(1))
  then show ?thesis by (simp add: pg_todo_def arrive(1) sd_todo_def)
next
  case timer
  have "inFlight q = inFlight p" by (rule inFlight_cong) (simp_all add: timer(1))
  then show ?thesis using timer by (simp add: pg_todo_def sd_todo_def)
qed (use begin_todo [OF assms(1)] in \<open>simp_all add: pg_todo_def\<close>)

definition stopping :: "program \<Rightarrow> bool" where
  "stopping p \<longleftrightarrow> pg_ctxDone p \<or> pg_main p \<noteq> MServe"

lemma run_goes_on:
  assumes "pg_inv p" "stopping p" "pg_main p \<noteq> MExit"
  shows "\<exists>q. runStep limit p q"
proof (cases "pg_main p")
  case MServe
  have "pg_shutter p = ShutWait \<Longrightarrow> runStep limit p (p\<lparr>pg_shutter := ShutActive\<rparr>)"
    using MServe assms(2) by (intro runStep.shutting shutterStep.ctx_done) (simp_all add: stopping_def)
  moreover have "pg_shutter p \<noteq> ShutWait \<Longrightarrow> runStep limit p (beginClose p)"
    using MServe by (intro runStep.main mainStep.server_closed) simp_all
  ultimately show ?thesis by blast
next
  case MClose
  show ?thesis
  proof (cases "sd_closer (pg_adms p) = CDone")
    case True
    with MClose have "runStep limit p (p\<lparr>pg_main := MExit\<rparr>)"
      by (intro runStep.main mainStep.close_returned) simp_all
    then show ?thesis by blast
  next
    case False
    then obtain a where "work (pg_adms p) a"
      using work_progress [of "pg_adms p"] assms(1) MClose by (auto simp: pg_inv_def)
    with MClose have "runStep limit p (p\<lparr>pg_adms := a\<rparr>)" by (intro runStep.serving) simp_all
    then show ?thesis by blast
  qed
qed (use assms in simp)

lemma stopping_stays: "stopping p \<Longrightarrow> runStep limit p q \<or> aroundStep p q \<Longrightarrow> stopping q"
  by (elim disjE runStepE shutterStepE mainStepE aroundStepE)
    (auto simp: stopping_def beginClose_def)

interpretation stopping_run: progress_machine "runStep limit" aroundStep pg_inv stopping
    "\<lambda>p. pg_main p = MExit" pg_todo 9 for limit
  by unfold_locales
    (blast intro: pg_inv_run pg_inv_around run_less around_more run_goes_on stopping_stays)+

subsection \<open>Three runs of one upload\<close>

abbreviation pg_reach :: "int \<Rightarrow> program \<Rightarrow> bool" where
  "pg_reach limit \<equiv> reach pg_init (pg_step limit)"

lemma reach_run: "pg_reach limit p \<Longrightarrow> runStep limit p q \<Longrightarrow> pg_reach limit q"
  by (rule reach_step, assumption) (simp add: pg_step_def)

lemma reach_around: "pg_reach limit p \<Longrightarrow> aroundStep p q \<Longrightarrow> pg_reach limit q"
  by (rule reach_step, assumption) (simp add: pg_step_def)

lemma reach_works:
  assumes "work\<^sup>*\<^sup>* (pg_adms p) a" "pg_reach limit p" "pg_main p \<noteq> MExit"
  shows "pg_reach limit (p\<lparr>pg_adms := a\<rparr>)"
  using assms(1)
proof (induction rule: rtranclp_induct)
  case (step a b)
  have "runStep limit (p\<lparr>pg_adms := a\<rparr>) ((p\<lparr>pg_adms := a\<rparr>)\<lparr>pg_adms := b\<rparr>)"
    using assms(3) step(2) by (intro runStep.serving) simp_all
  from reach_run [OF step(3) this] show ?case by simp
qed (use assms(2) in simp)

text \<open>The end of \<open>Close\<close> while nobody holds the lock and nothing waits.\<close>

definition closedDown :: "shutdown \<Rightarrow> shutdown" where
  "closedDown s = s\<lparr>sd_worker := WDone, sd_evictor := EDone, sd_closer := CDone, sd_chanClosed := True,
     sd_evictionDone := True, sd_callbackDone := True, sd_cancelled := True\<rparr>"

lemma close_down:
  assumes "sd_closer s = CWaitEviction" "sd_closeCh s" "sd_evictor s = EIdle" "sd_worker s = WIdle"
    "sd_chan s = []" "list_all (\<lambda>d. \<not> holdsRead d) (sd_disp s)"
  shows "work\<^sup>*\<^sup>* s (closedDown s)"
proof -
  let ?s1 = "s\<lparr>sd_evictor := EDone, sd_evictionDone := True\<rparr>"
  let ?s2 = "?s1\<lparr>sd_closer := CWantLock\<rparr>"
  let ?s3 = "?s2\<lparr>sd_closer := CLocked\<rparr>"
  let ?s4 = "?s3\<lparr>sd_closer := CUnlock, sd_chanClosed := True\<rparr>"
  let ?s5 = "?s4\<lparr>sd_closer := CWaitWorker\<rparr>"
  let ?s6 = "?s5\<lparr>sd_worker := WDone, sd_callbackDone := True\<rparr>"
  let ?s7 = "?s6\<lparr>sd_closer := CDone, sd_cancelled := True\<rparr>"
  have "work s ?s1" "work ?s1 ?s2" "work ?s2 ?s3" "work ?s3 ?s4" "work ?s4 ?s5" "work ?s5 ?s6" "work ?s6 ?s7"
    using assms
    by (intro work.evict_exit work.await_eviction work.lock work.close_chan work.unlock work.drained work.cancel; simp)+
  then have "work\<^sup>*\<^sup>* s ?s7" by (meson r_into_rtranclp rtranclp_trans)
  moreover have "?s7 = closedDown s" by (cases s) (simp add: closedDown_def)
  ultimately show ?thesis by simp
qed

text \<open>A dispatch that finds a free slot, and one that finds the server closing.\<close>

lemma dispatch_sends:
  assumes "sd_disp s = [DIdle q]" "sd_closer s = CIdle" "\<not> sd_closeCh s" "\<not> sd_chanClosed s"
    "length (sd_chan s) < sd_cap s"
  shows "work\<^sup>*\<^sup>* s (s\<lparr>sd_disp := [DDone True], sd_chan := sd_chan s @ [q], sd_accepted := sd_accepted s @ [q]\<rparr>)"
proof -
  let ?s1 = "sd_move 0 (DCheck q) s"
  let ?s2 = "sd_move 0 (DTry q) ?s1"
  let ?s3 = "sd_send 0 q ?s2"
  let ?s4 = "sd_move 0 (DDone True) ?s3"
  have "work s ?s1" "work ?s1 ?s2" "work ?s2 ?s3"
    using assms by (intro work.rlock work.check_open work.try_send; simp)+
  moreover have "work ?s3 ?s4"
    using assms by (intro work.runlock [of 0 _ True]) (simp_all add: sd_send_def)
  ultimately have "work\<^sup>*\<^sup>* s ?s4" by (meson r_into_rtranclp rtranclp_trans)
  moreover have "?s4 = s\<lparr>sd_disp := [DDone True], sd_chan := sd_chan s @ [q], sd_accepted := sd_accepted s @ [q]\<rparr>"
    using assms by (simp add: sd_send_def sd_move_def)
  ultimately show ?thesis by simp
qed

lemma dispatch_refused:
  assumes "sd_disp s = [DIdle q]" "sd_closer s = CWaitEviction" "sd_closeCh s"
  shows "work\<^sup>*\<^sup>* s (s\<lparr>sd_disp := [DDone False]\<rparr>)"
proof -
  let ?s1 = "sd_move 0 (DCheck q) s"
  let ?s2 = "sd_move 0 (DExit False) ?s1"
  let ?s3 = "sd_move 0 (DDone False) ?s2"
  have "work s ?s1" "work ?s1 ?s2"
    using assms by (intro work.rlock work.check_closed [of _ _ q]; simp)+
  moreover have "work ?s2 ?s3"
    using assms by (intro work.runlock [of 0 _ False]) simp_all
  ultimately have "work\<^sup>*\<^sup>* s ?s3" by (meson r_into_rtranclp rtranclp_trans)
  moreover have "?s3 = s\<lparr>sd_disp := [DDone False]\<rparr>"
    using assms by (simp add: sd_move_def)
  ultimately show ?thesis by simp
qed

text \<open>A request arrives; then the context is cancelled and main starts to close.\<close>

definition oneRequest :: "closure \<Rightarrow> program" where
  "oneRequest q = (pg_start 1)\<lparr>pg_adms := (sd_start 1 [])\<lparr>sd_disp := [DIdle q]\<rparr>\<rparr>"

lemma one_request: "pg_reach limit (oneRequest q)"
proof -
  have s: "pg_reach limit (pg_start 1)" by (rule reach_init) (auto simp: pg_init_def)
  have "aroundStep (pg_start 1)
      ((pg_start 1)\<lparr>pg_adms := (pg_adms (pg_start 1))\<lparr>sd_disp := sd_disp (pg_adms (pg_start 1)) @ [DIdle q]\<rparr>\<rparr>)"
    by (rule aroundStep.arrive) (simp_all add: pg_start_def)
  from reach_around [OF s this] show ?thesis by (simp add: oneRequest_def pg_start_def sd_start_def)
qed

definition stopNow :: "program \<Rightarrow> program" where
  "stopNow p = beginClose (p\<lparr>pg_ctxDone := True, pg_shutter := ShutActive\<rparr>)"

lemma stop_now:
  assumes "pg_reach limit p" "pg_main p = MServe" "pg_shutter p = ShutWait"
  shows "pg_reach limit (stopNow p)"
proof -
  note s1 = reach_around [OF assms(1) aroundStep.cancelled_ctx]
  have "runStep limit (p\<lparr>pg_ctxDone := True\<rparr>) ((p\<lparr>pg_ctxDone := True\<rparr>)\<lparr>pg_shutter := ShutActive\<rparr>)"
    using assms by (intro runStep.shutting shutterStep.ctx_done) simp_all
  note s2 = reach_run [OF s1 this]
  have "runStep limit ((p\<lparr>pg_ctxDone := True\<rparr>)\<lparr>pg_shutter := ShutActive\<rparr>) (stopNow p)"
    unfolding stopNow_def using assms mainStep.server_closed [of "p\<lparr>pg_ctxDone := True, pg_shutter := ShutActive\<rparr>"]
    by (intro runStep.main) simp_all
  from reach_run [OF s2 this] show ?thesis .
qed

lemma exit_now:
  assumes "pg_reach limit p" "pg_main p = MClose" "sd_closer (pg_adms p) = CWaitEviction" "sd_closeCh (pg_adms p)"
    "sd_evictor (pg_adms p) = EIdle" "sd_worker (pg_adms p) = WIdle" "sd_chan (pg_adms p) = []"
    "list_all (\<lambda>d. \<not> holdsRead d) (sd_disp (pg_adms p))"
  shows "pg_reach limit (p\<lparr>pg_adms := closedDown (pg_adms p), pg_main := MExit\<rparr>)"
proof -
  have "pg_reach limit (p\<lparr>pg_adms := closedDown (pg_adms p)\<rparr>)"
    by (rule reach_works [OF close_down [OF assms(3-8)] assms(1)]) (use assms(2) in simp)
  moreover have "runStep limit (p\<lparr>pg_adms := closedDown (pg_adms p)\<rparr>)
      ((p\<lparr>pg_adms := closedDown (pg_adms p)\<rparr>)\<lparr>pg_main := MExit\<rparr>)"
    using assms(2) by (intro runStep.main mainStep.close_returned) (simp_all add: closedDown_def)
  ultimately show ?thesis using reach_run by fastforce
qed

text \<open>The closure is accepted before the context is cancelled, and runs while \<open>Close\<close> waits.\<close>

lemma late_callback:
  "\<exists>p. pg_reach limit p \<and> pg_main p = MExit \<and> sd_disp (pg_adms p) = [DDone True] \<and> pg_answered p = []
      \<and> sd_ran (pg_adms p) = [q] \<and> pg_seen p = []"
proof -
  let ?o = "oneRequest q"
  let ?a = "(pg_adms ?o)\<lparr>sd_disp := [DDone True], sd_chan := sd_chan (pg_adms ?o) @ [q],
    sd_accepted := sd_accepted (pg_adms ?o) @ [q]\<rparr>"
  let ?b = "?o\<lparr>pg_adms := ?a\<rparr>"
  have "pg_reach limit ?b"
    by (rule reach_works [OF dispatch_sends one_request]) (simp_all add: oneRequest_def pg_start_def sd_start_def)
  then have p: "pg_reach limit (stopNow ?b)"
    by (rule stop_now) (simp_all add: oneRequest_def pg_start_def)
  obtain s where s: "s = stopNow ?b" by blast
  have f: "sd_worker (pg_adms s) = WIdle" "sd_chan (pg_adms s) = [q]" "sd_ran (pg_adms s) = []"
    "pg_main s = MClose" "pg_seen s = []" "pg_answered s = []" "sd_disp (pg_adms s) = [DDone True]"
    "sd_closer (pg_adms s) = CWaitEviction" "sd_closeCh (pg_adms s)" "sd_evictor (pg_adms s) = EIdle"
    unfolding s by (simp_all add: stopNow_def beginClose_def oneRequest_def pg_start_def sd_start_def)
  let ?c = "(pg_adms s)\<lparr>sd_chan := [], sd_worker := WRun q\<rparr>"
  let ?d = "?c\<lparr>sd_worker := WIdle, sd_ran := sd_ran ?c @ [q]\<rparr>"
  have "work (pg_adms s) ?c" "work ?c ?d"
    using f work.receive [of "pg_adms s" q "[]"] work.run [of ?c q] by simp_all
  then have "work\<^sup>*\<^sup>* (pg_adms s) ?d" by (meson r_into_rtranclp rtranclp_trans)
  then have "pg_reach limit (s\<lparr>pg_adms := ?d\<rparr>)"
    using p s f by (intro reach_works) simp_all
  then have "pg_reach limit ((s\<lparr>pg_adms := ?d\<rparr>)\<lparr>pg_adms := closedDown (pg_adms (s\<lparr>pg_adms := ?d\<rparr>)), pg_main := MExit\<rparr>)"
    by (rule exit_now) (simp_all add: f)
  then show ?thesis
    by (intro exI [of _ "(s\<lparr>pg_adms := ?d\<rparr>)\<lparr>pg_adms := closedDown (pg_adms (s\<lparr>pg_adms := ?d\<rparr>)), pg_main := MExit\<rparr>"])
      (simp add: f closedDown_def)
qed

subsection \<open>Properties\<close>

text \<open>C15 Once the context is cancelled or \<open>ListenAndServe\<close> has failed, \<open>run\<close> always gets to return: it
  can go on from every state, takes at most \<open>pg_todo\<close> steps plus nine for each step of the
  surroundings, and is never stuck before; and when it has returned, every accepted callback has run, in
  order.\<close>

theorem run_returns:
  assumes "pg_reach limit p" "stopping p"
  shows "(\<exists>q. (runStep limit)\<^sup>*\<^sup>* p q \<and> pg_main q = MExit \<and> sd_ran (pg_adms q) = sd_accepted (pg_adms q))
    \<and> (\<forall>k n q. \<not> (mixed_run (runStep limit) aroundStep k n p q \<and> pg_todo p + 9 * k < n))
    \<and> (\<forall>k n q. \<not> (mixed_run (runStep limit) aroundStep k n p q \<and> pg_main q \<noteq> MExit
          \<and> (\<nexists>r. runStep limit q r)))
    \<and> (\<forall>k n q. \<not> (mixed_run (runStep limit) aroundStep k n p q \<and> pg_main q = MExit
          \<and> sd_ran (pg_adms q) \<noteq> sd_accepted (pg_adms q)))"
proof -
  have inv: "pg_inv p" by (rule programs.reach_inv [OF assms(1)])
  have ran: "sd_ran (pg_adms q) = sd_accepted (pg_adms q)" if "pg_inv q" "pg_main q = MExit" for q
    using that by (auto simp: pg_inv_def sd_inv_def)
  have "pg_inv q" if "(runStep limit)\<^sup>*\<^sup>* p q" for q
    using that by (induction rule: rtranclp_induct) (auto intro: inv pg_inv_run)
  then show ?thesis
    using stopping_run.goal_reached [OF inv assms(2), of limit] ran
      stopping_run.run_bound [OF _ inv] stopping_run.never_stuck [OF _ inv assms(2)]
    by (fastforce simp: not_less)
qed

text \<open>C39 The HTTP server is not shut down gracefully, whatever the timeout.  A request that was in flight when
  the context was cancelled can find the process gone before it was handled; it can be refused although
  the callback queue is empty, because \<open>server.Close()\<close> does not wait for \<open>srv.Shutdown\<close>; and its
  records can be accepted and run without an answer to the device, which will send them again.  In the
  last run nothing of what the callbacks do is seen by a report made when \<open>ListenAndServe\<close> returns.\<close>

theorem in_flight_cut:
  "(\<exists>p. pg_reach limit p \<and> pg_main p = MExit \<and> sd_disp (pg_adms p) = [DIdle q] \<and> inFlight p = [0])
   \<and> (\<exists>p. pg_reach limit p \<and> sd_disp (pg_adms p) = [DDone False] \<and> sd_accepted (pg_adms p) = []
        \<and> pg_answered p = [0] \<and> pg_waited p = 0 \<and> 0 < sd_cap (pg_adms p))
   \<and> (\<exists>p. pg_reach limit p \<and> pg_main p = MExit \<and> sd_disp (pg_adms p) = [DDone True] \<and> pg_answered p = []
        \<and> sd_ran (pg_adms p) = [q] \<and> pg_seen p = [])"
proof (intro conjI)
  obtain p where p_def: "p = stopNow (oneRequest q)" by blast
  have p: "pg_reach limit p"
    unfolding p_def by (rule stop_now [OF one_request]) (simp_all add: oneRequest_def pg_start_def)
  have f: "pg_main p = MClose" "pg_answered p = []" "pg_waited p = 0" "sd_disp (pg_adms p) = [DIdle q]"
    "sd_closer (pg_adms p) = CWaitEviction" "sd_closeCh (pg_adms p)" "sd_evictor (pg_adms p) = EIdle"
    "sd_worker (pg_adms p) = WIdle" "sd_chan (pg_adms p) = []" "sd_accepted (pg_adms p) = []"
    "sd_cap (pg_adms p) = 1"
    unfolding p_def by (simp_all add: stopNow_def beginClose_def oneRequest_def pg_start_def sd_start_def)
  have "pg_reach limit (p\<lparr>pg_adms := closedDown (pg_adms p), pg_main := MExit\<rparr>)"
    by (rule exit_now [OF p f(1,5-9)]) (simp add: f)
  then show "\<exists>p. pg_reach limit p \<and> pg_main p = MExit \<and> sd_disp (pg_adms p) = [DIdle q] \<and> inFlight p = [0]"
    by (intro exI [of _ "p\<lparr>pg_adms := closedDown (pg_adms p), pg_main := MExit\<rparr>"])
      (simp add: closedDown_def inFlight_def f)
  let ?r = "p\<lparr>pg_adms := (pg_adms p)\<lparr>sd_disp := [DDone False]\<rparr>\<rparr>"
  have "pg_reach limit ?r"
    by (rule reach_works [OF dispatch_refused [OF f(4-6)] p]) (simp add: f)
  moreover have "runStep limit ?r (?r\<lparr>pg_answered := pg_answered ?r @ [0]\<rparr>)"
    by (rule runStep.answer [of _ _ False]) (simp_all add: f)
  ultimately have "pg_reach limit (?r\<lparr>pg_answered := pg_answered ?r @ [0]\<rparr>)" by (rule reach_run)
  then show "\<exists>p. pg_reach limit p \<and> sd_disp (pg_adms p) = [DDone False] \<and> sd_accepted (pg_adms p) = []
      \<and> pg_answered p = [0] \<and> pg_waited p = 0 \<and> 0 < sd_cap (pg_adms p)"
    by (intro exI [of _ "?r\<lparr>pg_answered := pg_answered ?r @ [0]\<rparr>"]) (simp add: f)
  show "\<exists>p. pg_reach limit p \<and> pg_main p = MExit \<and> sd_disp (pg_adms p) = [DDone True] \<and> pg_answered p = []
      \<and> sd_ran (pg_adms p) = [q] \<and> pg_seen p = []"
    by (rule late_callback)
qed

theorem run_returns_witness:
  "\<exists>q. probeRun\<^sup>*\<^sup>* (stopNow (oneRequest (RegistryCall ''D1'' fmempty))) q \<and> pg_main q = MExit"
proof -
  let ?p = "stopNow (oneRequest (RegistryCall ''D1'' fmempty))"
  have p: "pg_reach (5 * second) ?p"
    by (rule stop_now [OF one_request]) (simp_all add: oneRequest_def pg_start_def)
  have "stopping ?p" by (simp add: stopping_def stopNow_def beginClose_def)
  from run_returns [OF p this] show ?thesis unfolding probeRun_def by blast
qed

text \<open>The step relations of the four programs all get there.\<close>

lemma programs_return:
  assumes "run \<in> {commandsRun, basicRun, databaseRun, probeRun}" "pg_inv p" "stopping p"
  shows "\<exists>q. run\<^sup>*\<^sup>* p q \<and> pg_main q = MExit"
  using assms(1) stopping_run.goal_reached [OF assms(2,3)] unfolding run_defs by blast

end
