(* ===== verification/Probe_Tool.thy ===== *)
theory Probe_Tool
  imports Example_Logging Adms_System Adms_Races Adms_Callbacks
begin

section \<open>The probe (\<open>cmd/probe/main.go\<close>)\<close>

text \<open>
  A tool that starts a server, queues a table of candidate commands for one device and reports which
  the device accepts.  Its state is what the callback and the probing goroutine share under one mutex:
  the rows of the results, the commands queued so far, the map from command IDs to candidates, and the
  number of confirmations.  The goroutine's iterations are split where it holds no lock, so that
  requests, evictions and callbacks come in between.  \<open>pb_out\<close> holds the lines these two print, and the
  summary; banners, the device-info callback's prints and the flags are left out.
\<close>

subsection \<open>Padding as \<open>fmt\<close> does it\<close>

text \<open>\<open>utf8.RuneCountInString\<close>: the bytes of the first rune, one for a byte that starts none.\<close>

definition inRange :: "nat \<Rightarrow> nat \<Rightarrow> char \<Rightarrow> bool" where
  "inRange lo hi c \<longleftrightarrow> lo \<le> of_char c \<and> of_char c \<le> hi"

fun runeLen :: "string \<Rightarrow> nat" where
  "runeLen (a # b # rest) =
     (if inRange 0xC2 0xDF a \<and> inRange 0x80 0xBF b then 2
      else (case rest of
        [] \<Rightarrow> 1
      | c # rest' \<Rightarrow>
          if (inRange 0xE0 0xE0 a \<and> inRange 0xA0 0xBF b \<or> inRange 0xE1 0xEC a \<and> inRange 0x80 0xBF b
              \<or> inRange 0xED 0xED a \<and> inRange 0x80 0x9F b \<or> inRange 0xEE 0xEF a \<and> inRange 0x80 0xBF b)
             \<and> inRange 0x80 0xBF c then 3
          else (case rest' of
            [] \<Rightarrow> 1
          | d # _ \<Rightarrow>
              if (inRange 0xF0 0xF0 a \<and> inRange 0x90 0xBF b \<or> inRange 0xF1 0xF3 a \<and> inRange 0x80 0xBF b
                  \<or> inRange 0xF4 0xF4 a \<and> inRange 0x80 0x8F b)
                 \<and> inRange 0x80 0xBF c \<and> inRange 0x80 0xBF d then 4
              else 1)))"
| "runeLen _ = 1"

lemma runeLen_pos: "0 < runeLen s"
  by (cases s rule: runeLen.cases) (auto split: list.split)

function runeCount :: "string \<Rightarrow> nat" where
  "runeCount [] = 0"
| "runeCount (c # s) = Suc (runeCount (drop (runeLen (c # s)) (c # s)))"
  by pat_completeness auto
termination
  by (relation "measure length") (use runeLen_pos in \<open>auto simp: diff_less\<close>)

text \<open>\<open>%-ns\<close> and \<open>%-nd\<close>.\<close>

definition padRight :: "nat \<Rightarrow> string \<Rightarrow> string" where
  "padRight n s = s @ replicate (n - runeCount s) CHR '' ''"

text \<open>The arrow and the sign for "not equal", as the bytes of their UTF-8 form.\<close>

definition arrow :: string where "arrow = [CHR 0xE2, CHR 0x86, CHR 0x92]"
definition unequal :: string where "unequal = [CHR 0xE2, CHR 0x89, CHR 0xA0]"

subsection \<open>Candidates\<close>

record candidate =
  ca_cmd :: string
  ca_desc :: string
  ca_safe :: bool

definition cand :: "string \<Rightarrow> string \<Rightarrow> bool \<Rightarrow> candidate" where
  "cand c d s = \<lparr>ca_cmd = c, ca_desc = d, ca_safe = s\<rparr>"

text \<open>The table; \<open>now\<close> is the wall clock when the program starts.\<close>

definition candidates :: "stamp \<Rightarrow> candidate list" where
  "candidates now =
    [cand ''INFO'' ''Request device info (firmware, serial, etc.)'' True,
      cand ''CHECK'' ''Heartbeat/ping check'' True,
      cand ''GET OPTION FROM DeviceName'' ''Get device name option'' True,
      cand ''GET OPTION FROM FWVersion'' ''Get firmware version'' True,
      cand ''GET OPTION FROM IPAddress'' ''Get IP address'' True,
      cand ''GET OPTION FROM MACAddress'' ''Get MAC address'' True,
      cand ''GET OPTION FROM Platform'' ''Get platform info'' True,
      cand ''GET OPTION FROM WorkCode'' ''Get work code setting'' True,
      cand ''GET OPTION FROM LockCount'' ''Get door lock count'' True,
      cand ''GET OPTION FROM UserCount'' ''Get user count'' True,
      cand ''GET OPTION FROM FPCount'' ''Get fingerprint template count'' True,
      cand ''GET OPTION FROM AttLogCount'' ''Get attendance log count'' True,
      cand ''GET OPTION FROM FaceCount'' ''Get face template count'' True,
      cand ''GET OPTION FROM TransactionCount'' ''Get transaction count'' True,
      cand ''GET OPTION FROM MaxUserCount'' ''Get max user capacity'' True,
      cand ''GET OPTION FROM MaxAttLogCount'' ''Get max attendance log capacity'' True,
      cand ''GET OPTION FROM MaxFingerCount'' ''Get max fingerprint capacity'' True,
      cand ''GET OPTION FROM MaxFaceCount'' ''Get max face template capacity'' True,
      cand ''DATA QUERY USERINFO PIN=1'' ''Query user info for PIN 1'' True,
      cand ''DATA QUERY USERINFO'' ''Query all users'' True,
      cand ''DATA QUERY ATTLOG'' ''Query attendance logs'' True,
      cand ''DATA QUERY FIRST_AND_LAST_LOG'' ''Query first and last attendance log'' True,
      cand ''DATA QUERY OPERLOG'' ''Query operation logs'' True,
      cand ''DATA COUNT USERINFO'' ''Count users'' True,
      cand ''DATA COUNT ATTLOG'' ''Count attendance logs'' True,
      cand (''SET OPTION ServerLocalTime='' @ formatStamp now) ''Sync device clock'' False,
      cand ''SET OPTION LockOpenDelay=5'' ''Set door open delay to 5 seconds'' False,
      cand ''CONTROL DEVICE 1 1'' ''Trigger door relay (open door)'' False,
      cand ''CONTROL DEVICE 1 0'' ''Close door relay'' False,
      cand ''CONTROL DEVICE 2 1'' ''Trigger aux output 1'' False,
      cand ''CONTROL DEVICE 3 1'' ''Trigger alarm'' False,
      cand ''CONTROL DEVICE 4 1'' ''Disable normal open'' False,
      cand ''ENROLL_FP PIN=9999 FID=0'' ''Start fingerprint enrollment for user 9999 finger 0'' False,
      cand ''ENROLL_FP CANCEL'' ''Cancel fingerprint enrollment'' False,
      cand ''DATA QUERY BIODATA PIN=1 Type=9'' ''Query face template for user 1'' True,
      cand ''DATA QUERY BIODATA PIN=1 Type=0'' ''Query fingerprint template for user 1 (type 0)'' True,
      cand ''DATA QUERY FINGERTMP PIN=1'' ''Query fingerprint template (alternate syntax)'' True,
      cand ''DATA QUERY USERPIC PIN=1'' ''Query user photo for PIN 1'' True,
      cand ''PutFile FileName=options.cfg'' ''Request device to upload options.cfg'' True,
      cand ''GetFile FileName=options.cfg'' ''Request device to send options.cfg'' True,
      cand ''Shell date'' ''Execute shell command (unlikely to work)'' True,
      cand ''LOG'' ''Request log data'' True,
      cand ''DATA QUERY OPTIONS'' ''Query all device options'' True,
      cand ''DATA QUERY TIMEZONE'' ''Query timezone schedules'' True,
      cand ''DATA QUERY FIRSTCARD'' ''Query first-card unlock config'' True,
      cand ''DATA QUERY MULTIMCARD'' ''Query multi-card open config'' True,
      cand ''DATA QUERY INOUTFUN'' ''Query in/out function config'' True,
      cand (''USER ADD PIN=9998'' @ [TAB] @ ''Name=SyntaxTest'' @ [TAB] @ ''Privilege=0'' @ [TAB] @ ''Card='') ''Datasheet USER ADD (likely fails)'' False,
      cand ''USER DEL PIN=9998'' ''Datasheet USER DEL (likely fails)'' False,
      cand ''DATA DEL USERINFO PIN=9998'' ''DATA DEL (truncated DELETE, likely fails)'' False]"

record probeConfig =
  pc_sn :: string
  pc_destructive :: bool
  pc_maxCommands :: int
  pc_onlineThreshold :: int

text \<open>The configuration \<open>main\<close> passes: 200 commands, two minutes.\<close>

definition mainConfig :: "string \<Rightarrow> bool \<Rightarrow> probeConfig" where
  "mainConfig sn destructive =
     \<lparr>pc_sn = sn, pc_destructive = destructive, pc_maxCommands = 200, pc_onlineThreshold = 2 * 60 * second\<rparr>"

subsection \<open>The shared state\<close>

record result =
  re_cmd :: string
  re_desc :: string
  re_id :: "64 word"
  re_retCode :: int
  re_retCmd :: string

record probe =
  pb_results :: "result list"
  pb_queued :: "candidate list"
  pb_idMap :: "(64 word, candidate) fmap"
  pb_replied :: nat
  pb_out :: "string list"

definition newProbe :: probe where
  "newProbe = \<lparr>pb_results = [], pb_queued = [], pb_idMap = fmempty, pb_replied = 0, pb_out = []\<rparr>"

definition say :: "string list \<Rightarrow> probe \<Rightarrow> probe" where
  "say ls p = p\<lparr>pb_out := pb_out p @ ls\<rparr>"

text \<open>Command and description of a result: by ID, else by order, else unknown.\<close>

definition correlate :: "CommandResult \<Rightarrow> probe \<Rightarrow> string \<times> string" where
  "correlate cr p =
     (case fmlookup (pb_idMap p) (cr_ID cr) of
        Some c \<Rightarrow> (ca_cmd c, ca_desc c)
      | None \<Rightarrow>
          if pb_replied p < length (pb_queued p)
          then (ca_cmd (pb_queued p ! pb_replied p), ca_desc (pb_queued p ! pb_replied p))
          else (cr_Command cr, ''(unknown)''))"

definition resultLine :: "CommandResult \<Rightarrow> string \<Rightarrow> string \<Rightarrow> string" where
  "resultLine cr cmd desc =
     (let status = (if ReturnCode cr \<noteq> 0 then ''FAIL('' @ itoa (ReturnCode cr) @ '')'' else ''OK'')
      in ''  [ID='' @ itoa (sint (cr_ID cr)) @ ''] '' @ padRight 7 status @ ''  Return=''
         @ padRight 6 (itoa (ReturnCode cr)) @ '' CMD='' @ padRight 30 (cr_Command cr) @ ''  | ''
         @ cmd @ '' '' @ arrow @ '' '' @ desc)"

text \<open>The callback for command results.\<close>

definition onResult :: "CommandResult \<Rightarrow> probe \<Rightarrow> probe" where
  "onResult cr p =
     (case correlate cr p of (cmd, desc) \<Rightarrow>
        say [resultLine cr cmd desc]
          (p\<lparr>pb_replied := Suc (pb_replied p),
             pb_results := pb_results p @ [\<lparr>re_cmd = cmd, re_desc = desc, re_id = cr_ID cr,
               re_retCode = ReturnCode cr, re_retCmd = cr_Command cr\<rparr>]\<rparr>))"

fun hear :: "event \<Rightarrow> probe \<Rightarrow> probe" where
  "hear (CommandResultEv cr) p = onResult cr p"
| "hear _ p = p"

subsection \<open>\<open>printSummary\<close>\<close>

definition summaryRow :: "result \<Rightarrow> string" where
  "summaryRow r =
     ''  [ID='' @ itoa (sint (re_id r)) @ ''] Return='' @ padRight 6 (itoa (re_retCode r)) @ '' CMD=''
     @ padRight 25 (re_retCmd r) @ ''  | '' @ re_cmd r @ '' '' @ arrow @ '' '' @ re_desc r"

fun summaryLoop :: "result list \<Rightarrow> string list \<times> string list \<Rightarrow> string list \<times> string list" where
  "summaryLoop [] acc = acc"
| "summaryLoop (r # rs) (accepted, rejected) =
     summaryLoop rs
       (if re_retCode r = 0 then (accepted @ [summaryRow r], rejected)
        else (accepted, rejected @ [summaryRow r]))"

definition noReplyRow :: "nat \<Rightarrow> candidate \<Rightarrow> string" where
  "noReplyRow i c = ''  [#'' @ itoa (int i + 1) @ ''] '' @ padRight 50 (ca_cmd c) @ '' | '' @ ca_desc c"

text \<open>The loop from \<open>i = replied\<close> to the end of the queue.\<close>

fun noReplyLoop :: "nat \<Rightarrow> candidate list \<Rightarrow> string list" where
  "noReplyLoop i [] = []"
| "noReplyLoop i (c # cs) = noReplyRow i c # noReplyLoop (Suc i) cs"

text \<open>The accepted, the rejected and the unanswered commands.\<close>

definition sections :: "result list \<Rightarrow> candidate list \<Rightarrow> nat \<Rightarrow> string list \<times> string list \<times> string list" where
  "sections results queued replied =
     (case summaryLoop results ([], []) of (accepted, rejected) \<Rightarrow>
        (accepted, rejected, noReplyLoop replied (drop replied queued)))"

definition printSummary :: "result list \<Rightarrow> candidate list \<Rightarrow> nat \<Rightarrow> string list" where
  "printSummary results queued replied =
     (case sections results queued replied of (accepted, rejected, noreply) \<Rightarrow>
        (let bar = replicate 80 CHR ''='';
             head = (\<lambda>label ls. [[], label @ '': '' @ itoa (int (length ls)) @ '' commands'']);
             ls1 = head ''ACCEPTED (Return=0)'' accepted @ accepted;
             ls2 = head (''REJECTED (Return '' @ unequal @ '' 0)'') rejected @ rejected;
             ls3 = head ''NO REPLY'' noreply @ noreply
         in [[], bar, ''PROBE RESULTS SUMMARY'', bar] @ ls1 @ ls2 @ ls3 @ [bar]))"

subsection \<open>The probing goroutine\<close>

text \<open>Its places: waiting for the device, at the head of the loop over the candidates still to do,
  between \<open>QueueCommand\<close> and the note under the mutex, waiting for confirmations, returned.  Whether
  the context has been cancelled, and whether \<open>run\<close> has returned.\<close>

datatype prober =
    PWait | PLoop "candidate list" | PNote "64 word" candidate "candidate list" | PWatch | PEnd

record probe_run =
  pr_server :: ADMSServer
  pr_probe :: probe
  pr_at :: prober
  pr_cancelled :: bool
  pr_returned :: bool

definition admitted :: "probeConfig \<Rightarrow> candidate \<Rightarrow> bool" where
  "admitted cfg c \<longleftrightarrow> ca_safe c \<or> pc_destructive cfg"

text \<open>An iteration up to the return of \<open>QueueCommand\<close>.\<close>

definition queueNext :: "probeConfig \<Rightarrow> candidate \<Rightarrow> candidate list \<Rightarrow> probe_run \<Rightarrow> probe_run" where
  "queueNext cfg c cs r =
     (if \<not> ca_safe c \<and> \<not> pc_destructive cfg then
        r\<lparr>pr_probe := say [''  SKIP (destructive): '' @ ca_cmd c @ ''  | '' @ ca_desc c] (pr_probe r),
          pr_at := PLoop cs\<rparr>
      else (case QueueCommand (pc_sn cfg) (ca_cmd c) (pr_server r) of
          (_, Some err, s) \<Rightarrow>
            r\<lparr>pr_server := s,
              pr_probe := say [''  QUEUE ERROR: '' @ ca_cmd c @ '': '' @ Error err] (pr_probe r),
              pr_at := PLoop cs\<rparr>
        | (i, None, s) \<Rightarrow> r\<lparr>pr_server := s, pr_at := PNote i c cs\<rparr>))"

text \<open>The note under the mutex, and the line after it.\<close>

definition noteQueued :: "64 word \<Rightarrow> candidate \<Rightarrow> probe \<Rightarrow> probe" where
  "noteQueued i c p =
     (let p' = p\<lparr>pb_queued := pb_queued p @ [c], pb_idMap := fmupd i c (pb_idMap p)\<rparr>;
          tag = (if \<not> ca_safe c then ''[CAUTION]'' else ''[SAFE]'')
      in say [''  QUEUED [#'' @ itoa (int (length (pb_queued p'))) @ ''] '' @ tag @ '' '' @ ca_cmd c
              @ ''  | '' @ ca_desc c] p')"

definition summarise :: "probe \<Rightarrow> probe" where
  "summarise p = say (printSummary (pb_results p) (pb_queued p) (pb_replied p)) p"

text \<open>A tick of the five-second timer, and the timeout.\<close>

definition watchTick :: "probe_run \<Rightarrow> probe_run" where
  "watchTick r =
     (let p = pr_probe r; remaining = int (length (pb_queued p)) - int (pb_replied p)
      in if remaining \<le> 0 then
           r\<lparr>pr_probe := summarise (say [[], ''=== ALL CONFIRMATIONS RECEIVED ===''] p), pr_at := PEnd,
             pr_cancelled := True\<rparr>
         else r\<lparr>pr_probe := say [''  ... '' @ itoa remaining @ '' commands still pending confirmation''] p\<rparr>)"

definition watchTimeout :: "probe_run \<Rightarrow> probe_run" where
  "watchTimeout r =
     r\<lparr>pr_probe := summarise (say [[], ''=== TIMEOUT '' @ [CHR 0xE2, CHR 0x80, CHR 0x94]
         @ '' printing summary ===''] (pr_probe r)), pr_at := PEnd, pr_cancelled := True\<rparr>"

text \<open>The end of \<open>run\<close>, once the cancelled context has shut the HTTP server down.\<close>

definition runEnd :: "probe_run \<Rightarrow> probe_run" where
  "runEnd r = r\<lparr>pr_probe := summarise (pr_probe r), pr_returned := True\<rparr>"

subsection \<open>\<open>run\<close>\<close>

text \<open>The server with its options, and the registration of the device.\<close>

definition probeOptions :: "probeConfig \<Rightarrow> server_option list" where
  "probeOptions cfg =
     [OptEnableInspect, OptMaxCommandsPerDevice (pc_maxCommands cfg),
      OptOnCommandResult (Some (\<lambda>_ _. Returned)), OptOnDeviceInfo (Some (\<lambda>_ _. Returned))]
     @ (if 0 < pc_onlineThreshold cfg then [OptOnlineThreshold (pc_onlineThreshold cfg)] else [])"

definition probeStart :: "int \<Rightarrow> location \<Rightarrow> probeConfig \<Rightarrow> adms_error + probe_run" where
  "probeStart now l cfg =
     (case RegisterDevice now (pc_sn cfg) [] (NewADMSServer l (probeOptions cfg)) of
        (Some err, _) \<Rightarrow> Inl err
      | (None, s) \<Rightarrow> Inr \<lparr>pr_server = s, pr_probe = newProbe, pr_at = PWait,
          pr_cancelled = False, pr_returned = False\<rparr>)"

text \<open>An operation of the server: the callback hears the calls it makes.\<close>

definition serverStep :: "marshal \<Rightarrow> op \<Rightarrow> probe_run \<Rightarrow> probe_run" where
  "serverStep mj x r =
     (let s = step mj x (pr_server r)
      in r\<lparr>pr_server := s,
           pr_probe := fold hear (drop (length (cbLog (pr_server r))) (cbLog s)) (pr_probe r)\<rparr>)"

text \<open>What reaches the server besides the goroutine: requests, evictions, the callback worker, the
  close.\<close>

fun outside :: "op \<Rightarrow> bool" where
  "outside (OpHttp _ _) = True"
| "outside (OpEvict _ _ _) = True"
| "outside OpWorker = True"
| "outside OpCloseSignal = True"
| "outside _ = False"

text \<open>The steps of the program itself: those of the goroutine, up to the timeout, and the return of
  \<open>run\<close> once \<open>ListenAndServe\<close> has been shut down.\<close>

inductive proberStep :: "probeConfig \<Rightarrow> stamp \<Rightarrow> probe_run \<Rightarrow> probe_run \<Rightarrow> bool" for cfg st where
  connected: "pr_at r = PWait \<Longrightarrow> IsDeviceOnline now (pc_sn cfg) (pr_server r)
    \<Longrightarrow> proberStep cfg st r (r\<lparr>pr_at := PLoop (candidates st)\<rparr>)"
| queue: "pr_at r = PLoop (c # cs) \<Longrightarrow> \<not> pr_cancelled r \<Longrightarrow> proberStep cfg st r (queueNext cfg c cs r)"
| noted: "pr_at r = PNote i c cs
    \<Longrightarrow> proberStep cfg st r (r\<lparr>pr_probe := noteQueued i c (pr_probe r), pr_at := PLoop cs\<rparr>)"
| queued_all: "pr_at r = PLoop [] \<Longrightarrow> proberStep cfg st r (r\<lparr>pr_at := PWatch\<rparr>)"
| timed_out: "pr_at r = PWatch \<Longrightarrow> proberStep cfg st r (watchTimeout r)"
| stopped: "pr_at r \<in> {PWait, PLoop (c # cs), PWatch} \<Longrightarrow> pr_cancelled r
    \<Longrightarrow> proberStep cfg st r (r\<lparr>pr_at := PEnd\<rparr>)"
| returned: "pr_cancelled r \<Longrightarrow> \<not> pr_returned r \<Longrightarrow> proberStep cfg st r (runEnd r)"

text \<open>What the surroundings do: reach the server, tick, interrupt the program, or make
  \<open>ListenAndServe\<close> fail, after which \<open>run\<close> returns without a summary.\<close>

inductive probeAround :: "marshal \<Rightarrow> probe_run \<Rightarrow> probe_run \<Rightarrow> bool" for mj where
  surroundings: "outside x \<Longrightarrow> probeAround mj r (serverStep mj x r)"
| ticked: "pr_at r = PWatch \<Longrightarrow> probeAround mj r (watchTick r)"
| interrupted: "probeAround mj r (r\<lparr>pr_cancelled := True\<rparr>)"
| serve_failed: "\<not> pr_returned r \<Longrightarrow> probeAround mj r (r\<lparr>pr_cancelled := True, pr_returned := True\<rparr>)"

definition probe_step :: "probeConfig \<Rightarrow> stamp \<Rightarrow> marshal \<Rightarrow> probe_run \<Rightarrow> probe_run \<Rightarrow> bool" where
  "probe_step cfg st mj r t \<longleftrightarrow> proberStep cfg st r t \<or> probeAround mj r t"

definition probe_init :: "probeConfig \<Rightarrow> probe_run \<Rightarrow> bool" where
  "probe_init cfg r \<longleftrightarrow> (\<exists>now l. probeStart now l cfg = Inr r)"

abbreviation probe_reach :: "probeConfig \<Rightarrow> stamp \<Rightarrow> marshal \<Rightarrow> probe_run \<Rightarrow> bool" where
  "probe_reach cfg st mj \<equiv> reach (probe_init cfg) (probe_step cfg st mj)"

subsection \<open>\<open>logHandler\<close>\<close>

text \<open>The line it prints, before quoting.\<close>

record probe_line =
  pl_method :: string
  pl_path :: string
  pl_query :: string
  pl_body :: string

text \<open>The body of a POST is read and put back; one that fails is left where the read stopped, and fails
  again.\<close>

definition logHandler :: "(request \<Rightarrow> 's \<Rightarrow> 'a \<times> 's) \<Rightarrow> request \<Rightarrow> 's \<Rightarrow> (probe_line \<times> 'a) \<times> 's" where
  "logHandler next r s =
     (case (if rq_method r = ''POST'' then
              (case rq_body r of
                 Body bs \<Rightarrow> (bs, r\<lparr>rq_body := Body bs\<rparr>)
               | BodyErr bs \<Rightarrow> ([], r\<lparr>rq_body := BodyErr []\<rparr>))
            else ([], r)) of (bodyStr, r') \<Rightarrow>
        (let shown = (if 200 < length bodyStr then take 200 bodyStr @ ''...(truncated)'' else bodyStr)
         in (case next r' s of (out, s') \<Rightarrow>
               ((\<lparr>pl_method = rq_method r, pl_path = rq_path r, pl_query = rq_query r, pl_body = shown\<rparr>, out), s'))))"

text \<open>The handler of the probe's HTTP server; paths that the mux redirects are left out.\<close>

definition probeServe :: "marshal \<Rightarrow> env \<Rightarrow> request \<Rightarrow> ADMSServer \<Rightarrow> (probe_line \<times> response) \<times> ADMSServer" where
  "probeServe mj e =
     logHandler (\<lambda>r s. if prefix ''/iclock/'' (rq_path r) then ServeHTTP mj e r s else (httpNotFound, s))"

subsection \<open>The invariant of a run\<close>

text \<open>Every command waiting or pending in a server satisfies \<open>K\<close> with its ID.\<close>

definition known_cmds :: "(64 word \<Rightarrow> string \<Rightarrow> bool) \<Rightarrow> ADMSServer \<Rightarrow> bool" where
  "known_cmds K s \<longleftrightarrow>
     (\<forall>sn. \<forall>e \<in> set (queueOf sn s). K (ce_ID e) (ce_Command e))
     \<and> (\<forall>i p. fmlookup (pendingCommands s) i = Some p \<longrightarrow> K i (pe_cmd p))"

lemma known_cmds_shrinks: "shrinks s t \<Longrightarrow> known_cmds K s \<Longrightarrow> known_cmds K t"
  using shrinks_mem [of s t] unfolding known_cmds_def shrinks_def by blast

lemma known_cmds_drain:
  assumes "known_cmds K s"
  shows "known_cmds K (snd (DrainCommands sn s))"
proof -
  have "K i (pe_cmd p)" if "fmlookup (recordPending sn (queueOf sn s) (pendingCommands s)) i = Some p" for i p
    using recordPending_Some [OF that] assms by (auto simp: known_cmds_def pending_of_def)
  then show ?thesis using assms by (simp add: known_cmds_def queueOf_Drain drain_fields)
qed

text \<open>And so does every result that is reported, or waits to be, with the command that was queued.\<close>

definition traced :: "(64 word \<Rightarrow> string \<Rightarrow> bool) \<Rightarrow> ADMSServer \<Rightarrow> bool" where
  "traced K s \<longleftrightarrow> known_cmds K s
     \<and> (\<forall>r. CommandResultEv r \<in> set (committed s) \<longrightarrow> QueuedCommand r \<noteq> [] \<longrightarrow> K (cr_ID r) (QueuedCommand r))"

lemma traced_shrinks:
  "shrinks s t \<Longrightarrow> committed t = committed s \<Longrightarrow> traced K s \<Longrightarrow> traced K t"
  using known_cmds_shrinks [of s t K] by (simp add: traced_def)

lemma traced_drain: "traced K s \<Longrightarrow> traced K (snd (DrainCommands sn s))"
  by (simp add: traced_def known_cmds_drain)

lemma built_traced:
  assumes "built s sn q" "known_cmds K s" "CommandResultEv r \<in> set (eventsOf s q)" "QueuedCommand r \<noteq> []"
  shows "K (cr_ID r) (QueuedCommand r)"
  using assms
proof (induction rule: built.induct)
  case (built_result c body sn s)
  then have "r = withQueued c s" by (auto split: if_splits)
  moreover have "QueuedCommand c = []"
    using parseCommandResults_wf [OF built_result.hyps] by (simp add: result_wf_def)
  ultimately show ?case
    using built_result.prems by (auto simp: withQueued_def known_cmds_def split: option.splits)
qed (auto split: if_splits)

lemma traced_send:
  assumes "built s sn q" "traced K s"
  shows "traced K (snd (dispatchCallback e q s))"
  using assms known_cmds_shrinks [OF shrinks_parts(5), of K s e q] built_traced [OF assms(1)]
  by (auto simp: traced_def committed_dispatchCallback split: if_splits)

interpretation known: handler_parts "traced K" "\<lambda>_. True" for K
proof unfold_locales
  show "traced K (snd (RegisterDevice now sn [] s))" if "traced K s" for s now sn
    by (rule traced_shrinks [OF shrinks_parts(1) _ that]) (rule committed_rest [OF rest_of_RegisterDevice])
  show "traced K (updateDeviceActivity now sn s)" if "traced K s" for s now sn
    by (rule traced_shrinks [OF shrinks_parts(3) _ that]) (rule committed_rest [OF rest_of_updateDeviceActivity])
  show "traced K (copyOptions sn info s)" if "traced K s" for s sn info
    by (rule traced_shrinks [OF shrinks_parts(4) _ that]) (rule committed_rest [OF rest_of_copyOptions])
  show "traced K (s\<lparr>pendingCommands := fmdrop i (pendingCommands s)\<rparr>)" if "traced K s" for s i
    by (rule traced_shrinks [OF shrinks_confirm _ that]) simp
qed (blast intro: traced_drain traced_send)+

lemma known_cmds_evicted: "known_cmds K s \<Longrightarrow> known_cmds K (evicted now s)"
  by (auto simp: known_cmds_def lookup_evicted split: if_splits option.splits)

lemma traced_mono: "traced K s \<Longrightarrow> (\<And>i c. K i c \<Longrightarrow> L i c) \<Longrightarrow> traced L s"
  by (auto simp: traced_def known_cmds_def)

lemma traced_outside:
  assumes "outside x" "traced K s"
  shows "traced K (step mj x s)"
proof (cases "\<exists>e r. x = OpHttp e r")
  case True
  then show ?thesis using known.P_ServeHTTP [OF assms(2)] by auto
next
  case False
  then have "committed (step mj x s) = committed s" by (simp add: committed_passive)
  moreover have "known_cmds K (step mj x s)"
    using assms False
    by (cases x) (auto simp: traced_def evictStaleDevices_eq known_cmds_evicted
        intro: known_cmds_shrinks [OF shrinks_parts(6)] known_cmds_shrinks [OF shrinks_same])
  ultimately show ?thesis using assms(2) by (simp add: traced_def)
qed

lemma settings_outside:
  assumes "outside x"
  shows "settings (step mj x s) = settings s"
proof (cases x)
  case (OpHttp e r)
  have "settings (snd (ServeHTTP mj e r s)) = settings s" by (rule conf.P_ServeHTTP) simp_all
  then show ?thesis by (simp add: OpHttp)
next
  case OpWorker
  then show ?thesis by (simp add: settings_core [OF core_workerTake])
qed (use assms in \<open>simp_all add: evictStaleDevices_eq evicted_def settings_def core_def\<close>)

lemmas cmdID_outside = settings_eqD(1) [OF settings_outside]
  and maxCommands_outside = settings_eqD(3) [OF settings_outside]

text \<open>The candidate known under an ID: in the map, or about to be noted.\<close>

definition named :: "probe_run \<Rightarrow> 64 word \<Rightarrow> candidate \<Rightarrow> bool" where
  "named r i c \<longleftrightarrow> fmlookup (pb_idMap (pr_probe r)) i = Some c \<or> (\<exists>cs. pr_at r = PNote i c cs)"

fun left :: "candidate list \<Rightarrow> prober \<Rightarrow> candidate list" where
  "left table PWait = table"
| "left table (PLoop cs) = cs"
| "left table (PNote _ _ cs) = cs"
| "left table _ = []"

fun noteID :: "prober \<Rightarrow> 64 word option" where
  "noteID (PNote i _ _) = Some i"
| "noteID _ = None"

definition probe_inv :: "probeConfig \<Rightarrow> candidate list \<Rightarrow> probe_run \<Rightarrow> bool" where
  "probe_inv cfg table r \<longleftrightarrow>
     traced (\<lambda>i text. \<exists>c. named r i c \<and> ca_cmd c = text) (pr_server r)
     \<and> (\<forall>i c. named r i c \<longrightarrow> i \<le> cmdID (pr_server r) \<and> c \<in> set table \<and> admitted cfg c)
     \<and> (\<forall>i. noteID (pr_at r) = Some i \<longrightarrow> fmlookup (pb_idMap (pr_probe r)) i = None)
     \<and> unat (cmdID (pr_server r)) + length (left table (pr_at r)) \<le> length table
     \<and> set (left table (pr_at r)) \<subseteq> set table
     \<and> pb_replied (pr_probe r) = length (pb_results (pr_probe r))"

lemma say_fields [simp]:
  "pb_idMap (say ls p) = pb_idMap p" "pb_replied (say ls p) = pb_replied p"
  "pb_results (say ls p) = pb_results p" "pb_queued (say ls p) = pb_queued p"
  by (simp_all add: say_def)

lemma onResult_fields [simp]:
  "pb_idMap (onResult cr p) = pb_idMap p" "pb_queued (onResult cr p) = pb_queued p"
  "pb_replied (onResult cr p) = Suc (pb_replied p)"
  "pb_results (onResult cr p) = pb_results p @ [\<lparr>re_cmd = fst (correlate cr p), re_desc = snd (correlate cr p),
     re_id = cr_ID cr, re_retCode = ReturnCode cr, re_retCmd = cr_Command cr\<rparr>]"
  by (simp_all add: onResult_def split: prod.split)

lemma hear_fields:
  "pb_idMap (fold hear evs p) = pb_idMap p" "pb_queued (fold hear evs p) = pb_queued p"
  "pb_replied p = length (pb_results p) \<Longrightarrow> pb_replied (fold hear evs p) = length (pb_results (fold hear evs p))"
proof (induction evs arbitrary: p)
  case (Cons ev evs)
  { case 1 show ?case using Cons(1) by (cases ev) simp_all }
  { case 2 show ?case using Cons(2) by (cases ev) simp_all }
  { case 3 then show ?case using Cons(3) by (cases ev) simp_all }
qed simp_all

lemma noteQueued_fields [simp]:
  "pb_idMap (noteQueued i c p) = fmupd i c (pb_idMap p)" "pb_replied (noteQueued i c p) = pb_replied p"
  "pb_results (noteQueued i c p) = pb_results p" "pb_queued (noteQueued i c p) = pb_queued p @ [c]"
  by (simp_all add: noteQueued_def Let_def)

lemma summarise_fields [simp]:
  "pb_idMap (summarise p) = pb_idMap p" "pb_replied (summarise p) = pb_replied p"
  "pb_results (summarise p) = pb_results p" "pb_queued (summarise p) = pb_queued p"
  by (simp_all add: summarise_def)

text \<open>Steps that leave the server, the map and the goroutine's place alone, or end the loop.\<close>

lemma probe_inv_same:
  assumes "probe_inv cfg table r" "pr_server r' = pr_server r"
    "pb_idMap (pr_probe r') = pb_idMap (pr_probe r)"
    "pb_replied (pr_probe r') = length (pb_results (pr_probe r'))"
    "pr_at r' = pr_at r \<or> (\<forall>i c cs. pr_at r \<noteq> PNote i c cs \<and> pr_at r' \<noteq> PNote i c cs)
       \<and> length (left table (pr_at r')) \<le> length (left table (pr_at r))
       \<and> set (left table (pr_at r')) \<subseteq> set table"
  shows "probe_inv cfg table r'"
proof -
  have named: "named r' = named r"
    using assms(5)
  proof (elim disjE)
    assume "pr_at r' = pr_at r"
    then show ?thesis using assms(3) by (simp add: named_def fun_eq_iff)
  qed (use assms(3) in \<open>simp add: named_def fun_eq_iff\<close>)
  show ?thesis
    using assms(5)
  proof (elim disjE)
    assume "pr_at r' = pr_at r"
    then show ?thesis using assms(1-4) unfolding probe_inv_def named by simp
  next
    assume at: "(\<forall>i c cs. pr_at r \<noteq> PNote i c cs \<and> pr_at r' \<noteq> PNote i c cs)
       \<and> length (left table (pr_at r')) \<le> length (left table (pr_at r))
       \<and> set (left table (pr_at r')) \<subseteq> set table"
    then have "noteID (pr_at r') = None" by (cases "pr_at r'") auto
    then show ?thesis using at assms(1-4) unfolding probe_inv_def named by simp
  qed
qed

lemma probe_inv_outside:
  assumes "probe_inv cfg table r" "outside x"
  shows "probe_inv cfg table (serverStep mj x r)"
proof -
  have named: "named (serverStep mj x r) = named r"
    by (simp add: named_def fun_eq_iff serverStep_def Let_def hear_fields)
  show ?thesis
    using assms traced_outside [OF assms(2)]
    unfolding probe_inv_def named
    by (simp add: serverStep_def Let_def hear_fields cmdID_outside)
qed

text \<open>Queueing: the ID is new, and its candidate is the one about to be noted.\<close>

lemma traced_queued:
  assumes "traced K s" "QueueCommand sn c s = (i, err, t)" "err = None \<Longrightarrow> K i c"
  shows "traced K t"
proof -
  have "pendingCommands t = pendingCommands s" "committed t = committed s"
    using assms(2) pending_QueueCommand [of sn c s] committed_QueueCommand [of sn c s] by simp_all
  then show ?thesis
    using assms(1,3) mail.box_put [OF assms(2)] by (auto simp: traced_def known_cmds_def split: if_splits)
qed

lemma probe_inv_queue:
  assumes inv: "probe_inv cfg table r" and at: "pr_at r = PLoop (c # cs)"
    and small: "length table < 9223372036854775808"
  shows "probe_inv cfg table (queueNext cfg c cs r)"
proof (cases "admitted cfg c")
  case False
  then show ?thesis
    using inv at by (intro probe_inv_same [OF inv]) (auto simp: queueNext_def admitted_def probe_inv_def)
next
  case True
  let ?s = "pr_server r"
  obtain i err t where q: "QueueCommand (pc_sn cfg) (ca_cmd c) ?s = (i, err, t)"
    by (cases "QueueCommand (pc_sn cfg) (ca_cmd c) ?s")
  have nx: "queueNext cfg c cs r =
      (case err of Some e \<Rightarrow> r\<lparr>pr_server := t,
          pr_probe := say [''  QUEUE ERROR: '' @ ca_cmd c @ '': '' @ Error e] (pr_probe r), pr_at := PLoop cs\<rparr>
       | None \<Rightarrow> r\<lparr>pr_server := t, pr_at := PNote i c cs\<rparr>)"
    using True q by (auto simp: queueNext_def admitted_def split: option.split)
  have room: "unat (cmdID ?s) + 1 + length cs \<le> length table" "c \<in> set table" "set cs \<subseteq> set table"
    using inv at by (auto simp: probe_inv_def)
  then have up: "unat (cmdID ?s + 1) = unat (cmdID ?s) + 1"
    using small unat_add_1 [of "cmdID ?s"] by simp
  then have less: "cmdID ?s < cmdID ?s + 1" by (simp add: word_less_nat_alt)
  have id: "cmdID t \<in> {cmdID ?s, cmdID ?s + 1} \<and> (err = None \<longrightarrow> i = cmdID ?s + 1 \<and> cmdID t = i)"
    using q by (cases rule: QueueCommand_cases [of "pc_sn cfg" "ca_cmd c" ?s]) auto
  then have ids: "cmdID ?s \<le> cmdID t" "unat (cmdID t) \<le> unat (cmdID ?s) + 1" using less up by auto
  let ?r = "queueNext cfg c cs r"
  have named: "named ?r j d \<longleftrightarrow> named r j d \<or> err = None \<and> j = i \<and> d = c" for j d
    using at by (auto simp: named_def nx split: option.splits)
  have "traced (\<lambda>i text. \<exists>c. named ?r i c \<and> ca_cmd c = text) ?s"
    using inv by (auto simp: probe_inv_def named elim!: traced_mono)
  then have "traced (\<lambda>i text. \<exists>c. named ?r i c \<and> ca_cmd c = text) t"
    by (rule traced_queued [OF _ q]) (auto simp: named)
  moreover have old: "j \<le> cmdID ?s \<and> d \<in> set table \<and> admitted cfg d" if "named r j d" for j d
    using inv that by (simp add: probe_inv_def)
  then have "j \<le> cmdID t \<and> d \<in> set table \<and> admitted cfg d" if "named ?r j d" for j d
    using that id ids(1) room True unfolding named by (auto dest: order_trans)
  moreover have "fmlookup (pb_idMap (pr_probe r)) i = None" if "err = None"
  proof (cases "fmlookup (pb_idMap (pr_probe r)) i")
    case (Some d)
    then have "i \<le> cmdID ?s" using old [of i d] by (simp add: named_def)
    then show ?thesis using id less that by auto
  qed simp
  moreover have "pr_server ?r = t" by (simp add: nx split: option.split)
  ultimately show ?thesis
    using inv ids(2) room unfolding probe_inv_def
    by (auto simp: nx split: option.splits)
qed

lemma probe_inv_note:
  assumes inv: "probe_inv cfg table r" and at: "pr_at r = PNote i c cs"
  shows "probe_inv cfg table (r\<lparr>pr_probe := noteQueued i c (pr_probe r), pr_at := PLoop cs\<rparr>)"
proof -
  have new: "fmlookup (pb_idMap (pr_probe r)) i = None"
    using inv at by (simp add: probe_inv_def)
  have "named (r\<lparr>pr_probe := noteQueued i c (pr_probe r), pr_at := PLoop cs\<rparr>) = named r"
    using at new by (auto simp: named_def fun_eq_iff)
  with inv at show ?thesis unfolding probe_inv_def by simp
qed

lemma probe_inv_start:
  assumes "probeStart now l cfg = Inr r"
  shows "probe_inv cfg table r"
proof -
  let ?n = "NewADMSServer l (probeOptions cfg)"
  have p: "pristine ?n" by (rule pristine_New)
  have r: "r = \<lparr>pr_server = snd (RegisterDevice now (pc_sn cfg) [] ?n), pr_probe = newProbe, pr_at = PWait,
      pr_cancelled = False, pr_returned = False\<rparr>"
    using assms by (auto simp: probeStart_def split: prod.splits option.splits)
  have "traced K ?n" for K
    using p by (simp add: traced_def known_cmds_def pristine_def queueOf_def committed_def)
  then have "traced K (pr_server r)" for K
    unfolding r by (simp add: known.P_register)
  moreover have "cmdID (pr_server r) = 0"
    using p rest_of_eqD(3) [OF rest_of_RegisterDevice] by (simp add: r pristine_def)
  ultimately show ?thesis
    by (simp add: probe_inv_def named_def) (simp add: r newProbe_def)
qed

lemma length_candidates: "length (candidates st) = 50"
  by (simp add: candidates_def)

lemma probe_inv_prober:
  assumes "proberStep cfg st r r'" "probe_inv cfg (candidates st) r"
  shows "probe_inv cfg (candidates st) r'"
proof -
  note inv = assms(2)
  from inv have replied: "pb_replied (pr_probe r) = length (pb_results (pr_probe r))"
    and room: "length (left (candidates st) (pr_at r)) \<le> length (candidates st)"
    by (simp_all add: probe_inv_def)
  from assms(1) show ?thesis
  proof (cases rule: proberStep.cases)
    case (queue c cs)
    then show ?thesis using probe_inv_queue [OF inv] by (simp add: length_candidates)
  next
    case (noted i c cs)
    then show ?thesis using probe_inv_note [OF inv] by simp
  next
    case (connected now)
    then show ?thesis using replied room by (intro probe_inv_same [OF inv]) simp_all
  next
    case queued_all
    then show ?thesis using replied by (intro probe_inv_same [OF inv]) simp_all
  next
    case timed_out
    then show ?thesis using replied by (intro probe_inv_same [OF inv]) (simp_all add: watchTimeout_def)
  next
    case (stopped c cs)
    then show ?thesis using replied by (intro probe_inv_same [OF inv]) auto
  next
    case returned
    then show ?thesis using replied by (intro probe_inv_same [OF inv]) (simp_all add: runEnd_def)
  qed
qed

lemma probe_inv_around:
  assumes "probeAround mj r r'" "probe_inv cfg table r"
  shows "probe_inv cfg table r'"
proof -
  have replied: "pb_replied (pr_probe r) = length (pb_results (pr_probe r))"
    using assms(2) by (simp add: probe_inv_def)
  from assms(1) show ?thesis
  proof (cases rule: probeAround.cases)
    case (surroundings x)
    then show ?thesis using probe_inv_outside [OF assms(2)] by simp
  next
    case ticked
    then show ?thesis
      using replied by (intro probe_inv_same [OF assms(2)]) (simp_all add: watchTick_def Let_def)
  qed (use replied in \<open>intro probe_inv_same [OF assms(2)]; simp\<close>)+
qed

interpretation probing: rel_machine "probe_init cfg" "probe_step cfg st mj" "probe_inv cfg (candidates st)"
  for cfg st mj
  by unfold_locales
    (auto simp: probe_init_def probe_step_def intro: probe_inv_start probe_inv_prober probe_inv_around)

subsection \<open>The run ends\<close>

text \<open>How many steps the goroutine and \<open>run\<close> have left, at most.\<close>

fun prober_todo :: "nat \<Rightarrow> prober \<Rightarrow> nat" where
  "prober_todo n PWait = 2 * n + 4"
| "prober_todo n (PLoop cs) = 2 * length cs + 3"
| "prober_todo n (PNote i c cs) = 2 * length cs + 4"
| "prober_todo n PWatch = 2"
| "prober_todo n PEnd = 0"

definition probe_todo :: "probe_run \<Rightarrow> nat" where
  "probe_todo r = prober_todo 50 (pr_at r) + (if pr_returned r then 0 else 1)"

text \<open>The device has been seen, or the program is asked to stop.\<close>

definition underway :: "probe_run \<Rightarrow> bool" where
  "underway r \<longleftrightarrow> pr_at r \<noteq> PWait \<or> pr_cancelled r"

definition ends_cancelled :: "probe_run \<Rightarrow> bool" where
  "ends_cancelled r \<longleftrightarrow> (pr_at r = PEnd \<longrightarrow> pr_cancelled r)"

lemma queueNext_at:
  "pr_at (queueNext cfg c cs r) = PLoop cs \<or> (\<exists>i. pr_at (queueNext cfg c cs r) = PNote i c cs)"
  "pr_returned (queueNext cfg c cs r) = pr_returned r" "pr_cancelled (queueNext cfg c cs r) = pr_cancelled r"
  by (auto simp: queueNext_def split: prod.split option.split)

lemma queueNext_todo:
  "pr_at r = PLoop (c # cs) \<Longrightarrow> Suc (probe_todo (queueNext cfg c cs r)) \<le> probe_todo r"
  using queueNext_at(1) [of cfg c cs r] by (auto simp: probe_todo_def queueNext_at(2))

lemmas prober_moves = watchTimeout_def watchTick_def runEnd_def serverStep_def Let_def

lemma prober_less:
  assumes "proberStep cfg st r t"
  shows "Suc (probe_todo t) \<le> probe_todo r"
  using assms
proof (cases rule: proberStep.cases)
  case (queue c cs)
  then show ?thesis using queueNext_todo by simp
qed (auto simp: probe_todo_def length_candidates prober_moves)

lemma around_same: "probeAround mj r t \<Longrightarrow> probe_todo t \<le> probe_todo r"
  by (induction rule: probeAround.induct) (auto simp: probe_todo_def prober_moves)

lemma ends_cancelled_prober:
  assumes "proberStep cfg st r t" "ends_cancelled r"
  shows "ends_cancelled t"
  using assms(1)
proof (cases rule: proberStep.cases)
  case (queue c cs)
  then show ?thesis using queueNext_at(1) [of cfg c cs r] by (auto simp: ends_cancelled_def)
qed (use assms(2) in \<open>auto simp: ends_cancelled_def prober_moves\<close>)

lemma ends_cancelled_around: "probeAround mj r t \<Longrightarrow> ends_cancelled r \<Longrightarrow> ends_cancelled t"
  by (induction rule: probeAround.induct) (auto simp: ends_cancelled_def prober_moves)

lemma underway_prober:
  assumes "proberStep cfg st r t" "underway r"
  shows "underway t"
  using assms(1)
proof (cases rule: proberStep.cases)
  case (queue c cs)
  then show ?thesis using queueNext_at(1) [of cfg c cs r] by (auto simp: underway_def)
qed (use assms(2) in \<open>auto simp: underway_def prober_moves\<close>)

lemma underway_around: "probeAround mj r t \<Longrightarrow> underway r \<Longrightarrow> underway t"
  by (induction rule: probeAround.induct) (auto simp: underway_def prober_moves)

lemma prober_goes_on:
  assumes "ends_cancelled r" "underway r" "\<not> pr_returned r"
  shows "\<exists>t. proberStep cfg st r t"
proof (cases "pr_cancelled r")
  case True
  then show ?thesis using assms(3) by (blast intro: proberStep.returned)
next
  case False
  then show ?thesis
  proof (cases "pr_at r")
    case (PLoop cs)
    with False show ?thesis by (cases cs) (blast intro: proberStep.queued_all proberStep.queue)+
  qed (use assms False in \<open>auto simp: underway_def ends_cancelled_def
    intro: proberStep.noted proberStep.timed_out\<close>)
qed

interpretation ending: progress_machine "proberStep cfg st" "probeAround mj" ends_cancelled underway
    pr_returned probe_todo 0 for cfg st mj
  by unfold_locales
    (use around_same in \<open>auto intro: ends_cancelled_prober ends_cancelled_around underway_prober underway_around
      prober_less prober_goes_on\<close>)

lemma probeStart_fresh:
  "probeStart now l cfg = Inr r \<Longrightarrow> pr_at r = PWait \<and> \<not> pr_cancelled r \<and> \<not> pr_returned r"
  by (auto simp: probeStart_def split: prod.splits option.splits)

lemma ends_cancelled_reach: "reach (probe_init cfg) (probe_step cfg st mj) r \<Longrightarrow> ends_cancelled r"
proof (induction rule: reach.induct)
  case (reach_init r)
  then show ?case by (auto simp: probe_init_def ends_cancelled_def dest: probeStart_fresh)
next
  case (reach_step r t)
  then show ?case by (auto simp: probe_step_def intro: ends_cancelled_prober ends_cancelled_around)
qed

lemma probe_todo_bound: "probe_inv cfg (candidates st) r \<Longrightarrow> probe_todo r \<le> 105"
  by (cases "pr_at r") (auto simp: probe_todo_def probe_inv_def length_candidates)

subsection \<open>Nothing is refused while the device is registered\<close>

text \<open>A server holds no more commands for a device than it has given out IDs.\<close>

lemma card_ids: "finite A \<Longrightarrow> A \<subseteq> {i. 0 < i \<and> i \<le> n} \<Longrightarrow> card A \<le> unat (n :: 64 word)"
proof -
  assume A: "finite A" "A \<subseteq> {i. 0 < i \<and> i \<le> n}"
  have "unat ` A \<subseteq> {1..unat n}"
    using A(2) by (auto simp: word_le_nat_alt word_less_nat_alt)
  then have "card (unat ` A) \<le> unat n" using card_mono [of "{1..unat n}" "unat ` A"] by simp
  moreover have "card (unat ` A) = card A" by (rule card_image) (simp add: inj_on_def unsigned_word_eqI)
  ultimately show ?thesis by simp
qed

lemma outstanding_le:
  assumes "ids_ok s"
  shows "outstanding sn s \<le> unat (cmdID s)"
proof -
  let ?Q = "ce_ID ` set (queueOf sn s)" and ?P = "{i. \<exists>p. fmlookup (pendingCommands s) i = Some p \<and> pe_sn p = sn}"
  have "distinct (map ce_ID (queueOf sn s))"
    using ids_okD(1) [OF assms, of sn] by (simp add: strict_sorted_iff)
  then have "length (queueOf sn s) = card ?Q"
    using distinct_card [of "map ce_ID (queueOf sn s)"] by simp
  moreover have "finite ?P" by (rule finite_fmlookup)
  moreover have "?Q \<inter> ?P = {}" using ids_okD(2) [OF assms] by auto
  ultimately have "outstanding sn s = card (?Q \<union> ?P)"
    by (simp add: outstanding_def pendingCountLocked_def fmcount_card card_Un_disjoint)
  moreover have "?Q \<union> ?P \<subseteq> {i. 0 < i \<and> i \<le> cmdID s}"
    using ids_okD(2,4) [OF assms] by blast
  ultimately show ?thesis using card_ids [of "?Q \<union> ?P" "cmdID s"] \<open>finite ?P\<close> by simp
qed

definition one_line :: "candidate \<Rightarrow> bool" where
  "one_line c \<longleftrightarrow> CR \<notin> set (ca_cmd c) \<and> NL \<notin> set (ca_cmd c)"

lemma QueueCommand_accepts:
  assumes "CR \<notin> set c" "NL \<notin> set c" "fmlookup (devices s) sn \<noteq> None"
    "int (outstanding sn s) < maxCommandsPerDevice s"
  shows "QueueCommand sn c s = (cmdID s + 1, None, s\<lparr>cmdID := cmdID s + 1, commandQueue :=
      fmupd sn (queueOf sn s @ [\<lparr>ce_ID = cmdID s + 1, ce_Command = c\<rparr>]) (commandQueue s)\<rparr>)"
proof -
  have "validateCommandField ''command'' c = None" using assms by (simp add: validateCommandField_None)
  then show ?thesis
    using assms by (cases rule: QueueCommand_cases [of sn c s]) (auto simp: outstanding_def)
qed

lemma candidates_one_line:
  assumes "valid_stamp st"
  shows "list_all one_line (candidates st)"
proof -
  have "CR \<notin> set (formatStamp st)" "NL \<notin> set (formatStamp st)"
    by (rule formatStamp_avoids [OF assms]; simp add: isDigit_def)+
  then show ?thesis by (simp add: candidates_def cand_def one_line_def)
qed

text \<open>A run in which no step leaves the device unregistered: it is not evicted.\<close>

definition kept_step :: "probeConfig \<Rightarrow> stamp \<Rightarrow> marshal \<Rightarrow> probe_run \<Rightarrow> probe_run \<Rightarrow> bool" where
  "kept_step cfg st mj r t \<longleftrightarrow>
     probe_step cfg st mj r t \<and> fmlookup (devices (pr_server t)) (pc_sn cfg) \<noteq> None"

lemma kept_reach: "reach (probe_init cfg) (kept_step cfg st mj) r \<Longrightarrow> probe_reach cfg st mj r"
  by (induction rule: reach.induct) (auto simp: kept_step_def intro: reach.intros)

text \<open>What the goroutine has taken from the table: the admitted commands of the part it has passed, each
  under the next ID.\<close>

fun noting :: "prober \<Rightarrow> candidate list" where
  "noting (PNote _ c _) = [c]"
| "noting _ = []"

definition passed :: "probeConfig \<Rightarrow> candidate list \<Rightarrow> candidate list \<Rightarrow> probe_run \<Rightarrow> bool" where
  "passed cfg table pre r \<longleftrightarrow>
     prefix pre table \<and> (pr_at r \<noteq> PEnd \<longrightarrow> table = pre @ left table (pr_at r))
     \<and> pb_queued (pr_probe r) @ noting (pr_at r) = filter (admitted cfg) pre"

definition ids_in_order :: "probe_run \<Rightarrow> bool" where
  "ids_in_order r \<longleftrightarrow>
     unat (cmdID (pr_server r)) = length (pb_queued (pr_probe r) @ noting (pr_at r))
     \<and> noteID (pr_at r) \<in> {None, Some (cmdID (pr_server r))}
     \<and> (\<forall>n < length (pb_queued (pr_probe r)).
          fmlookup (pb_idMap (pr_probe r)) (word_of_nat (Suc n)) = Some (pb_queued (pr_probe r) ! n))"

definition notes_kept :: "probeConfig \<Rightarrow> candidate list \<Rightarrow> probe_run \<Rightarrow> bool" where
  "notes_kept cfg table r \<longleftrightarrow> (\<exists>pre. passed cfg table pre r) \<and> ids_in_order r"

definition kept_inv :: "probeConfig \<Rightarrow> stamp \<Rightarrow> probe_run \<Rightarrow> bool" where
  "kept_inv cfg st r \<longleftrightarrow>
     probe_inv cfg (candidates st) r \<and> sys_inv (pr_server r)
     \<and> maxCommandsPerDevice (pr_server r) = pc_maxCommands cfg
     \<and> fmlookup (devices (pr_server r)) (pc_sn cfg) \<noteq> None
     \<and> notes_kept cfg (candidates st) r"

lemma probeStart_fields:
  assumes "probeStart now l cfg = Inr r"
  shows "pr_probe r = newProbe" "pr_at r = PWait" "cmdID (pr_server r) = 0"
    "0 < pc_maxCommands cfg \<Longrightarrow> maxCommandsPerDevice (pr_server r) = pc_maxCommands cfg"
    "fmlookup (devices (pr_server r)) (pc_sn cfg)
       = Some \<lparr>SerialNumber = pc_sn cfg, LastActivity = now, Options = fmempty, Timezone = None\<rparr>"
    "pr_server r = snd (RegisterDevice now (pc_sn cfg) [] (NewADMSServer l (probeOptions cfg)))"
  using assms
  by (auto simp: probeStart_def RegisterDevice_def probeOptions_def NewADMSServer_def
      option_defs newServer_def second_def split: option.splits if_splits)

lemma probeStart_Inr:
  assumes "probeStart now l cfg = Inr r" "cfg = mainConfig sn d"
  shows "pr_probe r = newProbe" "pr_at r = PWait" "cmdID (pr_server r) = 0" "queueOf k (pr_server r) = []"
    "pendingCommands (pr_server r) = fmempty" "maxCommandsPerDevice (pr_server r) = 200"
    "onlineThreshold (pr_server r) = 2 * 60 * second"
    "fmlookup (devices (pr_server r)) sn = Some \<lparr>SerialNumber = sn, LastActivity = now, Options = fmempty, Timezone = None\<rparr>"
  using assms
  by (auto simp: probeStart_def RegisterDevice_def mainConfig_def probeOptions_def NewADMSServer_def
      option_defs newServer_def queueOf_def second_def split: option.splits if_splits)

lemma kept_inv_start:
  assumes "probe_init cfg r" "0 < pc_maxCommands cfg"
  shows "kept_inv cfg st r"
proof -
  obtain now l where start: "probeStart now l cfg = Inr r" using assms(1) by (auto simp: probe_init_def)
  note r = probeStart_fields [OF start]
  have "sys_inv (pr_server r)" unfolding r(6) by (rule sys_inv_RegisterDevice [OF sys_inv_New]) simp
  then show ?thesis
    using probe_inv_start [OF start] r assms(2)
    by (auto simp: kept_inv_def notes_kept_def passed_def ids_in_order_def newProbe_def)
qed

text \<open>A command that is admitted is accepted: it is one line, the device is registered, and fewer
  commands than the limit are outstanding.\<close>

lemma queueNext_accepted:
  assumes "kept_inv cfg st r" "valid_stamp st" "50 \<le> pc_maxCommands cfg" "pr_at r = PLoop (c # cs)" "admitted cfg c"
  shows "queueNext cfg c cs r = r\<lparr>pr_server := (pr_server r)\<lparr>cmdID := cmdID (pr_server r) + 1, commandQueue :=
      fmupd (pc_sn cfg) (queueOf (pc_sn cfg) (pr_server r) @ [\<lparr>ce_ID = cmdID (pr_server r) + 1, ce_Command = ca_cmd c\<rparr>])
        (commandQueue (pr_server r))\<rparr>, pr_at := PNote (cmdID (pr_server r) + 1) c cs\<rparr>"
proof -
  let ?s = "pr_server r"
  have inv: "c \<in> set (candidates st)" "unat (cmdID ?s) < 50" "ids_ok ?s"
    "maxCommandsPerDevice ?s = pc_maxCommands cfg" "fmlookup (devices ?s) (pc_sn cfg) \<noteq> None"
    using assms(1,4) by (simp_all add: kept_inv_def probe_inv_def length_candidates sys_inv_def cmd_inv_def)
  have "one_line c" using candidates_one_line [OF assms(2)] inv(1) by (simp add: list_all_iff)
  moreover have "outstanding (pc_sn cfg) ?s < 50"
    using outstanding_le [OF inv(3)] inv(2) by (rule le_less_trans)
  ultimately have "QueueCommand (pc_sn cfg) (ca_cmd c) ?s = (cmdID ?s + 1, None, ?s\<lparr>cmdID := cmdID ?s + 1,
      commandQueue := fmupd (pc_sn cfg) (queueOf (pc_sn cfg) ?s @ [\<lparr>ce_ID = cmdID ?s + 1, ce_Command = ca_cmd c\<rparr>])
        (commandQueue ?s)\<rparr>)"
    using inv(4,5) assms(3) by (intro QueueCommand_accepts) (simp_all add: one_line_def)
  then show ?thesis using assms(5) by (auto simp: queueNext_def admitted_def)
qed

text \<open>Steps that leave the goroutine's notes alone.\<close>

lemma passed_same:
  assumes "passed cfg table pre r" "pb_queued (pr_probe t) = pb_queued (pr_probe r)"
    "noting (pr_at t) = noting (pr_at r)"
    "pr_at t = PEnd \<or> pr_at r \<noteq> PEnd \<and> left table (pr_at t) = left table (pr_at r)"
  shows "passed cfg table pre t"
  using assms by (auto simp: passed_def)

lemma ids_in_order_same:
  assumes "ids_in_order r" "pb_queued (pr_probe t) = pb_queued (pr_probe r)" "pb_idMap (pr_probe t) = pb_idMap (pr_probe r)"
    "noting (pr_at t) = noting (pr_at r)" "noteID (pr_at t) = noteID (pr_at r)"
    "cmdID (pr_server t) = cmdID (pr_server r)"
  shows "ids_in_order t"
  using assms by (simp add: ids_in_order_def)

lemma notes_kept_same:
  assumes "notes_kept cfg table r" "pb_queued (pr_probe t) = pb_queued (pr_probe r)"
    "pb_idMap (pr_probe t) = pb_idMap (pr_probe r)"
    "pr_at t = pr_at r \<or> noting (pr_at t) = [] \<and> noting (pr_at r) = []
       \<and> (pr_at t = PEnd \<or> pr_at r \<noteq> PEnd \<and> left table (pr_at t) = left table (pr_at r))"
    "cmdID (pr_server t) = cmdID (pr_server r)"
  shows "notes_kept cfg table t"
proof -
  have none: "noteID a = None" if "noting a = []" for a using that by (cases a) auto
  have "noting (pr_at t) = noting (pr_at r)" "noteID (pr_at t) = noteID (pr_at r)"
    "pr_at t = PEnd \<or> pr_at r \<noteq> PEnd \<and> left table (pr_at t) = left table (pr_at r)"
    using assms(4) none by auto
  then show ?thesis
    using assms(1) passed_same [OF _ assms(2)] ids_in_order_same [OF _ assms(2,3) _ _ assms(5)]
    unfolding notes_kept_def by blast
qed

lemma notes_kept_queue:
  assumes "kept_inv cfg st r" "valid_stamp st" "50 \<le> pc_maxCommands cfg" "pr_at r = PLoop (c # cs)"
  shows "notes_kept cfg (candidates st) (queueNext cfg c cs r)"
proof -
  obtain pre where pre: "passed cfg (candidates st) pre r" and ids: "ids_in_order r"
    using assms(1) by (auto simp: kept_inv_def notes_kept_def)
  have table: "candidates st = (pre @ [c]) @ cs" using pre assms(4) by (simp add: passed_def)
  have "unat (cmdID (pr_server r)) < 50"
    using assms(1,4) by (simp add: kept_inv_def probe_inv_def length_candidates)
  then have up: "unat (cmdID (pr_server r) + 1) = Suc (unat (cmdID (pr_server r)))"
    using unat_add_1 [of "cmdID (pr_server r)"] by simp
  have "passed cfg (candidates st) (pre @ [c]) (queueNext cfg c cs r) \<and> ids_in_order (queueNext cfg c cs r)"
  proof (cases "admitted cfg c")
    case True
    show ?thesis
      unfolding queueNext_accepted [OF assms True]
      using pre ids assms(4) True table by (simp add: passed_def ids_in_order_def prefix_def up)
  next
    case False
    then show ?thesis
      using pre ids assms(4) table by (auto simp: passed_def ids_in_order_def prefix_def queueNext_def admitted_def)
  qed
  then show ?thesis by (auto simp: notes_kept_def)
qed

lemma notes_kept_note:
  assumes "notes_kept cfg table r" "pr_at r = PNote i c cs"
    "length (pb_queued (pr_probe r)) < 50"
  shows "notes_kept cfg table (r\<lparr>pr_probe := noteQueued i c (pr_probe r), pr_at := PLoop cs\<rparr>)"
proof -
  let ?n = "length (pb_queued (pr_probe r))" and ?w = "\<lambda>n. word_of_nat (Suc n) :: 64 word"
  have i: "i = cmdID (pr_server r)" "unat i = Suc ?n"
    using assms(1,2) by (auto simp: notes_kept_def ids_in_order_def)
  have w: "unat (?w n) = Suc n" if "n \<le> ?n" for n
    using that assms(3) by (simp add: unat_of_nat take_bit_nat_def del: of_nat_Suc)
  then have "unat (?w ?n) = unat i" using i(2) by simp
  then have "?w ?n = i" by (rule unsigned_word_eqI)
  moreover have "?w n \<noteq> i" if "n < ?n" for n
    using that w [of n] i(2) by (auto simp del: of_nat_Suc)
  moreover have "fmlookup (pb_idMap (pr_probe r)) (?w n) = Some (pb_queued (pr_probe r) ! n)" if "n < ?n" for n
    using that assms(1) unfolding notes_kept_def ids_in_order_def by blast
  ultimately have "fmlookup (fmupd i c (pb_idMap (pr_probe r))) (?w n) = Some ((pb_queued (pr_probe r) @ [c]) ! n)"
    if "n < Suc ?n" for n
  proof (cases "n = ?n")
    case False
    then have n: "n < ?n" using that by simp
    then have "?w n \<noteq> i" "fmlookup (pb_idMap (pr_probe r)) (?w n) = Some (pb_queued (pr_probe r) ! n)"
      using \<open>\<And>n. n < ?n \<Longrightarrow> ?w n \<noteq> i\<close> \<open>\<And>n. n < ?n \<Longrightarrow> fmlookup (pb_idMap (pr_probe r)) (?w n) = Some (pb_queued (pr_probe r) ! n)\<close>
      by blast+
    then show ?thesis using n by (simp add: nth_append del: of_nat_Suc)
  qed (simp add: \<open>?w ?n = i\<close> del: of_nat_Suc)
  moreover have "\<exists>pre. passed cfg table pre (r\<lparr>pr_probe := noteQueued i c (pr_probe r), pr_at := PLoop cs\<rparr>)"
    using assms(1,2) by (auto simp: notes_kept_def passed_def)
  ultimately show ?thesis
    using i by (simp add: notes_kept_def ids_in_order_def del: of_nat_Suc)
qed

text \<open>The server of a run is the package's: its invariant holds, its limit does not change.\<close>

lemma server_step:
  assumes "probe_step cfg st mj r t" "sys_inv (pr_server r)" "id_room (pr_server r)"
  shows "sys_inv (pr_server t) \<and> maxCommandsPerDevice (pr_server t) = maxCommandsPerDevice (pr_server r)"
proof -
  let ?ok = "\<lambda>s. sys_inv s \<and> maxCommandsPerDevice s = maxCommandsPerDevice (pr_server r)"
  have q: "?ok (snd (snd (QueueCommand sn c (pr_server r))))" for sn c
    using sys_inv_QueueCommand [OF assms(2,3), of sn c]
    by (cases rule: QueueCommand_cases [of sn c "pr_server r"]) simp_all
  have "pr_server (queueNext cfg c cs r) \<in> {pr_server r, snd (snd (QueueCommand (pc_sn cfg) (ca_cmd c) (pr_server r)))}" for c cs
    by (auto simp: queueNext_def split: prod.splits option.splits)
  then have n: "?ok (pr_server (queueNext cfg c cs r))" for c cs
    using q assms(2) by (metis insertE singletonD)
  have o: "?ok (step mj x (pr_server r))" if "outside x" for x
    using sys_inv_step [OF assms(2,3)] maxCommands_outside [OF that] by simp
  from assms(1) show ?thesis
    unfolding probe_step_def
  proof
    assume "proberStep cfg st r t"
    then show ?thesis using assms(2) n by (cases rule: proberStep.cases) (simp_all add: prober_moves)
  next
    assume "probeAround mj r t"
    then show ?thesis using assms(2) o by (cases rule: probeAround.cases) (simp_all add: prober_moves)
  qed
qed

lemma notes_kept_step:
  assumes "kept_inv cfg st r" "valid_stamp st" "50 \<le> pc_maxCommands cfg" "probe_step cfg st mj r t"
  shows "notes_kept cfg (candidates st) t"
proof -
  have kept: "notes_kept cfg (candidates st) r" using assms(1) by (simp add: kept_inv_def)
  note same = notes_kept_same [OF kept]
  from assms(4) show ?thesis
    unfolding probe_step_def
  proof
    assume "proberStep cfg st r t"
    then show ?thesis
    proof (cases rule: proberStep.cases)
      case (queue c cs)
      then show ?thesis using notes_kept_queue [OF assms(1-3)] by simp
    next
      case (noted i c cs)
      have "length (pb_queued (pr_probe r)) < 50"
        using assms(1) noted(2) by (auto simp: kept_inv_def probe_inv_def length_candidates notes_kept_def ids_in_order_def)
      then show ?thesis using notes_kept_note [OF kept noted(2)] noted(1) by simp
    next
      case (connected now)
      then show ?thesis by (intro same) simp_all
    next
      case queued_all
      then show ?thesis by (intro same) simp_all
    next
      case timed_out
      then show ?thesis by (intro same) (simp_all add: watchTimeout_def)
    next
      case (stopped c cs)
      then show ?thesis by (intro same) auto
    next
      case returned
      then show ?thesis by (intro same) (simp_all add: runEnd_def)
    qed
  next
    assume "probeAround mj r t"
    then show ?thesis
    proof (cases rule: probeAround.cases)
      case (surroundings x)
      then show ?thesis
        by (intro same) (simp_all add: serverStep_def Let_def hear_fields cmdID_outside)
    next
      case ticked
      then show ?thesis by (intro same) (auto simp: watchTick_def Let_def)
    qed (intro same; simp)+
  qed
qed

lemma kept_inv_step:
  assumes "kept_inv cfg st r" "valid_stamp st" "50 \<le> pc_maxCommands cfg" "kept_step cfg st mj r t"
  shows "kept_inv cfg st t"
proof -
  have step: "probe_step cfg st mj r t" "fmlookup (devices (pr_server t)) (pc_sn cfg) \<noteq> None"
    using assms(4) by (simp_all add: kept_step_def)
  have inv: "probe_inv cfg (candidates st) r" "sys_inv (pr_server r)"
    "maxCommandsPerDevice (pr_server r) = pc_maxCommands cfg"
    using assms(1) by (simp_all add: kept_inv_def)
  have "id_room (pr_server r)" using inv(1) by (simp add: probe_inv_def id_room_def length_candidates)
  from server_step [OF step(1) inv(2) this] inv(3) show ?thesis
    using probing.step_inv [OF inv(1) step(1)] notes_kept_step [OF assms(1-3) step(1)] step(2)
    by (simp add: kept_inv_def)
qed

lemma kept_inv_reach:
  assumes "reach (probe_init cfg) (kept_step cfg st mj) r" "valid_stamp st" "50 \<le> pc_maxCommands cfg"
  shows "kept_inv cfg st r"
  using assms(1)
proof (induction rule: reach.induct)
  case (reach_init r)
  then show ?case using kept_inv_start assms(3) by simp
next
  case (reach_step r t)
  then show ?case using kept_inv_step assms(2,3) by blast
qed

text \<open>A row for every result that the callback hears, under the candidate that its ID names.\<close>

lemma fold_hear_results: "set (pb_results p) \<subseteq> set (pb_results (fold hear evs p))"
proof (induction evs arbitrary: p)
  case (Cons ev evs)
  have "set (pb_results p) \<subseteq> set (pb_results (hear ev p))" by (cases ev) auto
  also have "\<dots> \<subseteq> set (pb_results (fold hear evs (hear ev p)))" by (rule Cons.IH)
  finally show ?case by simp
qed simp

lemma heard_result:
  assumes "CommandResultEv cr \<in> set evs" "fmlookup (pb_idMap p) (cr_ID cr) = Some c"
  shows "\<lparr>re_cmd = ca_cmd c, re_desc = ca_desc c, re_id = cr_ID cr, re_retCode = ReturnCode cr,
    re_retCmd = cr_Command cr\<rparr> \<in> set (pb_results (fold hear evs p))"
proof -
  obtain evs1 evs2 where evs: "evs = evs1 @ CommandResultEv cr # evs2"
    using split_list [OF assms(1)] by blast
  let ?p = "fold hear evs1 p"
  have "correlate cr ?p = (ca_cmd c, ca_desc c)"
    using assms(2) by (simp add: correlate_def hear_fields(1))
  then show ?thesis
    using fold_hear_results [of "onResult cr ?p" evs2] by (simp add: evs)
qed

subsection \<open>Properties\<close>

text \<open>C29 In every reachable state of a run, with any requests, evictions, callbacks and steps of the
  goroutine in between: when the callback hears a result for a command that the server had queued, it adds
  to the results a row with that command, its description from the table, and the ID and return code of the
  device, unless the goroutine has not yet noted the ID that \<open>QueueCommand\<close> returned.  The command is one of
  the table's, a destructive one only if asked for.\<close>

theorem probe_correlates:
  assumes "probe_reach cfg st mj r" "outside x"
    "CommandResultEv cr \<in> set (drop (length (cbLog (pr_server r))) (cbLog (step mj x (pr_server r))))"
    "QueuedCommand cr \<noteq> []"
  shows "\<exists>c \<in> set (candidates st). ca_cmd c = QueuedCommand cr \<and> (ca_safe c \<or> pc_destructive cfg)
    \<and> ((\<exists>cs. pr_at r = PNote (cr_ID cr) c cs)
       \<or> \<lparr>re_cmd = QueuedCommand cr, re_desc = ca_desc c, re_id = cr_ID cr, re_retCode = ReturnCode cr,
           re_retCmd = cr_Command cr\<rparr> \<in> set (pb_results (pr_probe (serverStep mj x r))))"
proof -
  note inv = probing.reach_inv [OF assms(1), unfolded probe_inv_def]
  have "CommandResultEv cr \<in> set (committed (step mj x (pr_server r)))"
    using in_set_dropD [OF assms(3)] by (simp add: committed_def)
  moreover have "traced (\<lambda>i text. \<exists>c. named r i c \<and> ca_cmd c = text) (step mj x (pr_server r))"
    using inv traced_outside [OF assms(2)] by blast
  ultimately obtain c where c: "named r (cr_ID cr) c" "ca_cmd c = QueuedCommand cr"
    using assms(4) by (auto simp: traced_def)
  then have "c \<in> set (candidates st)" "admitted cfg c" using inv by blast+
  moreover have "\<lparr>re_cmd = ca_cmd c, re_desc = ca_desc c, re_id = cr_ID cr, re_retCode = ReturnCode cr,
      re_retCmd = cr_Command cr\<rparr> \<in> set (pb_results (pr_probe (serverStep mj x r)))"
    if "fmlookup (pb_idMap (pr_probe r)) (cr_ID cr) = Some c"
    using heard_result [OF assms(3), of "pr_probe r"] that by (simp add: serverStep_def Let_def)
  ultimately show ?thesis using c by (auto simp: admitted_def named_def)
qed

text \<open>C38 While the device stays registered, nothing of the table is refused, whatever requests, evictions
  of other devices and callbacks come in between: with the configuration of \<open>main\<close> the goroutine has always
  queued and noted exactly the admitted commands of the part of the table it has passed, in order, and all
  of them when it starts to wait for confirmations; the \<open>n\<close>th has the ID \<open>n\<close>; and whatever waits in a
  queue is one of them.\<close>

theorem probe_queues_all:
  assumes "valid_stamp st" "reach (probe_init (mainConfig sn d)) (kept_step (mainConfig sn d) st mj) r"
  shows "(\<exists>pre. prefix pre (candidates st)
        \<and> (pr_at r \<noteq> PEnd \<longrightarrow> candidates st = pre @ left (candidates st) (pr_at r))
        \<and> pb_queued (pr_probe r) @ noting (pr_at r) = filter (\<lambda>c. ca_safe c \<or> d) pre)
    \<and> (pr_at r = PWatch \<longrightarrow> pb_queued (pr_probe r) = filter (\<lambda>c. ca_safe c \<or> d) (candidates st))
    \<and> (\<forall>n < length (pb_queued (pr_probe r)).
         fmlookup (pb_idMap (pr_probe r)) (word_of_nat (Suc n)) = Some (pb_queued (pr_probe r) ! n))
    \<and> (\<forall>k. \<forall>e \<in> set (queueOf k (pr_server r)). \<exists>c \<in> set (candidates st).
         ca_cmd c = ce_Command e \<and> (ca_safe c \<or> d))"
proof -
  let ?cfg = "mainConfig sn d"
  have adm: "admitted ?cfg = (\<lambda>c. ca_safe c \<or> d)" by (auto simp: admitted_def mainConfig_def)
  have inv: "kept_inv ?cfg st r"
    by (rule kept_inv_reach [OF assms(2,1)]) (simp add: mainConfig_def)
  then obtain pre where "passed ?cfg (candidates st) pre r" and ids: "ids_in_order r"
    by (auto simp: kept_inv_def notes_kept_def)
  then have pre: "prefix pre (candidates st)"
    "pr_at r \<noteq> PEnd \<Longrightarrow> candidates st = pre @ left (candidates st) (pr_at r)"
    "pb_queued (pr_probe r) @ noting (pr_at r) = filter (\<lambda>c. ca_safe c \<or> d) pre"
    by (simp_all add: passed_def adm)
  have "pb_queued (pr_probe r) = filter (\<lambda>c. ca_safe c \<or> d) (candidates st)" if "pr_at r = PWatch"
    using pre(2,3) that by simp
  moreover have "\<exists>c \<in> set (candidates st). ca_cmd c = ce_Command e \<and> (ca_safe c \<or> d)"
    if e: "e \<in> set (queueOf k (pr_server r))" for k e
  proof -
    have p: "probe_inv ?cfg (candidates st) r" using inv by (simp add: kept_inv_def)
    then have "known_cmds (\<lambda>i text. \<exists>c. named r i c \<and> ca_cmd c = text) (pr_server r)"
      by (simp add: probe_inv_def traced_def)
    then obtain c where "named r (ce_ID e) c" "ca_cmd c = ce_Command e"
      using e unfolding known_cmds_def by blast
    moreover from this(1) have "c \<in> set (candidates st)" "ca_safe c \<or> d"
      using p unfolding probe_inv_def adm by blast+
    ultimately show ?thesis by blast
  qed
  ultimately show ?thesis using pre ids by (auto simp: ids_in_order_def simp del: of_nat_Suc)
qed

text \<open>C30 Once the device has been seen, or the context is cancelled, the probe always gets to the end of
  \<open>run\<close>, whatever devices send and however the steps are ordered: it is never stuck before, and makes at
  most 105 steps of its own, two for each command of the table, the timeout being one.\<close>

theorem probe_returns:
  assumes "probe_reach cfg st mj r" "underway r"
  shows "(\<exists>t. (proberStep cfg st)\<^sup>*\<^sup>* r t \<and> pr_returned t)
    \<and> (\<forall>k n t. \<not> (mixed_run (proberStep cfg st) (probeAround mj) k n r t \<and> 105 < n))
    \<and> (\<forall>k n t. \<not> (mixed_run (proberStep cfg st) (probeAround mj) k n r t \<and> \<not> pr_returned t
          \<and> (\<nexists>u. proberStep cfg st t u)))"
proof -
  have inv: "ends_cancelled r" by (rule ends_cancelled_reach [OF assms(1)])
  have small: "probe_todo r \<le> 105" by (rule probe_todo_bound [OF probing.reach_inv [OF assms(1)]])
  have "n \<le> 105" if "mixed_run (proberStep cfg st) (probeAround mj) k n r t" for k n t
    using ending.run_bound [OF that inv] small by simp
  then show ?thesis
    using ending.goal_reached [OF inv assms(2)] ending.never_stuck [OF _ inv assms(2)]
    by (meson not_less)
qed

text \<open>A run on a small example: the first command queued and noted.\<close>

definition demoStamp :: stamp where
  "demoStamp = \<lparr>st_year = 2024, st_month = 5, st_day = 6, st_hour = 7, st_min = 8, st_sec = 9, st_nsec = 0\<rparr>"

lemma demo_stamp: "valid_stamp demoStamp"
  by code_simp

definition demoRun :: probe_run where
  "demoRun = \<lparr>pr_server = snd (RegisterDevice 0 ''A'' [] (NewADMSServer UTC (probeOptions (mainConfig ''A'' False)))),
     pr_probe = newProbe, pr_at = PWait, pr_cancelled = False, pr_returned = False\<rparr>"

lemma probe_demo_start: "probeStart 0 UTC (mainConfig ''A'' False) = Inr demoRun"
  by (simp add: probeStart_def demoRun_def RegisterDevice_def valid_demo mainConfig_def probeOptions_def
      NewADMSServer_def option_defs newServer_def defaultMaxDevices_def)

definition demoNoted :: probe_run where
  "demoNoted =
     (let c = cand ''INFO'' ''Request device info (firmware, serial, etc.)'' True; s = pr_server demoRun
      in demoRun\<lparr>pr_server := s\<lparr>cmdID := 1, commandQueue := fmupd ''A'' [\<lparr>ce_ID = 1, ce_Command = ''INFO''\<rparr>] (commandQueue s)\<rparr>,
           pr_probe := noteQueued 1 c newProbe, pr_at := PLoop (tl (candidates demoStamp))\<rparr>)"

lemma demo_kept: "reach (probe_init (mainConfig ''A'' False)) (kept_step (mainConfig ''A'' False) demoStamp mj) demoNoted"
proof -
  let ?cfg = "mainConfig ''A'' False" and ?c = "cand ''INFO'' ''Request device info (firmware, serial, etc.)'' True"
  let ?step = "kept_step ?cfg demoStamp mj"
  note r = probeStart_Inr [OF probe_demo_start refl]
  have at: "pr_at demoRun = PWait" "\<not> pr_cancelled demoRun" by (simp_all add: demoRun_def)
  have sn: "pc_sn ?cfg = ''A''" by (simp add: mainConfig_def)
  have "reach (probe_init ?cfg) ?step demoRun"
    by (rule reach_init) (use probe_demo_start in \<open>auto simp: probe_init_def\<close>)
  moreover have "IsDeviceOnline 0 ''A'' (pr_server demoRun)"
    using r by (simp add: IsDeviceOnline_def isDeviceOnline_def second_def)
  then have "?step demoRun (demoRun\<lparr>pr_at := PLoop (candidates demoStamp)\<rparr>)"
    using at r(8) proberStep.connected [of demoRun 0 ?cfg demoStamp]
    by (simp add: kept_step_def probe_step_def sn)
  ultimately have loop: "reach (probe_init ?cfg) ?step (demoRun\<lparr>pr_at := PLoop (candidates demoStamp)\<rparr>)"
    by (rule reach_step)
  let ?loop = "demoRun\<lparr>pr_at := PLoop (candidates demoStamp)\<rparr>"
  have table: "candidates demoStamp = ?c # tl (candidates demoStamp)" by (simp add: candidates_def)
  have "QueueCommand ''A'' ''INFO'' (pr_server demoRun) = (1, None, pr_server demoNoted)"
    using r QueueCommand_accepts [of "''INFO''" "pr_server demoRun" "''A''"]
    by (simp add: outstanding_def pendingCountLocked_def demoNoted_def Let_def)
  then have nx: "queueNext ?cfg ?c (tl (candidates demoStamp)) ?loop
      = ?loop\<lparr>pr_server := pr_server demoNoted, pr_at := PNote 1 ?c (tl (candidates demoStamp))\<rparr>"
    by (simp add: queueNext_def cand_def mainConfig_def)
  let ?note = "?loop\<lparr>pr_server := pr_server demoNoted, pr_at := PNote 1 ?c (tl (candidates demoStamp))\<rparr>"
  have reg: "fmlookup (devices (pr_server demoNoted)) ''A'' \<noteq> None"
    using r(8) by (simp add: demoNoted_def Let_def)
  have "proberStep ?cfg demoStamp ?loop (queueNext ?cfg ?c (tl (candidates demoStamp)) ?loop)"
    by (rule proberStep.queue) (use table at in simp_all)
  then have "?step ?loop ?note"
    unfolding nx using reg by (simp add: kept_step_def probe_step_def sn)
  then have noting: "reach (probe_init ?cfg) ?step ?note" by (rule reach_step [OF loop])
  have "proberStep ?cfg demoStamp ?note
      (?note\<lparr>pr_probe := noteQueued 1 ?c (pr_probe ?note), pr_at := PLoop (tl (candidates demoStamp))\<rparr>)"
    by (rule proberStep.noted) simp
  moreover have "?note\<lparr>pr_probe := noteQueued 1 ?c (pr_probe ?note), pr_at := PLoop (tl (candidates demoStamp))\<rparr> = demoNoted"
    by (simp add: demoNoted_def Let_def r(1))
  ultimately have "?step ?note demoNoted"
    using reg by (simp add: kept_step_def probe_step_def sn)
  then show ?thesis by (rule reach_step [OF noting])
qed

lemmas demo_noted = kept_reach [OF demo_kept]

theorem probe_queues_all_witness:
  "\<exists>pre. candidates demoStamp = pre @ tl (candidates demoStamp)
     \<and> pb_queued (pr_probe demoNoted) = filter ca_safe pre \<and> pb_queued (pr_probe demoNoted) \<noteq> []"
  using probe_queues_all [OF demo_stamp demo_kept]
  by (auto simp: demoNoted_def Let_def)

text \<open>The device polls, and confirms the command; the worker makes the call.\<close>

abbreviation (input) noJSON :: marshal where
  "noJSON \<equiv> (\<lambda>_ _ _. None)"

definition demoReported :: probe_run where
  "demoReported = serverStep noJSON (OpHttp demoEnv demoConfirm) (serverStep noJSON (OpHttp demoEnv demoPoll) demoNoted)"

definition demoResult :: CommandResult where
  "demoResult = \<lparr>cr_SerialNumber = ''A'', cr_ID = 1, ReturnCode = 0, cr_Command = ''INFO'', QueuedCommand = ''INFO''\<rparr>"

fun isResult :: "CommandResult \<Rightarrow> event \<Rightarrow> bool" where
  "isResult cr (CommandResultEv r) = (r = cr)"
| "isResult cr _ = False"

lemma demo_heard:
  "CommandResultEv demoResult \<in> set (drop (length (cbLog (pr_server demoReported)))
     (cbLog (step noJSON OpWorker (pr_server demoReported))))"
proof -
  have "list_ex (isResult demoResult)
      (drop (length (cbLog (pr_server demoReported))) (cbLog (step noJSON OpWorker (pr_server demoReported))))"
    by code_simp
  moreover have "isResult cr ev \<longleftrightarrow> ev = CommandResultEv cr" for cr ev by (cases ev) auto
  ultimately show ?thesis unfolding list_ex_iff by metis
qed

lemma demo_probe_reported: "probe_reach (mainConfig ''A'' False) demoStamp noJSON demoReported"
proof -
  have s: "probe_step (mainConfig ''A'' False) demoStamp noJSON r (serverStep noJSON (OpHttp e q) r)" for r e q
    by (simp add: probe_step_def probeAround.surroundings)
  show ?thesis unfolding demoReported_def by (rule reach_step [OF reach_step [OF demo_noted s] s])
qed

theorem probe_correlates_witness:
  "\<exists>c \<in> set (candidates demoStamp). ca_cmd c = ''INFO''
     \<and> \<lparr>re_cmd = ''INFO'', re_desc = ca_desc c, re_id = 1, re_retCode = 0, re_retCmd = ''INFO''\<rparr>
       \<in> set (pb_results (pr_probe (serverStep noJSON OpWorker demoReported)))"
proof -
  have "pr_at demoReported = PLoop (tl (candidates demoStamp))"
    by (simp add: demoReported_def serverStep_def Let_def demoNoted_def)
  moreover have "QueuedCommand demoResult \<noteq> []" by (simp add: demoResult_def)
  ultimately show ?thesis
    using probe_correlates [OF demo_probe_reported _ demo_heard] by (auto simp: demoResult_def)
qed

theorem probe_returns_witness:
  "\<exists>t. (proberStep (mainConfig ''A'' False) demoStamp)\<^sup>*\<^sup>* demoNoted t \<and> pr_returned t"
proof -
  have "underway demoNoted" by (simp add: underway_def demoNoted_def Let_def)
  from probe_returns [OF demo_noted this] show ?thesis by (rule conjunct1)
qed

text \<open>The count of confirmations is not the set of confirmed commands: when the second of two queued
  commands is confirmed and the first is not, the summary lists the second both as accepted and as
  unanswered, and the first nowhere; and a result that arrives before its ID is noted is reported under
  another command.\<close>

lemma summary_misreports:
  "let p = onResult \<lparr>cr_SerialNumber = sn, cr_ID = 2, ReturnCode = 0, cr_Command = c, QueuedCommand = ca_cmd c2\<rparr>
         (noteQueued 2 c2 (noteQueued 1 c1 newProbe))
   in sections (pb_results p) (pb_queued p) (pb_replied p)
       = ([summaryRow \<lparr>re_cmd = ca_cmd c2, re_desc = ca_desc c2, re_id = 2, re_retCode = 0, re_retCmd = c\<rparr>], [],
          [noReplyRow 1 c2])
      \<and> correlate \<lparr>cr_SerialNumber = sn, cr_ID = 2, ReturnCode = 0, cr_Command = c, QueuedCommand = ca_cmd c2\<rparr>
     (noteQueued 1 c1 newProbe) = (ca_cmd c1, ca_desc c1)"
  by (simp add: sections_def correlate_def newProbe_def)

text \<open>The goroutine does not wait for the device: the registration at the start counts as its activity,
  so for the whole online threshold it is reported as online without any request.\<close>

lemma probe_never_waits:
  assumes "probeStart now l (mainConfig sn d) = Inr r" "now \<le> now'" "now' \<le> now + 2 * 60 * second"
  shows "IsDeviceOnline now' sn (pr_server r)"
proof -
  have "Sub now' now \<le> 2 * 60 * second"
    using assms(2,3) Sub_le_iff [of "2 * 60 * second" now' now]
    by (simp add: is_int64_def minInt64_def maxInt64_def second_def)
  then show ?thesis
    using probeStart_Inr [OF assms(1) refl] by (simp add: IsDeviceOnline_def isDeviceOnline_def)
qed

text \<open>The request log of the probe is transparent: a handler behind it sees the request as it came,
  except for the part of a POST body that could not be read to its end.\<close>

lemma log_transparent:
  assumes "rq_method r \<noteq> ''POST'' \<or> (\<exists>bs. rq_body r = Body bs)"
  shows "snd (fst (logHandler next r s)) = fst (next r s) \<and> snd (logHandler next r s) = snd (next r s)"
proof -
  have "r\<lparr>rq_body := Body bs\<rparr> = r" if "rq_body r = Body bs" for bs using that by (cases r) simp
  then have "\<exists>b. (if rq_method r = ''POST'' then
      (case rq_body r of Body bs \<Rightarrow> (bs, r\<lparr>rq_body := Body bs\<rparr>) | BodyErr bs \<Rightarrow> ([], r\<lparr>rq_body := BodyErr []\<rparr>))
      else ([], r)) = (b, r)"
    using assms by auto
  then obtain b where b: "(if rq_method r = ''POST'' then
      (case rq_body r of Body bs \<Rightarrow> (bs, r\<lparr>rq_body := Body bs\<rparr>) | BodyErr bs \<Rightarrow> ([], r\<lparr>rq_body := BodyErr []\<rparr>))
      else ([], r)) = (b, r)" ..
  show ?thesis by (cases "next r s") (simp add: logHandler_def b Let_def)
qed

end
