(* ===== verification/Spec2Isabelle.thy ===== *)
theory Spec2Isabelle
  imports Adms_Callbacks Adms_Confirming Example_Programs Example_Listing Example_Run Probe_Tool
begin

text \<open>
  \<^bold>\<open>Verification of \<open>zkteco-adms\<close>\<close>, a Go server for the ADMS (push) protocol of biometric
  attendance devices.

  \<^bold>\<open>The program.\<close>  A device sends attendance logs, device information, user tables and command
  confirmations over HTTP and polls for commands.  The package \<open>zkadms\<close> parses the payloads,
  hands the results to user callbacks through a bounded channel drained by one worker, keeps a
  registry of devices with a limit, timezones and an eviction of stale ones, and keeps for every device
  a queue of commands whose 64-bit IDs correlate confirmations with what was sent.  Four programs use
  it: a minimal server, a REST interface for commands, a store of attendance records, and a probe that
  tries a table of commands on a device.

  \<^bold>\<open>Theories of the package.\<close>
  \<^item> \<open>Prelude\<close>: finite-map counting, and the generic interfaces: text codecs, machines driven by
    operations, step relations with reachable states, machines that make progress towards a goal.
  \<^item> \<open>Go_Strings\<close>, \<open>Go_Numbers\<close>, \<open>Go_Time\<close>, \<open>Go_Http\<close>: what the source uses of Go's library:
    splitting, trimming by Unicode white space, \<open>strconv\<close>, the timestamp layout and locations,
    durations that saturate, query strings, body limits.
  \<^item> \<open>Adms_Types\<close>: \<open>types.go\<close>.  \<open>Adms_Server\<close>: the record \<open>ADMSServer\<close>, the callback channel, its
    worker and the dispatch functions of \<open>adms.go\<close>, with the contract \<open>outbox\<close>.
    \<open>Adms_Options\<close>: \<open>options.go\<close> and \<open>NewADMSServer\<close>.
  \<^item> \<open>Adms_Parser\<close>: \<open>parser.go\<close>.  \<open>Adms_Texts\<close>: the texts devices send and the round trips.
  \<^item> \<open>Adms_Devices\<close>: \<open>device.go\<close>, with the contract \<open>registry\<close>.  \<open>Adms_Commands\<close>:
    \<open>command.go\<close>, with the contract \<open>mailbox\<close> and the wire lines as a codec.
    \<open>Adms_Eviction\<close>: the eviction worker of \<open>adms.go\<close>.
  \<^item> \<open>Adms_Handlers\<close>: \<open>handler.go\<close>, each handler a function from a request and the server to a
    response and the server; the locale \<open>handler_steps\<close> carries any property that the parts of the
    handlers keep over to all routes (\<open>handler_parts\<close> where the parts of a confirmation keep it one by
    one).
  \<^item> \<open>Adms_System\<close>: all operations as one datatype, and the invariants after any sequence; the locale
    \<open>counted_machine\<close> keeps count of the command IDs and is interpreted again by the example programs.
  \<^item> \<open>Adms_Delivery\<close> and \<open>Adms_Callbacks\<close>: the histories of a run: which commands were accepted, which
    ones devices read from the answers, and what the user callbacks received.
  \<^item> \<open>Adms_Shutdown\<close>: \<open>Close\<close> of \<open>adms.go\<close>, the dispatchers and both workers as a step relation at the
    granularity of their locks and channels.  \<open>Adms_Races\<close>: \<open>QueueCommand\<close> and the eviction at their
    critical sections, any number of calls at once.  \<open>Adms_Confirming\<close>: the confirmation loop at its own,
    any number of requests at once, among those of \<open>Adms_Races\<close>.

  \<^bold>\<open>Theories of the programs.\<close>
  \<^item> \<open>Example_Logging\<close>: the recorder and the middleware that the three examples share.
  \<^item> \<open>Example_Commands\<close>: \<open>examples/commands/main.go\<close>, its handlers, routes and start-up, against a
    specification of what each endpoint stands for (\<open>requested\<close>, \<open>apiSpec\<close>).
  \<^item> \<open>Example_Database\<close>: \<open>examples/database/main.go\<close>, the store as a function of the calls the worker
    has made.  \<open>Example_Basic\<close>: \<open>examples/basic/main.go\<close>.
  \<^item> \<open>Probe_Tool\<close>: \<open>cmd/probe/main.go\<close>, the goroutine that queues the table as a step relation beside
    the server, with the proofs that it ends and that it queues the whole table while the device stays
    registered, the callback that correlates results, the summary and the request log.
  \<^item> \<open>Example_Programs\<close>: the three examples as users of the package: which operation each request stands
    for (\<open>commandsOps\<close>, \<open>basicOps\<close>, \<open>databaseOps\<close>).  \<open>Example_Console\<close>: what the
    callbacks of the programs print.  \<open>Example_Listing\<close>: the endpoints they print at the start, read
    back and held against the routes.  \<open>Example_Run\<close>: how the four programs stop, around the closing
    protocol.

  \<^bold>\<open>How state corresponds.\<close>  \<open>ADMSServer\<close> is one record with the source's field names; maps are
  finite maps, command IDs 64-bit words, durations and clock readings integers in nanoseconds.  In the
  sequential theories the mutexes are not state: each operation runs as a whole; \<open>Adms_Shutdown\<close>,
  \<open>Adms_Races\<close> and \<open>Adms_Confirming\<close> take the operations apart at their locks.  What the surroundings decide is an argument:
  clock readings, the order in which a map is ranged over, when the worker runs around a dispatch and
  which case of a blocked \<open>select\<close> fires, and how user callbacks end (they may panic).  User callbacks
  that call back into the server are not modelled, but for \<open>Close\<close>: \<open>Adms_Shutdown\<close> takes every callback
  to end, except under \<open>awaiting\<close>, where some wait for their context or for \<open>Close\<close>.  The context
  a server derives its own from (\<open>WithBaseContext\<close>) is part of that protocol only.

  \<^bold>\<open>What the lemmas show.\<close>  The parsers keep exactly the well-formed lines and read back what devices
  write; numbers stay within 64 bits.  The callback queue commits all or nothing, in order, survives
  panics and drains.  Queues are first-in first-out, IDs fresh and positive, limits respected, and every
  line on the wire reads back as one command.  Eviction does not depend on iteration order.  Every
  handler keeps the invariant, loses no committed callback, leaves other devices alone and has no
  effect when it rejects.  Over a whole run a device reads each command at most once and in order, and
  only evictions lose one; while requests come one after another, no command is reported as confirmed
  twice, or without having been handed over;
  and every argument of a user callback has its type (whose fields are lines, but for those of a registry).
  Closing never sends on a closed channel, runs what was accepted before it cancels the context, and, if the
  callbacks end, can always go on to its end (each step lowers a measure); if a callback waits for that
  context it hangs, until a context passed by the caller ends.  The sequential model of a dispatch is simulated by the protocol.  A program always gets to return
  once it is asked to, but requests in flight are cut off.  Concurrent calls never share an ID, and the
  command that a confirmation has found stays the one of its entry until that is deleted; but an eviction
  can orphan a queue, two requests at once can report one command twice, and a confirmation that came too
  early to find its command can delete the entry of that command later.  The middleware is transparent; a command endpoint does what its
  specification says and its command reaches the device, and the listing of endpoints is exact; an
  upload reaches the store.  Whatever the example programs are sent, their state is that of a run of the
  package given by their requests, and devices cannot forge lines on the command program's console.  The
  probe sends only what it was allowed to, has nothing refused while its device stays registered, reports
  every result for a queued command under that command, up to the window before its ID is noted, and always
  ends once the device has been seen; its summary relies on the order of confirmations.

  \<^bold>\<open>Bounds.\<close>  The freshness of IDs is proved for runs of fewer than 2^63 - 1 operations, the range
  of the signed counter; the theorems on runs share that bound, but for those on the probe, whose table
  bounds its commands.  No model uses fuel: the loops are structural or have a measure, and \<open>workerRun\<close>
  takes the number of iterations.

  \<^bold>\<open>Not modelled.\<close>  The log lines of the package; the values that contexts
  carry, HTTP headers and write errors; flags and signals; the redirects of \<open>http.ServeMux\<close>.  Of
  \<open>net/http\<close>, \<open>Example_Run\<close> takes what is documented: \<open>Shutdown\<close> closes the listeners, makes
  \<open>ListenAndServe\<close> return and waits for active connections up to its context; of a request in flight it
  sees one dispatch.  The text and the decoding of JSON, \<open>url.Parse\<close>, \<open>%q\<close> and the printing of times
  for humans are arguments of the definitions that use them.  A response body counts as one write.
\<close>

end
